(* ===== verification/Cpp_Prelude.thy ===== *)
theory Cpp_Prelude
  imports Main
begin

text \<open>
  What every component theory shares: the errors a C++ execution of this library can
  end with, the type of an execution (it returns, it ends with an error, or it does not
  return), the integer conversions of the code (\<open>int16_t\<close>, \<open>size_t\<close>), checked
  vector reads, the decimal output of \<open>operator<<\<close>, and the generic lemmas and
  collections of facts the component proofs draw on.
\<close>

section \<open>Collections of facts\<close>

named_theorems narrow_simps \<open>conversions that are the identity on values in range\<close>
named_theorems run_simps \<open>unfolding of executions\<close>

section \<open>Executions and their errors\<close>

text \<open>
  \<open>Undefined\<close> stands for undefined behaviour (an index outside a vector, an array of
  negative length, an iterator outside its sequence); the other constructors are the
  exceptions and terminations that the standard library or the logger raise.
\<close>

datatype cpp_error =
    Undefined
  | Length_error
  | Fatal string

text \<open>
  A function that cannot diverge has a result \<open>cpp_error + 'a\<close>. A loop that might run
  forever has a result \<open>'a run\<close>, where \<open>None\<close> is an execution that does not return.
\<close>

type_synonym 'a res = "cpp_error + 'a"
type_synonym 'a run = "(cpp_error + 'a) option"

abbreviation returns :: "'a \<Rightarrow> 'a run" where
  "returns x \<equiv> Some (Inr x)"

abbreviation fails :: "cpp_error \<Rightarrow> 'a run" where
  "fails e \<equiv> Some (Inl e)"

definition bind_res :: "'a res \<Rightarrow> ('a \<Rightarrow> 'b res) \<Rightarrow> 'b res" where
  "bind_res m f = (case m of Inl e \<Rightarrow> Inl e | Inr x \<Rightarrow> f x)"

definition bind_run :: "'a run \<Rightarrow> ('a \<Rightarrow> 'b run) \<Rightarrow> 'b run" where
  "bind_run m f =
     (case m of None \<Rightarrow> None | Some (Inl e) \<Rightarrow> Some (Inl e) | Some (Inr x) \<Rightarrow> f x)"

lemma bind_res_simps [simp, run_simps]:
  "bind_res (Inl e) f = Inl e"
  "bind_res (Inr x) f = f x"
  by (simp_all add: bind_res_def)

lemma bind_run_simps [simp, run_simps]:
  "bind_run None f = None"
  "bind_run (fails e) f = fails e"
  "bind_run (returns x) f = f x"
  by (simp_all add: bind_run_def)

section \<open>Integers\<close>

text \<open>
  Arithmetic on \<open>IndexT = int16_t\<close> promotes to \<open>int\<close> and is narrowed back by the
  assignment; the narrowing reduces modulo \<open>2^16\<close> into \<open>[-2^15, 2^15)\<close>. A conversion to
  \<open>size_t\<close> reduces modulo \<open>2^64\<close>.
\<close>

definition i16 :: "int \<Rightarrow> int" where
  "i16 x = (x + 2 ^ 15) mod 2 ^ 16 - 2 ^ 15"

definition u64 :: "int \<Rightarrow> nat" where
  "u64 x = nat (x mod 2 ^ 64)"

text \<open>\<open>%\<close> on signed operands: the remainder has the sign of the dividend.\<close>

definition c_rem :: "int \<Rightarrow> int \<Rightarrow> int" where
  "c_rem a b = sgn a * (\<bar>a\<bar> mod \<bar>b\<bar>)"

lemma i16_id [narrow_simps]: "- 32768 \<le> x \<Longrightarrow> x \<le> 32767 \<Longrightarrow> i16 x = x"
  by (simp add: i16_def)

lemma i16_range: "- 32768 \<le> i16 x \<and> i16 x \<le> 32767"
proof -
  have "0 \<le> (x + 32768) mod 65536" and "(x + 32768) mod 65536 < 65536"
    by simp_all
  then show ?thesis by (simp add: i16_def)
qed

lemma i16_idem [simp]: "i16 (i16 x) = i16 x"
  using i16_range [of x] by (simp add: i16_id)

text \<open>The values of one wrap-around above and below the range.\<close>

lemma i16_wraps_down: "32768 \<le> x \<Longrightarrow> x < 98304 \<Longrightarrow> i16 x = x - 65536"
proof -
  assume a: "32768 \<le> x" "x < 98304"
  have "(x + 32768) mod 65536 = (x + 32768 - 65536) mod 65536"
    by (rule mod_pos_pos_trivial [THEN sym] minus_mod_self2 [THEN sym])
  also have "\<dots> = x - 32768"
    using a by simp
  finally show ?thesis by (simp add: i16_def)
qed

lemma u64_id [narrow_simps]: "0 \<le> x \<Longrightarrow> x < 18446744073709551616 \<Longrightarrow> u64 x = nat x"
  by (simp add: u64_def)

lemma u64_neg: "- 18446744073709551616 \<le> x \<Longrightarrow> x < 0 \<Longrightarrow> u64 x = nat (x + 18446744073709551616)"
proof -
  assume a: "- 18446744073709551616 \<le> x" "x < 0"
  have "x mod 18446744073709551616 = (x + 18446744073709551616) mod 18446744073709551616"
    by simp
  also have "\<dots> = x + 18446744073709551616"
    using a by (intro mod_pos_pos_trivial) auto
  finally show ?thesis by (simp add: u64_def)
qed

lemma c_rem_pos: "0 \<le> a \<Longrightarrow> 0 < b \<Longrightarrow> c_rem a b = a mod b"
  by (cases "a = 0") (simp_all add: c_rem_def)

section \<open>Vectors\<close>

text \<open>\<open>v[i]\<close> on a vector or a string: reading outside it is undefined behaviour.\<close>

definition vec_get :: "'a list \<Rightarrow> int \<Rightarrow> 'a res" where
  "vec_get v i = (if 0 \<le> i \<and> i < int (length v) then Inr (v ! nat i) else Inl Undefined)"

lemma vec_get_in [simp]: "0 \<le> i \<Longrightarrow> i < int (length v) \<Longrightarrow> vec_get v i = Inr (v ! nat i)"
  by (simp add: vec_get_def)

text \<open>The size of a sequence stored in an \<open>IndexT\<close> variable.\<close>

definition ilen :: "'a list \<Rightarrow> int" where
  "ilen xs = i16 (int (length xs))"

lemma ilen_id [narrow_simps]: "length xs \<le> 32767 \<Longrightarrow> ilen xs = int (length xs)"
  by (simp add: ilen_def i16_id)

lemma ilen_le: "ilen xs \<le> int (length xs)"
proof (cases "length xs \<le> 32767")
  case True
  then show ?thesis by (simp add: ilen_id)
next
  case False
  with i16_range [of "int (length xs)"] show ?thesis by (simp add: ilen_def)
qed

section \<open>Decimal output\<close>

text \<open>\<open>out << i\<close> for an integer.\<close>

definition digit_char :: "nat \<Rightarrow> char" where
  "digit_char d = char_of (48 + d)"

fun dec_digits :: "nat \<Rightarrow> string" where
  "dec_digits n = (if n < 10 then [digit_char n] else dec_digits (n div 10) @ [digit_char (n mod 10)])"

declare dec_digits.simps [simp del]

definition show_int :: "int \<Rightarrow> string" where
  "show_int i = (if i < 0 then CHR ''-'' # dec_digits (nat (- i)) else dec_digits (nat i))"

lemma dec_digits_nonempty [simp]: "dec_digits n \<noteq> []"
  by (subst dec_digits.simps) simp

lemma show_int_nonempty [simp]: "show_int i \<noteq> []"
  by (simp add: show_int_def)

section \<open>Lists\<close>

lemma concat_equal_rows_nth:
  assumes "\<forall>r \<in> set rows. length r = w" and "e < length rows" and "j < w"
  shows "concat rows ! (e * w + j) = rows ! e ! j"
  using assms
proof (induction rows arbitrary: e)
  case Nil
  then show ?case by simp
next
  case (Cons r rows)
  show ?case
  proof (cases e)
    case 0
    with Cons.prems show ?thesis by (simp add: nth_append)
  next
    case (Suc e')
    have "concat (r # rows) ! (e * w + j) = concat rows ! (e' * w + j)"
      using Cons.prems(1) by (simp add: nth_append Suc add.assoc)
    also have "\<dots> = rows ! e' ! j"
      using Cons.prems by (intro Cons.IH) (auto simp: Suc)
    finally show ?thesis by (simp add: Suc)
  qed
qed

lemma length_concat_equal_rows:
  "\<forall>r \<in> set rows. length r = w \<Longrightarrow> length (concat rows) = length rows * w"
  by (induction rows) simp_all

end
