(* ===== verification/Myers_Diff.thy ===== *)
theory Myers_Diff
  imports Cpp_Prelude
begin

text \<open>
  The code of \<open>cppkg/diff/myers_diff.h\<close>: the greedy search for a shortest edit script
  (\<open>myers_diff_min_edit\<close>, \<open>myers_diff_trace\<close>), the walk back over its trace
  (\<open>myers_diff_backtrace\<close>) and the construction of the edit list (\<open>myers_diff\<close>).

  A sequence is a list; the comparator is a parameter, as in the code. An \<open>IndexT\<close> is an
  \<open>int\<close> that every assignment narrows with \<^const>\<open>i16\<close>; a \<open>size_t\<close> is a \<open>nat\<close>. The
  loops are \<open>partial_function\<close>s, since \<open>k += 2\<close> and \<open>++iedit\<close> wrap around on \<open>int16_t\<close> and
  need not reach their bounds.
\<close>

section \<open>Data\<close>

type_synonym point = "int \<times> int"

datatype Action = EQ | ADD | DEL

record 'a Diff =
  dval :: 'a
  dorig :: int
  dupdated :: int
  daction :: Action

section \<open>The vector of furthest positions\<close>

text \<open>
  \<open>costs[(ncost + k) % ncost]\<close>, an index computed on \<open>size_t\<close>. Reading and writing
  at it needs no check: the vector has \<open>ncost\<close> elements.
\<close>

definition cost_index :: "nat \<Rightarrow> int \<Rightarrow> nat" where
  "cost_index ncost k = u64 (int ncost + k) mod ncost"

text \<open>
  \<open>std::vector<IndexT> costs(ncost, 0)\<close> with \<open>size_t ncost = 2 * max_edit + 1\<close>: the
  constructor throws \<open>std::length_error\<close> for a size above \<open>max_size()\<close>, which is
  \<open>PTRDIFF_MAX / sizeof(int16_t)\<close> on the 64-bit libstdc++ and libc++.
\<close>

definition vec16_max_size :: int where
  "vec16_max_size = 2 ^ 62 - 1"

definition new_costs :: "nat \<Rightarrow> int list res" where
  "new_costs ncost = (if int ncost > vec16_max_size then Inl Length_error else Inr (replicate ncost 0))"

section \<open>One diagonal\<close>

text \<open>
  The start of the run on diagonal \<open>k\<close>: \<open>nextk\<close> (a step down from diagonal \<open>k + 1\<close>) or
  \<open>prevk + 1\<close> (a step right from diagonal \<open>k - 1\<close>).
\<close>

definition diag_start :: "nat \<Rightarrow> int \<Rightarrow> int \<Rightarrow> int list \<Rightarrow> int" where
  "diag_start ncost iedit k costs =
     (let prevk = costs ! cost_index ncost (k - 1);
          nextk = costs ! cost_index ncost (k + 1)
      in if k = - iedit \<or> (k \<noteq> iedit \<and> prevk < nextk) then nextk else i16 (prevk + 1))"

text \<open>
  The inner \<open>while\<close>. \<open>std::next(begin, x)\<close> with a negative \<open>x\<close> leaves the sequence,
  which is undefined. \<open>++x\<close> and \<open>++y\<close> stay below \<open>n\<close> and \<open>m\<close> and need no narrowing.
\<close>

function snake :: "('a \<Rightarrow> 'a \<Rightarrow> bool) \<Rightarrow> 'a list \<Rightarrow> 'a list \<Rightarrow> int \<Rightarrow> int \<Rightarrow> (int \<times> int) res" where
  "snake cmp orig upd x y =
     (if x < ilen orig \<and> y < ilen upd
      then if x < 0 \<or> y < 0 then Inl Undefined
           else if cmp (orig ! nat x) (upd ! nat y) then snake cmp orig upd (x + 1) (y + 1)
           else Inr (x, y)
      else Inr (x, y))"
  by pat_completeness auto
termination
  by (relation "measure (\<lambda>(cmp, orig, upd, x, y). nat (ilen orig - x))") auto

declare snake.simps [simp del]

section \<open>The trace\<close>

text \<open>
  The loop over the diagonals of one edit count, and the loop over the edit counts. The
  result of the first is the vector and the flag \<open>cont\<close>; of the second, the trace.
\<close>

partial_function (option) trace_row ::
  "('a \<Rightarrow> 'a \<Rightarrow> bool) \<Rightarrow> 'a list \<Rightarrow> 'a list \<Rightarrow> nat \<Rightarrow> int \<Rightarrow> int \<Rightarrow> int list \<Rightarrow> bool
     \<Rightarrow> (int list \<times> bool) run" where
  [code]: "trace_row cmp orig upd ncost iedit k costs cont =
     (if k \<le> iedit \<and> cont
      then let x0 = diag_start ncost iedit k costs in
           case snake cmp orig upd x0 (i16 (x0 - k)) of
             Inl e \<Rightarrow> fails e
           | Inr (x, y) \<Rightarrow>
               trace_row cmp orig upd ncost iedit (i16 (k + 2))
                 (costs[cost_index ncost k := x]) (x < ilen orig \<or> y < ilen upd)
      else returns (costs, cont))"

partial_function (option) trace_loop ::
  "('a \<Rightarrow> 'a \<Rightarrow> bool) \<Rightarrow> 'a list \<Rightarrow> 'a list \<Rightarrow> nat \<Rightarrow> int \<Rightarrow> int \<Rightarrow> int list \<Rightarrow> int list \<Rightarrow> bool
     \<Rightarrow> int list run" where
  [code]: "trace_loop cmp orig upd ncost max_edit iedit costs trace cont =
     (if iedit \<le> max_edit \<and> cont
      then case trace_row cmp orig upd ncost iedit (i16 (- iedit)) costs True of
             None \<Rightarrow> None
           | Some (Inl e) \<Rightarrow> fails e
           | Some (Inr (costs', cont')) \<Rightarrow>
               trace_loop cmp orig upd ncost max_edit (i16 (iedit + 1)) costs' (trace @ costs) cont'
      else returns trace)"

definition myers_diff_trace :: "('a \<Rightarrow> 'a \<Rightarrow> bool) \<Rightarrow> 'a list \<Rightarrow> 'a list \<Rightarrow> int list run" where
  "myers_diff_trace cmp orig upd =
     (let max_edit = i16 (ilen orig + ilen upd);
          ncost = u64 (2 * max_edit + 1)
      in case new_costs ncost of
           Inl e \<Rightarrow> fails e
         | Inr costs \<Rightarrow> trace_loop cmp orig upd ncost max_edit 0 costs [] True)"

section \<open>The minimum number of edits\<close>

text \<open>
  The same two loops, without the trace; the result of the inner one has \<open>min_edits\<close> as a
  third part. The outer loop stops before \<open>max_edit\<close>, the value \<open>min_edits\<close> starts with.
\<close>

partial_function (option) min_edit_row ::
  "('a \<Rightarrow> 'a \<Rightarrow> bool) \<Rightarrow> 'a list \<Rightarrow> 'a list \<Rightarrow> nat \<Rightarrow> int \<Rightarrow> int \<Rightarrow> int list \<Rightarrow> bool \<Rightarrow> int
     \<Rightarrow> (int list \<times> bool \<times> int) run" where
  [code]: "min_edit_row cmp orig upd ncost iedit k costs cont min_edits =
     (if k \<le> iedit \<and> cont
      then let x0 = diag_start ncost iedit k costs in
           case snake cmp orig upd x0 (i16 (x0 - k)) of
             Inl e \<Rightarrow> fails e
           | Inr (x, y) \<Rightarrow>
               let found = (ilen orig \<le> x \<and> ilen upd \<le> y) in
               min_edit_row cmp orig upd ncost iedit (i16 (k + 2))
                 (costs[cost_index ncost k := x]) (\<not> found) (if found then iedit else min_edits)
      else returns (costs, cont, min_edits))"

partial_function (option) min_edit_loop ::
  "('a \<Rightarrow> 'a \<Rightarrow> bool) \<Rightarrow> 'a list \<Rightarrow> 'a list \<Rightarrow> nat \<Rightarrow> int \<Rightarrow> int \<Rightarrow> int list \<Rightarrow> bool \<Rightarrow> int
     \<Rightarrow> int run" where
  [code]: "min_edit_loop cmp orig upd ncost max_edit iedit costs cont min_edits =
     (if iedit < max_edit \<and> cont
      then case min_edit_row cmp orig upd ncost iedit (i16 (- iedit)) costs True min_edits of
             None \<Rightarrow> None
           | Some (Inl e) \<Rightarrow> fails e
           | Some (Inr (costs', cont', min_edits')) \<Rightarrow>
               min_edit_loop cmp orig upd ncost max_edit (i16 (iedit + 1)) costs' cont' min_edits'
      else returns min_edits)"

definition myers_diff_min_edit :: "('a \<Rightarrow> 'a \<Rightarrow> bool) \<Rightarrow> 'a list \<Rightarrow> 'a list \<Rightarrow> nat run" where
  "myers_diff_min_edit cmp orig upd =
     (let max_edit = i16 (ilen orig + ilen upd);
          ncost = u64 (2 * max_edit + 1)
      in case new_costs ncost of
           Inl e \<Rightarrow> fails e
         | Inr costs \<Rightarrow>
             bind_run (min_edit_loop cmp orig upd ncost max_edit 0 costs True max_edit)
               (\<lambda>min_edits. returns (u64 min_edits)))"

section \<open>The walk back over the trace\<close>

text \<open>\<open>--x\<close> and \<open>--y\<close> stay at or above \<open>prev_x\<close> and \<open>prev_y\<close> and need no narrowing.\<close>

function walk_diagonal :: "int \<Rightarrow> int \<Rightarrow> int \<Rightarrow> int \<Rightarrow> point list \<Rightarrow> point list" where
  "walk_diagonal prev_x prev_y x y points =
     (if prev_x < x \<and> prev_y < y
      then walk_diagonal prev_x prev_y (x - 1) (y - 1) (points @ [(x - 1, y - 1)])
      else points)"
  by pat_completeness auto
termination
  by (relation "measure (\<lambda>(prev_x, prev_y, x, y, points). nat (x - prev_x))") auto

declare walk_diagonal.simps [simp del]

text \<open>
  The choice of the diagonal the search came from; \<open>ncost\<close> is an \<open>IndexT\<close> here, so the
  remainder is the one of \<open>int\<close>. \<open>k == -iedit || (k != iedit && ...)\<close> reads the trace
  only where the first operands leave the choice open.
\<close>

definition prev_diagonal :: "int list \<Rightarrow> int \<Rightarrow> int \<Rightarrow> int \<Rightarrow> int res" where
  "prev_diagonal traces ncost iedit k =
     (if k = - iedit then Inr (i16 (k + 1))
      else if k = iedit then Inr (i16 (k - 1))
      else bind_res (vec_get traces (iedit * ncost + c_rem (ncost + k - 1) ncost)) (\<lambda>prevk.
           bind_res (vec_get traces (iedit * ncost + c_rem (ncost + k + 1) ncost)) (\<lambda>nextk.
           Inr (i16 (if prevk < nextk then k + 1 else k - 1)))))"

function backtrace_loop ::
  "int list \<Rightarrow> int \<Rightarrow> int \<Rightarrow> int \<Rightarrow> int \<Rightarrow> point list \<Rightarrow> point list res" where
  "backtrace_loop traces ncost iedit x y points =
     (if 0 \<le> iedit
      then case prev_diagonal traces ncost iedit (i16 (x - y)) of
             Inl e \<Rightarrow> Inl e
           | Inr prev_k \<Rightarrow>
               (case vec_get traces (iedit * ncost + c_rem (ncost + prev_k) ncost) of
                  Inl e \<Rightarrow> Inl e
                | Inr prev_x \<Rightarrow>
                    let prev_y = i16 (prev_x - prev_k);
                        points' = walk_diagonal prev_x prev_y x y points;
                        points'' = (if 0 < iedit then points' @ [(prev_x, prev_y)] else points')
                    in backtrace_loop traces ncost (i16 (iedit - 1)) prev_x prev_y points'')
      else Inr points)"
  by pat_completeness auto
termination
proof (relation "measure (\<lambda>(traces, ncost, iedit, x, y, points). nat (iedit + 1))", simp)
  fix iedit :: int
  assume "0 \<le> iedit"
  then have "i16 (iedit - 1) < iedit"
    using i16_range [of "iedit - 1"] by (cases "iedit \<le> 32768") (simp_all add: i16_id)
  with \<open>0 \<le> iedit\<close> show "((traces, ncost, i16 (iedit - 1), prev_x, prev_y, ps), traces', ncost', iedit, x, y, points)
      \<in> measure (\<lambda>(traces, ncost, iedit, x, y, points). nat (iedit + 1))"
    for traces traces' :: "int list" and ncost ncost' prev_x prev_y x y :: int and ps points :: "point list"
    by simp
qed

declare backtrace_loop.simps [simp del]

definition myers_diff_backtrace :: "('a \<Rightarrow> 'a \<Rightarrow> bool) \<Rightarrow> 'a list \<Rightarrow> 'a list \<Rightarrow> point list run" where
  "myers_diff_backtrace cmp orig upd =
     (let x = ilen orig;
          y = ilen upd;
          ncost = i16 (2 * (x + y) + 1)
      in bind_run (myers_diff_trace cmp orig upd) (\<lambda>traces.
         let ntraces = i16 (int (length traces div u64 ncost))
         in Some (backtrace_loop traces ncost (i16 (ntraces - 1)) x y [])))"

section \<open>The edit list\<close>

fun build_diffs :: "'a list \<Rightarrow> 'a list \<Rightarrow> point \<Rightarrow> point list \<Rightarrow> 'a Diff list \<Rightarrow> 'a Diff list res" where
  "build_diffs orig upd prev [] diffs = Inr diffs"
| "build_diffs orig upd prev (next # points) diffs =
     (if fst next = fst prev
      then case vec_get upd (snd next) of
             Inl e \<Rightarrow> Inl e
           | Inr v \<Rightarrow> build_diffs orig upd next points
               (diffs @ [\<lparr>dval = v, dorig = - 1, dupdated = snd next, daction = ADD\<rparr>])
      else if snd next = snd prev
      then case vec_get orig (fst next) of
             Inl e \<Rightarrow> Inl e
           | Inr v \<Rightarrow> build_diffs orig upd next points
               (diffs @ [\<lparr>dval = v, dorig = fst next, dupdated = - 1, daction = DEL\<rparr>])
      else case vec_get orig (fst next) of
             Inl e \<Rightarrow> Inl e
           | Inr v \<Rightarrow> build_diffs orig upd next points
               (diffs @ [\<lparr>dval = v, dorig = fst next, dupdated = snd next, daction = EQ\<rparr>]))"

definition myers_diff :: "('a \<Rightarrow> 'a \<Rightarrow> bool) \<Rightarrow> 'a list \<Rightarrow> 'a list \<Rightarrow> 'a Diff list run" where
  "myers_diff cmp orig upd =
     bind_run (myers_diff_backtrace cmp orig upd) (\<lambda>points.
     bind_run (Some (build_diffs orig upd (ilen orig, ilen upd) points [])) (\<lambda>diffs.
     returns (rev diffs)))"

end
