(* ===== verification/Edit_Script.thy ===== *)
theory Edit_Script
  imports Myers_Diff
begin

text \<open>
  The specification of the diff package, independent of its search: what a valid edit
  list is, the sequences it reads from, its cost, the least cost of any edit list, and
  the edit graph whose shortest paths the search looks for.
\<close>

section \<open>Edit lists\<close>

text \<open>
  \<open>script_from cmp orig upd i j ds i' j'\<close>: the entries of \<open>ds\<close> lead from position
  \<open>(i, j)\<close> to \<open>(i', j')\<close>. A kept element takes its value from \<open>orig\<close> and is equal, for the
  comparator, to the element of \<open>upd\<close> at its place; an added or deleted one has index -1 on
  the side that lacks it.
\<close>

fun script_from ::
  "('a \<Rightarrow> 'a \<Rightarrow> bool) \<Rightarrow> 'a list \<Rightarrow> 'a list \<Rightarrow> nat \<Rightarrow> nat \<Rightarrow> 'a Diff list \<Rightarrow> nat \<Rightarrow> nat \<Rightarrow> bool" where
  "script_from cmp orig upd i j [] i' j' \<longleftrightarrow> i = i' \<and> j = j'"
| "script_from cmp orig upd i j (d # ds) i' j' \<longleftrightarrow>
     (case daction d of
        EQ \<Rightarrow> i < length orig \<and> j < length upd \<and> cmp (orig ! i) (upd ! j) \<and>
          d = \<lparr>dval = orig ! i, dorig = int i, dupdated = int j, daction = EQ\<rparr> \<and>
          script_from cmp orig upd (Suc i) (Suc j) ds i' j'
      | ADD \<Rightarrow> j < length upd \<and>
          d = \<lparr>dval = upd ! j, dorig = - 1, dupdated = int j, daction = ADD\<rparr> \<and>
          script_from cmp orig upd i (Suc j) ds i' j'
      | DEL \<Rightarrow> i < length orig \<and>
          d = \<lparr>dval = orig ! i, dorig = int i, dupdated = - 1, daction = DEL\<rparr> \<and>
          script_from cmp orig upd (Suc i) j ds i' j')"

definition valid_script :: "('a \<Rightarrow> 'a \<Rightarrow> bool) \<Rightarrow> 'a list \<Rightarrow> 'a list \<Rightarrow> 'a Diff list \<Rightarrow> bool" where
  "valid_script cmp orig upd ds \<longleftrightarrow> script_from cmp orig upd 0 0 ds (length orig) (length upd)"

text \<open>The original and the updated sequence, read off an edit list, and its cost.\<close>

definition orig_side :: "'a Diff list \<Rightarrow> 'a list" where
  "orig_side ds = map dval (filter (\<lambda>d. daction d \<noteq> ADD) ds)"

definition upd_side :: "'a Diff list \<Rightarrow> 'a list" where
  "upd_side ds = map dval (filter (\<lambda>d. daction d \<noteq> DEL) ds)"

definition edits :: "'a Diff list \<Rightarrow> nat" where
  "edits ds = length (filter (\<lambda>d. daction d \<noteq> EQ) ds)"

lemma side_simps [simp]:
  "orig_side [] = []" "upd_side [] = []" "edits [] = 0"
  "orig_side (d # ds) = (if daction d = ADD then orig_side ds else dval d # orig_side ds)"
  "upd_side (d # ds) = (if daction d = DEL then upd_side ds else dval d # upd_side ds)"
  "edits (d # ds) = (if daction d = EQ then edits ds else Suc (edits ds))"
  by (simp_all add: orig_side_def upd_side_def edits_def)

lemma side_append [simp]:
  "orig_side (ds @ es) = orig_side ds @ orig_side es"
  "upd_side (ds @ es) = upd_side ds @ upd_side es"
  "edits (ds @ es) = edits ds + edits es"
  by (simp_all add: orig_side_def upd_side_def edits_def)

lemma edits_rev [simp]: "edits (rev ds) = edits ds"
  by (induction ds) auto

lemma edits_zero_iff: "edits ds = 0 \<longleftrightarrow> (\<forall>d \<in> set ds. daction d = EQ)"
  by (simp add: edits_def filter_empty_conv)

lemma sides_of_no_edits: "edits ds = 0 \<Longrightarrow> orig_side ds = upd_side ds"
  by (induction ds) (auto split: if_splits)

lemma script_from_append:
  "script_from cmp orig upd i j (ds @ es) i' j' \<longleftrightarrow>
     (\<exists>i1 j1. script_from cmp orig upd i j ds i1 j1 \<and> script_from cmp orig upd i1 j1 es i' j')"
  by (induction ds arbitrary: i j) (auto split: Action.splits)

lemma script_from_mono: "script_from cmp orig upd i j ds i' j' \<Longrightarrow> i \<le> i' \<and> j \<le> j'"
  by (induction ds arbitrary: i j) (fastforce split: Action.splits)+

lemma script_from_bounds:
  "script_from cmp orig upd i j ds i' j' \<Longrightarrow> i \<le> length orig \<Longrightarrow> j \<le> length upd
     \<Longrightarrow> i' \<le> length orig \<and> j' \<le> length upd"
  by (induction ds arbitrary: i j) (auto split: Action.splits)

lemma script_from_length:
  "script_from cmp orig upd i j ds i' j' \<Longrightarrow> length ds \<le> (i' - i) + (j' - j)"
proof (induction ds arbitrary: i j)
  case Nil
  then show ?case by simp
next
  case (Cons d ds)
  then show ?case
    by (cases "daction d") (fastforce dest: script_from_mono)+
qed

text \<open>A kept entry advances on both sides, an edit on one.\<close>

lemma script_counts:
  "script_from cmp orig upd i j ds i' j' \<Longrightarrow>
     2 * length ds + i + j = i' + j' + edits ds \<and> i' + j \<le> j' + i + edits ds \<and> j' + i \<le> i' + j + edits ds"
  by (induction ds arbitrary: i j) (fastforce split: Action.splits if_splits)+

lemma script_no_edits:
  "script_from cmp orig upd i j ds i' j' \<Longrightarrow> edits ds = 0 \<Longrightarrow> i' + j = j' + i"
  by (induction ds arbitrary: i j) (fastforce split: Action.splits if_splits)+

lemma script_orig_side:
  "script_from cmp orig upd i j ds i' j' \<Longrightarrow> i \<le> length orig \<Longrightarrow> orig_side ds @ drop i' orig = drop i orig"
proof (induction ds arbitrary: i j)
  case Nil
  then show ?case by simp
next
  case (Cons d ds)
  then show ?case
    by (cases "daction d") (auto simp: Cons_nth_drop_Suc)
qed

lemma script_upd_side:
  "script_from (=) orig upd i j ds i' j' \<Longrightarrow> j \<le> length upd \<Longrightarrow> upd_side ds @ drop j' upd = drop j upd"
proof (induction ds arbitrary: i j)
  case Nil
  then show ?case by simp
next
  case (Cons d ds)
  then show ?case
    by (cases "daction d") (auto simp: Cons_nth_drop_Suc)
qed

lemma valid_script_sides:
  "valid_script cmp orig upd ds \<Longrightarrow> orig_side ds = orig"
  "valid_script (=) orig upd ds \<Longrightarrow> upd_side ds = upd"
  unfolding valid_script_def
  by (fastforce dest: script_orig_side, fastforce dest: script_upd_side)

text \<open>A script of a batch is a script of the sequences the batch is the start of.\<close>

lemma script_from_take:
  "script_from cmp (take a orig) (take b upd) i j ds i' j' \<Longrightarrow> script_from cmp orig upd i j ds i' j'"
  by (induction ds arbitrary: i j) (auto split: Action.splits)

section \<open>The least cost\<close>

fun edit_dist :: "('a \<Rightarrow> 'a \<Rightarrow> bool) \<Rightarrow> 'a list \<Rightarrow> 'a list \<Rightarrow> nat" where
  "edit_dist cmp [] ys = length ys"
| "edit_dist cmp (x # xs) [] = Suc (length xs)"
| "edit_dist cmp (x # xs) (y # ys) =
     (let e = Suc (min (edit_dist cmp xs (y # ys)) (edit_dist cmp (x # xs) ys))
      in if cmp x y then min e (edit_dist cmp xs ys) else e)"

lemma edit_dist_Nil [simp]: "edit_dist cmp xs [] = length xs"
  by (cases xs) simp_all

lemma edit_dist_le: "edit_dist cmp xs ys \<le> length xs + length ys"
  by (induction cmp xs ys rule: edit_dist.induct) (auto simp: Let_def min_def)

lemma edit_dist_del: "edit_dist cmp xs ys \<le> Suc (edit_dist cmp (tl xs) ys)"
  by (cases xs; cases ys) (auto simp: Let_def min_def)

lemma edit_dist_add: "edit_dist cmp xs ys \<le> Suc (edit_dist cmp xs (tl ys))"
  by (cases xs; cases ys) (auto simp: Let_def min_def)

lemma edit_dist_keep: "cmp x y \<Longrightarrow> edit_dist cmp (x # xs) (y # ys) \<le> edit_dist cmp xs ys"
  by (simp add: Let_def)

lemma edit_dist_drop_keep:
  "i < length orig \<Longrightarrow> j < length upd \<Longrightarrow> cmp (orig ! i) (upd ! j) \<Longrightarrow>
     edit_dist cmp (drop i orig) (drop j upd) \<le> edit_dist cmp (drop (Suc i) orig) (drop (Suc j) upd)"
  using edit_dist_keep [of cmp "orig ! i" "upd ! j" "drop (Suc i) orig" "drop (Suc j) upd"]
  by (simp add: Cons_nth_drop_Suc)

lemma edit_dist_same [simp]: "edit_dist (=) xs xs = 0"
  by (induction xs) (simp_all add: Let_def)

lemma script_cost_ge:
  "script_from cmp orig upd i j ds (length orig) (length upd)
     \<Longrightarrow> i \<le> length orig \<Longrightarrow> j \<le> length upd
     \<Longrightarrow> edit_dist cmp (drop i orig) (drop j upd) \<le> edits ds"
proof (induction ds arbitrary: i j)
  case Nil
  then show ?case by simp
next
  case (Cons d ds)
  show ?case
  proof (cases "daction d")
    case EQ
    with Cons.prems have b: "i < length orig" "j < length upd" "cmp (orig ! i) (upd ! j)"
      and s: "script_from cmp orig upd (Suc i) (Suc j) ds (length orig) (length upd)" by auto
    from s b have "edit_dist cmp (drop (Suc i) orig) (drop (Suc j) upd) \<le> edits ds"
      by (intro Cons.IH) auto
    moreover have "edit_dist cmp (drop i orig) (drop j upd)
        \<le> edit_dist cmp (drop (Suc i) orig) (drop (Suc j) upd)"
      using b by (rule edit_dist_drop_keep)
    ultimately show ?thesis using EQ by simp
  next
    case ADD
    with Cons.prems have b: "j < length upd"
      and s: "script_from cmp orig upd i (Suc j) ds (length orig) (length upd)" by auto
    from s b Cons.prems have "edit_dist cmp (drop i orig) (drop (Suc j) upd) \<le> edits ds"
      by (intro Cons.IH) auto
    then show ?thesis
      using ADD edit_dist_add [of cmp "drop i orig" "drop j upd"] by (simp add: tl_drop drop_Suc)
  next
    case DEL
    with Cons.prems have b: "i < length orig"
      and s: "script_from cmp orig upd (Suc i) j ds (length orig) (length upd)" by auto
    from s b Cons.prems have "edit_dist cmp (drop (Suc i) orig) (drop j upd) \<le> edits ds"
      by (intro Cons.IH) auto
    then show ?thesis
      using DEL edit_dist_del [of cmp "drop i orig" "drop j upd"] by (simp add: tl_drop drop_Suc)
  qed
qed

text \<open>Every edit list costs at least the distance of its own two sides, whatever its indices are.\<close>

lemma sides_cost: "edit_dist (=) (orig_side ds) (upd_side ds) \<le> edits ds"
proof (induction ds)
  case (Cons d ds)
  show ?case
  proof (cases "daction d")
    case EQ
    with Cons edit_dist_keep [of "(=)" "dval d" "dval d" "orig_side ds" "upd_side ds"] show ?thesis by simp
  next
    case ADD
    with Cons edit_dist_add [of "(=)" "orig_side ds" "dval d # upd_side ds"] show ?thesis by simp
  next
    case DEL
    with Cons edit_dist_del [of "(=)" "dval d # orig_side ds" "upd_side ds"] show ?thesis by simp
  qed
qed simp

lemma valid_script_cost: "valid_script cmp orig upd ds \<Longrightarrow> edit_dist cmp orig upd \<le> edits ds"
  using script_cost_ge [of cmp orig upd 0 0 ds] by (simp add: valid_script_def)

section \<open>The edit graph\<close>

text \<open>
  \<open>reach cmp orig upd d x y\<close>: \<open>(x, y)\<close> can be reached from \<open>(0, 0)\<close> with \<open>d\<close> steps
  right or down and any number of steps along matching pairs. As in the search, steps
  right and down may leave the grid.
\<close>

inductive reach :: "('a \<Rightarrow> 'a \<Rightarrow> bool) \<Rightarrow> 'a list \<Rightarrow> 'a list \<Rightarrow> nat \<Rightarrow> int \<Rightarrow> int \<Rightarrow> bool"
  for cmp :: "'a \<Rightarrow> 'a \<Rightarrow> bool" and orig upd :: "'a list" where
  reach_start: "reach cmp orig upd 0 0 0"
| reach_right: "reach cmp orig upd d x y \<Longrightarrow> reach cmp orig upd (Suc d) (x + 1) y"
| reach_down: "reach cmp orig upd d x y \<Longrightarrow> reach cmp orig upd (Suc d) x (y + 1)"
| reach_diag: "reach cmp orig upd d x y \<Longrightarrow> x < int (length orig) \<Longrightarrow> y < int (length upd) \<Longrightarrow>
     cmp (orig ! nat x) (upd ! nat y) \<Longrightarrow> reach cmp orig upd d (x + 1) (y + 1)"

lemma reach_nonneg: "reach cmp orig upd d x y \<Longrightarrow> 0 \<le> x \<and> 0 \<le> y"
  by (induction rule: reach.induct) auto

lemma reach_upper:
  "reach cmp orig upd d x y \<Longrightarrow> x \<le> int (length orig) + int d \<and> y \<le> int (length upd) + int d"
  by (induction rule: reach.induct) auto

lemma reach_diagonal: "reach cmp orig upd d x y \<Longrightarrow> \<bar>x - y\<bar> \<le> int d"
  by (induction rule: reach.induct) auto

lemma reach_parity: "reach cmp orig upd d x y \<Longrightarrow> even (x - y - int d)"
  by (induction rule: reach.induct) (auto simp: algebra_simps)

text \<open>A path that has left the grid has spent a step for each unit it is outside.\<close>

lemma reach_clip:
  "reach cmp orig upd d x y \<Longrightarrow>
     \<exists>d'. reach cmp orig upd d' (min x (int (length orig))) (min y (int (length upd))) \<and>
       int d' + (x - min x (int (length orig))) + (y - min y (int (length upd))) \<le> int d"
proof (induction rule: reach.induct)
  case reach_start
  then show ?case by (auto intro!: exI [of _ 0] reach.reach_start)
next
  case (reach_right d x y)
  then obtain d' where d': "reach cmp orig upd d' (min x (int (length orig))) (min y (int (length upd)))"
    "int d' + (x - min x (int (length orig))) + (y - min y (int (length upd))) \<le> int d" by blast
  show ?case
  proof (cases "x < int (length orig)")
    case True
    with d' have "reach cmp orig upd (Suc d') (min (x + 1) (int (length orig))) (min y (int (length upd)))"
      using reach.reach_right by (fastforce simp: min_def)
    with d' True show ?thesis by (intro exI [of _ "Suc d'"]) auto
  next
    case False
    with d' show ?thesis by (intro exI [of _ d']) auto
  qed
next
  case (reach_down d x y)
  then obtain d' where d': "reach cmp orig upd d' (min x (int (length orig))) (min y (int (length upd)))"
    "int d' + (x - min x (int (length orig))) + (y - min y (int (length upd))) \<le> int d" by blast
  show ?case
  proof (cases "y < int (length upd)")
    case True
    with d' have "reach cmp orig upd (Suc d') (min x (int (length orig))) (min (y + 1) (int (length upd)))"
      using reach.reach_down by (fastforce simp: min_def)
    with d' True show ?thesis by (intro exI [of _ "Suc d'"]) auto
  next
    case False
    with d' show ?thesis by (intro exI [of _ d']) auto
  qed
next
  case (reach_diag d x y)
  then obtain d' where "reach cmp orig upd d' x y" "int d' \<le> int d" by auto
  with reach_diag.hyps have "reach cmp orig upd d' (x + 1) (y + 1)" by (intro reach.reach_diag)
  with reach_diag.hyps \<open>int d' \<le> int d\<close> show ?case by (intro exI [of _ d']) auto
qed

lemma reach_script:
  "script_from cmp orig upd i j ds i' j' \<Longrightarrow> reach cmp orig upd d (int i) (int j)
     \<Longrightarrow> reach cmp orig upd (d + edits ds) (int i') (int j')"
proof (induction ds arbitrary: i j d)
  case Nil
  then show ?case by simp
next
  case (Cons e ds)
  show ?case
  proof (cases "daction e")
    case EQ
    with Cons.prems have "reach cmp orig upd d (int (Suc i)) (int (Suc j))"
      using reach.reach_diag [of cmp orig upd d "int i" "int j"] by (auto simp: add.commute)
    with EQ Cons.prems show ?thesis by (auto dest!: Cons.IH)
  next
    case ADD
    from Cons.prems have "reach cmp orig upd (Suc d) (int i) (int (Suc j))"
      using reach.reach_down [of cmp orig upd d "int i" "int j"] by (simp add: add.commute)
    with ADD Cons.prems show ?thesis by (auto dest!: Cons.IH)
  next
    case DEL
    from Cons.prems have "reach cmp orig upd (Suc d) (int (Suc i)) (int j)"
      using reach.reach_right [of cmp orig upd d "int i" "int j"] by (simp add: add.commute)
    with DEL Cons.prems show ?thesis by (auto dest!: Cons.IH)
  qed
qed

lemma reach_cost_ge:
  "reach cmp orig upd d x y \<Longrightarrow>
     edit_dist cmp orig upd \<le> d + edit_dist cmp (drop (nat x) orig) (drop (nat y) upd)"
proof (induction rule: reach.induct)
  case reach_start
  then show ?case by simp
next
  case (reach_right d x y)
  with reach_nonneg [OF reach_right.hyps] show ?case
    using edit_dist_del [of cmp "drop (nat x) orig" "drop (nat y) upd"]
    by (simp add: nat_add_distrib drop_Suc tl_drop)
next
  case (reach_down d x y)
  with reach_nonneg [OF reach_down.hyps] show ?case
    using edit_dist_add [of cmp "drop (nat x) orig" "drop (nat y) upd"]
    by (simp add: nat_add_distrib drop_Suc tl_drop)
next
  case (reach_diag d x y)
  from reach_nonneg [OF reach_diag.hyps(1)] reach_diag.hyps(2-4)
  have "edit_dist cmp (drop (nat x) orig) (drop (nat y) upd)
      \<le> edit_dist cmp (drop (nat (x + 1)) orig) (drop (nat (y + 1)) upd)"
    using edit_dist_drop_keep [of "nat x" orig "nat y" upd cmp] by (simp add: nat_add_distrib nat_less_iff)
  with reach_diag.IH show ?case by simp
qed

text \<open>A cheapest script exists, so the end of the grid is reached at the least cost.\<close>

lemma cheapest_script:
  "i \<le> length orig \<Longrightarrow> j \<le> length upd \<Longrightarrow>
     \<exists>ds. script_from cmp orig upd i j ds (length orig) (length upd) \<and>
       edits ds = edit_dist cmp (drop i orig) (drop j upd)"
proof (induction "(length orig - i) + (length upd - j)" arbitrary: i j rule: less_induct)
  case less
  let ?add = "\<lparr>dval = upd ! j, dorig = - 1, dupdated = int j, daction = ADD\<rparr>"
  let ?del = "\<lparr>dval = orig ! i, dorig = int i, dupdated = - 1, daction = DEL\<rparr>"
  let ?eq = "\<lparr>dval = orig ! i, dorig = int i, dupdated = int j, daction = EQ\<rparr>"
  have add: "\<exists>ds. script_from cmp orig upd i j ds (length orig) (length upd) \<and>
      edits ds = Suc (edit_dist cmp (drop i orig) (drop (Suc j) upd))" if b: "j < length upd"
  proof -
    have "(length orig - (i)) + (length upd - (Suc j)) < (length orig - i) + (length upd - j)"
      using b less.prems by arith
    from less.hyps [OF this] less.prems b
    obtain ds where "script_from cmp orig upd i (Suc j) ds (length orig) (length upd)"
      "edits ds = edit_dist cmp (drop i orig) (drop (Suc j) upd)" by auto
    with b show ?thesis by (intro exI [of _ "?add # ds"]) simp
  qed
  have del: "\<exists>ds. script_from cmp orig upd i j ds (length orig) (length upd) \<and>
      edits ds = Suc (edit_dist cmp (drop (Suc i) orig) (drop j upd))" if b: "i < length orig"
  proof -
    have "(length orig - (Suc i)) + (length upd - (j)) < (length orig - i) + (length upd - j)"
      using b less.prems by arith
    from less.hyps [OF this] less.prems b
    obtain ds where "script_from cmp orig upd (Suc i) j ds (length orig) (length upd)"
      "edits ds = edit_dist cmp (drop (Suc i) orig) (drop j upd)" by auto
    with b show ?thesis by (intro exI [of _ "?del # ds"]) simp
  qed
  have keep: "\<exists>ds. script_from cmp orig upd i j ds (length orig) (length upd) \<and>
      edits ds = edit_dist cmp (drop (Suc i) orig) (drop (Suc j) upd)"
    if b: "i < length orig" "j < length upd" "cmp (orig ! i) (upd ! j)"
  proof -
    have "(length orig - (Suc i)) + (length upd - (Suc j)) < (length orig - i) + (length upd - j)"
      using b less.prems by arith
    from less.hyps [OF this] less.prems b
    obtain ds where "script_from cmp orig upd (Suc i) (Suc j) ds (length orig) (length upd)"
      "edits ds = edit_dist cmp (drop (Suc i) orig) (drop (Suc j) upd)" by auto
    with b show ?thesis by (intro exI [of _ "?eq # ds"]) simp
  qed
  show ?case
  proof (cases "i < length orig \<and> j < length upd")
    case True
    then have split: "drop i orig = orig ! i # drop (Suc i) orig" "drop j upd = upd ! j # drop (Suc j) upd"
      by (simp_all add: Cons_nth_drop_Suc)
    then have "edit_dist cmp (drop i orig) (drop j upd) = Suc (edit_dist cmp (drop i orig) (drop (Suc j) upd))
      \<or> edit_dist cmp (drop i orig) (drop j upd) = Suc (edit_dist cmp (drop (Suc i) orig) (drop j upd))
      \<or> cmp (orig ! i) (upd ! j) \<and>
        edit_dist cmp (drop i orig) (drop j upd) = edit_dist cmp (drop (Suc i) orig) (drop (Suc j) upd)"
      by (auto simp: Let_def min_def)
    with add del keep True show ?thesis by metis
  next
    case False
    with less.prems consider "i = length orig" "j = length upd" | "i = length orig" "j < length upd"
      | "i < length orig" "j = length upd" by linarith
    then show ?thesis
      using add del by cases (auto intro!: exI [of _ "[]"] simp: Suc_diff_Suc)
  qed
qed

lemma reach_edit_dist: "reach cmp orig upd (edit_dist cmp orig upd) (int (length orig)) (int (length upd))"
proof -
  obtain ds where "script_from cmp orig upd 0 0 ds (length orig) (length upd)" "edits ds = edit_dist cmp orig upd"
    using cheapest_script [of 0 orig 0 upd cmp] by auto
  with reach_script [of cmp orig upd 0 0 ds "length orig" "length upd" 0] show ?thesis
    by (simp add: reach_start)
qed

text \<open>A path past the far corner costs at least the distance, and more than it if it overshoots.\<close>

lemma reach_corner:
  assumes "reach cmp orig upd d x y" and "int (length orig) \<le> x" and "int (length upd) \<le> y"
  shows "edit_dist cmp orig upd \<le> d"
    and "d = edit_dist cmp orig upd \<Longrightarrow> x = int (length orig) \<and> y = int (length upd)"
proof -
  from reach_clip [OF assms(1)] assms(2,3) obtain d' where
    d': "reach cmp orig upd d' (int (length orig)) (int (length upd))"
    "int d' + (x - int (length orig)) + (y - int (length upd)) \<le> int d" by auto
  from reach_cost_ge [OF d'(1)] have "edit_dist cmp orig upd \<le> d'" by simp
  with d'(2) assms(2,3) show "edit_dist cmp orig upd \<le> d"
    and "d = edit_dist cmp orig upd \<Longrightarrow> x = int (length orig) \<and> y = int (length upd)"
    by linarith+
qed

section \<open>What a client asks of a differ\<close>

text \<open>
  The interface between the search and the message generators: for sequences of at most
  \<open>capacity\<close> elements in total, the differ returns a valid script of least cost. The
  capacity is below the range of \<open>IndexT\<close>.
\<close>

locale diff_engine =
  fixes differ :: "'a list \<Rightarrow> 'a list \<Rightarrow> 'a Diff list run"
    and capacity :: nat
  assumes differ_returns: "length a + length b \<le> capacity \<Longrightarrow>
      \<exists>ds. differ a b = returns ds \<and> valid_script (=) a b ds \<and> edits ds = edit_dist (=) a b"
    and capacity_bound: "capacity \<le> 32766"

end
