(* ===== verification/Diff_Msg.thy ===== *)
theory Diff_Msg
  imports Edit_Script
begin

text \<open>
  The message generators of \<open>cppkg/diff/msg.cc\<close> and the line format of
  \<open>cppkg/diff/format.h\<close>. An output stream is the string written to it so far. The trimming
  function of the third-party package \<open>cisab\<close> is a parameter. The batched diff takes the
  differ it calls as a parameter too, so that what it needs of \<open>myers_diff\<close> is stated as an
  interface, the locale \<open>diff_engine\<close>.
\<close>

section \<open>The code\<close>

subsection \<open>Lines\<close>

abbreviation tab :: char where "tab \<equiv> CHR 0x09"
abbreviation newline :: char where "newline \<equiv> CHR 0x0A"

definition add_token :: char where "add_token = CHR ''+''"
definition del_token :: char where "del_token = CHR ''-''"

definition diff_line_format :: "string \<Rightarrow> string \<Rightarrow> Action \<Rightarrow> int \<Rightarrow> int \<Rightarrow> string" where
  "diff_line_format out val action orig updated =
     out @ (case action of
              EQ \<Rightarrow> ''  '' @ show_int orig @ [tab] @ show_int updated
            | ADD \<Rightarrow> [add_token] @ ''  '' @ [tab] @ show_int updated
            | DEL \<Rightarrow> [del_token] @ '' '' @ show_int orig @ [tab] @ '' '')
     @ [tab] @ val @ [newline]"

subsection \<open>The message of an edit list\<close>

definition lines_before :: int where "lines_before = 3"
definition lines_after :: int where "lines_after = 3"

text \<open>\<open>std::memset(show + begin, true, len)\<close>.\<close>

definition memset_true :: "bool list \<Rightarrow> nat \<Rightarrow> nat \<Rightarrow> bool list" where
  "memset_true show begin len = take begin show @ replicate len True @ drop (begin + len) show"

definition mark_line :: "string Diff list \<Rightarrow> int \<Rightarrow> nat \<Rightarrow> bool list \<Rightarrow> bool list" where
  "mark_line diffs ndiffs i show =
     (if daction (diffs ! i) \<noteq> EQ
      then let begin = max 0 (int i - lines_before);
               last = min (ndiffs - 1) (int i + lines_after)
           in memset_true show (nat begin) (nat (last - begin + 1))
      else show)"

text \<open>
  The second loop of \<open>to_string\<close>, over the entries and their marks; \<open>oidx\<close> and \<open>uidx\<close>
  count the elements of the two sides passed so far.
\<close>

fun print_lines :: "(string Diff \<times> bool) list \<Rightarrow> nat \<Rightarrow> nat \<Rightarrow> string \<Rightarrow> string" where
  "print_lines [] oidx uidx out = out"
| "print_lines ((d, shown) # rest) oidx uidx out =
     (let out' = (if shown then diff_line_format out (dval d) (daction d) (int oidx) (int uidx) else out)
      in case daction d of
           EQ \<Rightarrow> print_lines rest (Suc oidx) (Suc uidx) out'
         | ADD \<Rightarrow> print_lines rest oidx (Suc uidx) out'
         | DEL \<Rightarrow> print_lines rest (Suc oidx) uidx out')"

text \<open>An array \<open>bool show[ndiffs]\<close> of negative length is undefined.\<close>

definition to_string :: "string Diff list \<Rightarrow> string res" where
  "to_string diffs =
     (let ndiffs = ilen diffs in
      if ndiffs < 0 then Inl Undefined
      else let n = nat ndiffs;
               show = fold (mark_line diffs ndiffs) [0..<n] (replicate n False)
           in Inr (print_lines (zip (take n diffs) show) 0 0 []))"

subsection \<open>Batches\<close>

text \<open>
  The scan for the last kept line of a batch: where the part of the batch to report ends,
  and the offsets at which the next batch starts.
\<close>

definition last_kept :: "'a Diff list \<Rightarrow> int \<Rightarrow> int \<Rightarrow> int \<times> int \<times> int" where
  "last_kept mdiffs eoffset goffset =
     fold (\<lambda>i (diff_end, eo, go).
             if daction (mdiffs ! i) = EQ
             then (int i + 1, i16 (dorig (mdiffs ! i) + 1), i16 (dupdated (mdiffs ! i) + 1))
             else (diff_end, eo, go))
          [0..<nat (ilen mdiffs)] (ilen mdiffs, eoffset, goffset)"

partial_function (option) safe_diff_msg_helper ::
  "('a list \<Rightarrow> 'a list \<Rightarrow> 'a Diff list run) \<Rightarrow> nat \<Rightarrow> 'a Diff list \<Rightarrow> 'a list \<Rightarrow> 'a list
     \<Rightarrow> 'a Diff list run" where
  [code]: "safe_diff_msg_helper differ batch_limit diffs expect got =
     (if length expect \<le> batch_limit \<and> length got \<le> batch_limit
      then case differ expect got of
             None \<Rightarrow> None
           | Some (Inl e) \<Rightarrow> fails e
           | Some (Inr mdiffs) \<Rightarrow> returns (diffs @ take (nat (ilen mdiffs)) mdiffs)
      else let esize = min batch_limit (length expect);
               gsize = min batch_limit (length got)
           in case differ (take esize expect) (take gsize got) of
                None \<Rightarrow> None
              | Some (Inl e) \<Rightarrow> fails e
              | Some (Inr mdiffs) \<Rightarrow>
                  (case last_kept mdiffs (i16 (int esize)) (i16 (int gsize)) of
                     (diff_end, eoffset, goffset) \<Rightarrow>
                       if 0 \<le> eoffset \<and> eoffset \<le> int (length expect) \<and>
                          0 \<le> goffset \<and> goffset \<le> int (length got)
                       then safe_diff_msg_helper differ batch_limit
                              (diffs @ take (nat diff_end) mdiffs)
                              (drop (nat eoffset) expect) (drop (nat goffset) got)
                       else fails Undefined))"

subsection \<open>Entry points\<close>

definition diff_msg :: "string list \<Rightarrow> string list \<Rightarrow> string run" where
  "diff_msg expect got = bind_run (myers_diff (=) expect got) (\<lambda>diffs. Some (to_string diffs))"

definition safe_diff_msg :: "string list \<Rightarrow> string list \<Rightarrow> nat \<Rightarrow> string run" where
  "safe_diff_msg expect got batch_limit =
     bind_run (safe_diff_msg_helper (myers_diff (=)) batch_limit [] expect got)
       (\<lambda>diff. Some (to_string diff))"

text \<open>The default of \<open>batch_limit\<close>, \<open>std::numeric_limits<IndexT>::max()\<close>.\<close>

definition default_batch_limit :: nat where
  "default_batch_limit = 32767"

text \<open>
  The lines that a \<open>std::getline\<close> loop reads off a stream: the text between newlines, and
  what follows the last newline if anything does. \<open>line\<close> is what was read of the current line.
\<close>

fun get_lines :: "string \<Rightarrow> string \<Rightarrow> string list" where
  "get_lines line [] = (if line = [] then [] else [line])"
| "get_lines line (c # cs) =
     (if c = newline then line # get_lines [] cs else get_lines (line @ [c]) cs)"

definition process_lines ::
  "(string \<Rightarrow> string) \<Rightarrow> string list \<Rightarrow> string \<Rightarrow> bool \<Rightarrow> bool \<Rightarrow> string list" where
  "process_lines trim lines str ignore_empty_lines trim_spaces =
     fold (\<lambda>line lines.
             let line' = (if trim_spaces then trim line else line)
             in if ignore_empty_lines = False \<or> 0 < length line' then lines @ [line'] else lines)
       (get_lines [] str) lines"

definition diff_lines ::
  "(string \<Rightarrow> string) \<Rightarrow> string \<Rightarrow> string \<Rightarrow> bool \<Rightarrow> bool \<Rightarrow> string run" where
  "diff_lines trim expect got ignore_empty_lines trim_spaces =
     safe_diff_msg (process_lines trim [] expect ignore_empty_lines trim_spaces)
       (process_lines trim [] got ignore_empty_lines trim_spaces) default_batch_limit"

text \<open>The default arguments.\<close>

definition diff_lines_default :: "(string \<Rightarrow> string) \<Rightarrow> string \<Rightarrow> string \<Rightarrow> string run" where
  "diff_lines_default trim expect got = diff_lines trim expect got True True"

section \<open>What a message shows\<close>

text \<open>The reference: the lines within three entries of an edit, numbered by their prefix.\<close>

definition near_edit :: "'a Diff list \<Rightarrow> nat \<Rightarrow> bool" where
  "near_edit ds i \<longleftrightarrow> (\<exists>j < length ds. daction (ds ! j) \<noteq> EQ \<and> i \<le> j + 3 \<and> j \<le> i + 3)"

definition numbered_line :: "string Diff list \<Rightarrow> nat \<Rightarrow> string" where
  "numbered_line ds i =
     diff_line_format [] (dval (ds ! i)) (daction (ds ! i))
       (int (length (orig_side (take i ds)))) (int (length (upd_side (take i ds))))"

lemma length_memset_true: "begin + len \<le> length s \<Longrightarrow> length (memset_true s begin len) = length s"
  by (simp add: memset_true_def)

lemma nth_memset_true:
  assumes "begin + len \<le> length s" "i < length s"
  shows "memset_true s begin len ! i \<longleftrightarrow> s ! i \<or> begin \<le> i \<and> i < begin + len"
proof -
  consider "i < begin" | "begin \<le> i" "i < begin + len" | "begin + len \<le> i" by linarith
  then show ?thesis
    using assms by cases (auto simp: memset_true_def nth_append min_def)
qed

lemma mark_line_correct:
  assumes "i < n" "length s = n"
  shows "length (mark_line ds (int n) i s) = n"
    and "l < n \<Longrightarrow> mark_line ds (int n) i s ! l \<longleftrightarrow>
      s ! l \<or> daction (ds ! i) \<noteq> EQ \<and> l \<le> i + 3 \<and> i \<le> l + 3"
proof -
  define b where "b = nat (max 0 (int i - lines_before))"
  define len where "len = nat (min (int n - 1) (int i + lines_after) - max 0 (int i - lines_before) + 1)"
  have m: "mark_line ds (int n) i s = (if daction (ds ! i) \<noteq> EQ then memset_true s b len else s)"
    by (simp add: mark_line_def Let_def b_def len_def)
  have fit: "b + len \<le> length s"
    using assms by (simp add: b_def len_def lines_before_def lines_after_def)
  with assms(2) show "length (mark_line ds (int n) i s) = n"
    by (simp add: m length_memset_true)
  show "mark_line ds (int n) i s ! l \<longleftrightarrow> s ! l \<or> daction (ds ! i) \<noteq> EQ \<and> l \<le> i + 3 \<and> i \<le> l + 3"
    if "l < n"
  proof -
    have "b \<le> l \<and> l < b + len \<longleftrightarrow> l \<le> i + 3 \<and> i \<le> l + 3"
      using assms(1) that by (simp add: b_def len_def lines_before_def lines_after_def) linarith
    with nth_memset_true [OF fit] that assms(2) m show ?thesis by auto
  qed
qed

lemma marks_correct:
  assumes "m \<le> n"
  shows "length (fold (mark_line ds (int n)) [0..<m] (replicate n False)) = n \<and>
    (\<forall>l < n. fold (mark_line ds (int n)) [0..<m] (replicate n False) ! l \<longleftrightarrow>
      (\<exists>j < m. daction (ds ! j) \<noteq> EQ \<and> l \<le> j + 3 \<and> j \<le> l + 3))"
  using assms
proof (induction m)
  case 0
  then show ?case by simp
next
  case (Suc m)
  let ?s = "fold (mark_line ds (int n)) [0..<m] (replicate n False)"
  from Suc have IH: "length ?s = n"
    "\<forall>l < n. ?s ! l \<longleftrightarrow> (\<exists>j < m. daction (ds ! j) \<noteq> EQ \<and> l \<le> j + 3 \<and> j \<le> l + 3)"
    by simp_all
  with Suc.prems mark_line_correct [of m n ?s] show ?case
    by (auto simp: less_Suc_eq)
qed

text \<open>The numbering of the printing loop: a starting count and the length of the prefix.\<close>

definition line_from :: "nat \<Rightarrow> nat \<Rightarrow> string Diff list \<Rightarrow> nat \<Rightarrow> string" where
  "line_from oidx uidx ds i =
     diff_line_format [] (dval (ds ! i)) (daction (ds ! i))
       (int (oidx + length (orig_side (take i ds)))) (int (uidx + length (upd_side (take i ds))))"

lemma line_from_Cons:
  "line_from oidx uidx (d # ds) (Suc i) =
     line_from (oidx + (if daction d = ADD then 0 else 1)) (uidx + (if daction d = DEL then 0 else 1)) ds i"
  by (simp add: line_from_def ac_simps)

lemma diff_line_format_out:
  "diff_line_format out v a x y = out @ diff_line_format [] v a x y"
  by (simp add: diff_line_format_def)

lemma print_lines_eq:
  "length marks = length ds \<Longrightarrow>
     print_lines (zip ds marks) oidx uidx out =
       out @ concat (map (\<lambda>i. if marks ! i then line_from oidx uidx ds i else []) [0..<length ds])"
proof (induction ds arbitrary: marks oidx uidx out)
  case Nil
  then show ?case by simp
next
  case (Cons d ds)
  from Cons.prems obtain b marks' where s: "marks = b # marks'" "length marks' = length ds"
    by (cases "marks") auto
  let ?line = "\<lambda>i. if (b # marks') ! i then line_from oidx uidx (d # ds) i else []"
  have "[0..<length (d # ds)] = 0 # map Suc [0..<length ds]"
    by (simp add: upt_conv_Cons map_Suc_upt del: upt_Suc)
  then have rest: "concat (map ?line [0..<length (d # ds)]) =
      ?line 0 @ concat (map (\<lambda>i. if marks' ! i then line_from oidx uidx (d # ds) (Suc i) else []) [0..<length ds])"
    by (simp add: comp_def del: upt_Suc)
  have first: "(if b then diff_line_format out (dval d) (daction d) (int oidx) (int uidx) else out) =
      out @ ?line 0"
    by (simp add: line_from_def diff_line_format_def)
  show ?case
    unfolding s(1) rest zip_Cons_Cons print_lines.simps Let_def first
    using Cons.IH [OF s(2)]
    by (cases "daction d") (simp_all add: line_from_Cons cong: if_cong)
qed

lemma concat_map_if:
  "concat (map (\<lambda>i. if P i then f i else []) xs) = concat (map f (filter P xs))"
  by (induction xs) simp_all

lemma to_string_eq:
  assumes "length ds \<le> 32767"
  shows "to_string ds = Inr (concat (map (numbered_line ds) (filter (near_edit ds) [0..<length ds])))"
proof -
  let ?n = "length ds"
  let ?show = "fold (mark_line ds (int ?n)) [0..<?n] (replicate ?n False)"
  from marks_correct [of ?n ?n] have marks: "length ?show = ?n" "\<forall>l < ?n. ?show ! l \<longleftrightarrow> near_edit ds l"
    by (auto simp: near_edit_def)
  have "to_string ds = Inr (print_lines (zip ds ?show) 0 0 [])"
    using assms by (simp add: to_string_def ilen_id Let_def)
  also have "print_lines (zip ds ?show) 0 0 [] =
      concat (map (\<lambda>i. if ?show ! i then line_from 0 0 ds i else []) [0..<?n])"
    using print_lines_eq [OF marks(1), of 0 0 "[]"] by simp
  also have "\<dots> = concat (map (\<lambda>i. if near_edit ds i then numbered_line ds i else []) [0..<?n])"
    using marks(2) by (intro arg_cong [of _ _ concat] map_cong) (auto simp: line_from_def numbered_line_def)
  finally show ?thesis by (simp add: concat_map_if)
qed

lemma numbered_line_nonempty: "numbered_line ds i \<noteq> []"
  by (simp add: numbered_line_def diff_line_format_def)

lemma to_string_empty:
  assumes "length ds \<le> 32767"
  shows "\<exists>s. to_string ds = Inr s \<and> (s = [] \<longleftrightarrow> edits ds = 0)"
proof -
  have "(\<forall>i < length ds. \<not> near_edit ds i) \<longleftrightarrow> edits ds = 0"
    unfolding edits_zero_iff all_set_conv_all_nth near_edit_def by fastforce
  then show ?thesis
    unfolding to_string_eq [OF assms] by (auto simp: numbered_line_nonempty)
qed

text \<open>For a valid script the numbers printed are the indices the script records.\<close>

lemma script_prefix_counts:
  "script_from cmp orig upd i j ds i' j' \<Longrightarrow> l < length ds \<Longrightarrow>
     (daction (ds ! l) \<noteq> ADD \<longrightarrow> dorig (ds ! l) = int (i + length (orig_side (take l ds)))) \<and>
     (daction (ds ! l) \<noteq> DEL \<longrightarrow> dupdated (ds ! l) = int (j + length (upd_side (take l ds))))"
proof (induction ds arbitrary: i j l)
  case Nil
  then show ?case by simp
next
  case (Cons d ds)
  show ?case
  proof (cases l)
    case 0
    with Cons.prems show ?thesis by (cases d; cases "daction d") auto
  next
    case (Suc l')
    with Cons show ?thesis by (cases "daction d") fastforce+
  qed
qed

end
