(* ===== verification/Myers_Search.thy ===== *)
theory Myers_Search
  imports Edit_Script
begin

text \<open>
  The search of \<open>myers_diff_trace\<close> and \<open>myers_diff_min_edit\<close> is correct: after the loop
  over the diagonals for \<open>d\<close> edits, the vector holds the furthest point of every diagonal
  that \<open>d\<close> edits reach, and the search stops at the edit distance. The sizes are those
  for which no \<open>IndexT\<close> value wraps around.
\<close>

definition fits :: "'a list \<Rightarrow> 'a list \<Rightarrow> bool" where
  "fits orig upd \<longleftrightarrow>
     2 * length orig + length upd \<le> 32767 \<and> length orig + 2 * length upd \<le> 32767"

lemma fits_ilen:
  "fits orig upd \<Longrightarrow> ilen orig = int (length orig) \<and> ilen upd = int (length upd)"
  by (simp add: fits_def ilen_id)

section \<open>Runs along a diagonal\<close>

definition matching :: "('a \<Rightarrow> 'a \<Rightarrow> bool) \<Rightarrow> 'a list \<Rightarrow> 'a list \<Rightarrow> int \<Rightarrow> int \<Rightarrow> bool" where
  "matching cmp orig upd x y \<longleftrightarrow>
     x < int (length orig) \<and> y < int (length upd) \<and> cmp (orig ! nat x) (upd ! nat y)"

definition run_end :: "('a \<Rightarrow> 'a \<Rightarrow> bool) \<Rightarrow> 'a list \<Rightarrow> 'a list \<Rightarrow> int \<Rightarrow> int \<Rightarrow> int \<Rightarrow> bool" where
  "run_end cmp orig upd k s X \<longleftrightarrow>
     s \<le> X \<and> (\<forall>t. s \<le> t \<and> t < X \<longrightarrow> matching cmp orig upd t (t - k)) \<and>
     \<not> matching cmp orig upd X (X - k)"

lemma run_end_here: "\<not> matching cmp orig upd s (s - k) \<Longrightarrow> run_end cmp orig upd k s s"
  by (auto simp: run_end_def)

lemma run_end_next:
  assumes "matching cmp orig upd s (s - k)" and "run_end cmp orig upd k (s + 1) X"
  shows "run_end cmp orig upd k s X"
proof -
  have "matching cmp orig upd t (t - k)" if "s \<le> t" "t < X" for t
    using that assms by (cases "t = s") (auto simp: run_end_def)
  with assms(2) show ?thesis by (auto simp: run_end_def)
qed

lemma snake_run:
  assumes "length orig \<le> 32767" "length upd \<le> 32767" "0 \<le> s" "0 \<le> s - k"
  shows "\<exists>X. snake cmp orig upd s (s - k) = Inr (X, X - k) \<and> run_end cmp orig upd k s X"
  using assms(3,4)
proof (induction "nat (int (length orig) - s)" arbitrary: s rule: less_induct)
  case less
  note n = ilen_id [OF assms(1)] and m = ilen_id [OF assms(2)]
  show ?case
  proof (cases "matching cmp orig upd s (s - k)")
    case True
    then have step: "snake cmp orig upd s (s - k) = snake cmp orig upd (s + 1) ((s + 1) - k)"
      using less.prems n m by (subst snake.simps) (simp add: matching_def algebra_simps)
    have "nat (int (length orig) - (s + 1)) < nat (int (length orig) - s)"
      using True by (simp add: matching_def)
    from less.hyps [OF this] less.prems obtain X where
      "snake cmp orig upd (s + 1) ((s + 1) - k) = Inr (X, X - k)" "run_end cmp orig upd k (s + 1) X"
      by auto
    with step True show ?thesis by (auto intro: run_end_next)
  next
    case False
    then have "snake cmp orig upd s (s - k) = Inr (s, s - k)"
      using less.prems n m by (subst snake.simps) (auto simp: matching_def)
    with False show ?thesis by (auto intro: run_end_here)
  qed
qed

lemma reach_along_run:
  assumes "reach cmp orig upd d s (s - k)" "run_end cmp orig upd k s X" "s \<le> t" "t \<le> X"
  shows "reach cmp orig upd d t (t - k)"
  using assms(3,4)
proof (induction t rule: int_ge_induct)
  case base
  then show ?case using assms(1) by simp
next
  case (step t)
  then have "matching cmp orig upd t (t - k)" "reach cmp orig upd d t (t - k)"
    using assms(2) by (auto simp: run_end_def)
  then show ?case
    using reach_diag [of cmp orig upd d t "t - k"] by (simp add: matching_def algebra_simps)
qed

section \<open>Furthest points\<close>

definition furthest :: "('a \<Rightarrow> 'a \<Rightarrow> bool) \<Rightarrow> 'a list \<Rightarrow> 'a list \<Rightarrow> nat \<Rightarrow> int \<Rightarrow> int \<Rightarrow> bool" where
  "furthest cmp orig upd d k x \<longleftrightarrow>
     reach cmp orig upd d x (x - k) \<and> (\<forall>x'. reach cmp orig upd d x' (x' - k) \<longrightarrow> x' \<le> x)"

lemma furthest_unique:
  "furthest cmp orig upd d k x \<Longrightarrow> furthest cmp orig upd d k x' \<Longrightarrow> x = x'"
  by (meson furthest_def order_antisym)

text \<open>
  No path to diagonal \<open>k\<close> gets past the end of a run that starts at or beyond every way
  of stepping onto the diagonal.
\<close>

lemma run_bounds_reach:
  assumes run: "run_end cmp orig upd k s X"
    and reach: "reach cmp orig upd d x y" "x - y = k"
    and start: "d = 0 \<Longrightarrow> k = 0 \<Longrightarrow> 0 \<le> s"
    and right: "\<And>e x y. d = Suc e \<Longrightarrow> x - y = k - 1 \<Longrightarrow> reach cmp orig upd e x y \<Longrightarrow> x + 1 \<le> s"
    and down: "\<And>e x y. d = Suc e \<Longrightarrow> x - y = k + 1 \<Longrightarrow> reach cmp orig upd e x y \<Longrightarrow> x \<le> s"
  shows "x \<le> X"
  using reach start right down
proof (induction rule: reach.induct)
  case reach_start
  then show ?case using run by (auto simp: run_end_def)
next
  case (reach_right d x y)
  then have "x + 1 \<le> s" by (intro reach_right.prems(3) [of d x y]) auto
  with run show ?case by (auto simp: run_end_def)
next
  case (reach_down d x y)
  then have "x \<le> s" by (intro reach_down.prems(4) [of d x y]) auto
  with run show ?case by (auto simp: run_end_def)
next
  case (reach_diag d x y)
  then have "x \<le> X" and "matching cmp orig upd x (x - k)" by (auto simp: matching_def)
  with run show ?case by (cases "x = X") (auto simp: run_end_def)
qed

lemma furthest_first:
  assumes "run_end cmp orig upd 0 0 X"
  shows "furthest cmp orig upd 0 0 X"
  unfolding furthest_def
proof (intro conjI allI impI)
  show "reach cmp orig upd 0 X (X - 0)"
    using reach_along_run [of cmp orig upd 0 0 0 X X] assms by (auto simp: reach_start run_end_def)
  show "x' \<le> X" if "reach cmp orig upd 0 x' (x' - 0)" for x'
    using run_bounds_reach [OF assms that] by simp
qed

text \<open>
  The step of the search. \<open>a\<close> and \<open>b\<close> are the furthest points of the two neighbouring
  diagonals, where these exist, and \<open>s\<close> is the start that the code picks.
\<close>

lemma start_reach:
  assumes a: "k \<noteq> - int (Suc e) \<Longrightarrow> furthest cmp orig upd e (k - 1) a"
    and b: "k \<noteq> int (Suc e) \<Longrightarrow> furthest cmp orig upd e (k + 1) b"
    and s: "s = (if k = - int (Suc e) \<or> (k \<noteq> int (Suc e) \<and> a < b) then b else a + 1)"
  shows "reach cmp orig upd (Suc e) s (s - k)"
proof (cases "k = - int (Suc e) \<or> (k \<noteq> int (Suc e) \<and> a < b)")
  case True
  with b have "reach cmp orig upd e b (b - (k + 1))" by (auto simp: furthest_def)
  from reach_down [OF this] True s show ?thesis by (simp add: algebra_simps)
next
  case False
  with a have "reach cmp orig upd e a (a - (k - 1))" by (auto simp: furthest_def)
  from reach_right [OF this] False s show ?thesis by (auto simp: algebra_simps)
qed

lemma furthest_step:
  assumes a: "k \<noteq> - int (Suc e) \<Longrightarrow> furthest cmp orig upd e (k - 1) a"
    and b: "k \<noteq> int (Suc e) \<Longrightarrow> furthest cmp orig upd e (k + 1) b"
    and s: "s = (if k = - int (Suc e) \<or> (k \<noteq> int (Suc e) \<and> a < b) then b else a + 1)"
    and run: "run_end cmp orig upd k s X"
  shows "furthest cmp orig upd (Suc e) k X"
proof -
  have right: "x + 1 \<le> s" if "x - y = k - 1" "reach cmp orig upd e x y" for x y
  proof -
    from reach_diagonal [OF that(2)] that(1) have "k \<noteq> - int (Suc e)" by auto
    with a that have "x \<le> a" by (auto simp: furthest_def algebra_simps)
    with s \<open>k \<noteq> - int (Suc e)\<close> show ?thesis by auto
  qed
  have down: "x \<le> s" if "x - y = k + 1" "reach cmp orig upd e x y" for x y
  proof -
    from reach_diagonal [OF that(2)] that(1) have "k \<noteq> int (Suc e)" by auto
    with b that have "x \<le> b" by (auto simp: furthest_def algebra_simps)
    with s \<open>k \<noteq> int (Suc e)\<close> show ?thesis by auto
  qed
  show ?thesis
    unfolding furthest_def
  proof (intro conjI allI impI)
    show "reach cmp orig upd (Suc e) X (X - k)"
      using reach_along_run [OF start_reach [OF a b s] run] run by (auto simp: run_end_def)
    show "x' \<le> X" if "reach cmp orig upd (Suc e) x' (x' - k)" for x'
      using run_bounds_reach [OF run that] right down by simp
  qed
qed

section \<open>The vector\<close>

definition cost_at :: "int list \<Rightarrow> int \<Rightarrow> int" where
  "cost_at costs k = costs ! cost_index (length costs) k"

lemma cost_index_mod:
  assumes "\<bar>k\<bar> \<le> int M + 1" "M \<le> 65535" "ncost = 2 * M + 1"
  shows "cost_index ncost k = nat (k mod int ncost)"
proof -
  have "u64 (int ncost + k) = nat (int ncost + k)"
    using assms by (intro u64_id) auto
  moreover have "nat (int ncost + k) mod ncost = nat ((int ncost + k) mod int ncost)"
    using assms by (subst nat_mod_distrib) (auto simp: nat_add_distrib nat_mult_distrib)
  ultimately show ?thesis by (simp add: cost_index_def)
qed

lemma cost_index_less: "0 < ncost \<Longrightarrow> cost_index ncost k < ncost"
  by (simp add: cost_index_def)

lemma cost_index_inj:
  assumes "cost_index ncost j = cost_index ncost k" "\<bar>j\<bar> \<le> int M" "\<bar>k\<bar> \<le> int M"
    and "M \<le> 65535" "ncost = 2 * M + 1"
  shows "j = k"
proof -
  from assms have "nat (j mod int ncost) = nat (k mod int ncost)"
    by (simp add: cost_index_mod [of _ M])
  then have "j mod int ncost = k mod int ncost"
    using assms(5) by (simp add: eq_nat_nat_iff)
  then have "int ncost dvd j - k" by (simp add: mod_eq_dvd_iff)
  moreover have "\<bar>j - k\<bar> < int ncost" using assms(2,3,5) by linarith
  ultimately show ?thesis using dvd_imp_le_int [of "j - k" "int ncost"] by fastforce
qed

text \<open>
  The vector before the loop over the diagonals of \<open>d\<close> edits: \<open>ncost\<close> elements, of which
  those that the loop reads are the furthest points of one edit less; with no edits it
  reads the element of diagonal 1, which is 0.
\<close>

definition row_before :: "('a \<Rightarrow> 'a \<Rightarrow> bool) \<Rightarrow> 'a list \<Rightarrow> 'a list \<Rightarrow> nat \<Rightarrow> int list \<Rightarrow> bool" where
  "row_before cmp orig upd d costs \<longleftrightarrow>
     length costs = 2 * (length orig + length upd) + 1 \<and>
     (case d of
        0 \<Rightarrow> cost_at costs 1 = 0
      | Suc e \<Rightarrow> \<forall>j. \<bar>j\<bar> \<le> int e \<and> even (j - int e) \<longrightarrow> furthest cmp orig upd e j (cost_at costs j))"

lemma row_before_0: "row_before cmp orig upd 0 (replicate (2 * (length orig + length upd) + 1) 0)"
  by (simp add: row_before_def cost_at_def cost_index_less del: replicate_Suc)

text \<open>The two neighbours of a diagonal, and the start the code picks between them.\<close>

lemma row_before_neighbours:
  assumes "row_before cmp orig upd (Suc e) costs" "\<bar>k\<bar> \<le> int (Suc e)" "even (k - int (Suc e))"
  shows "k \<noteq> - int (Suc e) \<Longrightarrow> furthest cmp orig upd e (k - 1) (cost_at costs (k - 1))"
    and "k \<noteq> int (Suc e) \<Longrightarrow> furthest cmp orig upd e (k + 1) (cost_at costs (k + 1))"
proof -
  have e: "even (k - 1 - int e)" "even (k + 1 - int e)"
    using assms(3) by (simp_all add: algebra_simps)
  have all: "\<And>j. \<bar>j\<bar> \<le> int e \<Longrightarrow> even (j - int e) \<Longrightarrow> furthest cmp orig upd e j (cost_at costs j)"
    using assms(1) by (simp add: row_before_def)
  show "furthest cmp orig upd e (k - 1) (cost_at costs (k - 1))" if "k \<noteq> - int (Suc e)"
  proof (rule all [OF _ e(1)])
    show "\<bar>k - 1\<bar> \<le> int e" using that assms(2,3) by presburger
  qed
  show "furthest cmp orig upd e (k + 1) (cost_at costs (k + 1))" if "k \<noteq> int (Suc e)"
  proof (rule all [OF _ e(2)])
    show "\<bar>k + 1\<bar> \<le> int e" using that assms(2,3) by presburger
  qed
qed

lemma diag_start_cost_at:
  "diag_start (length costs) iedit k costs =
     (if k = - iedit \<or> (k \<noteq> iedit \<and> cost_at costs (k - 1) < cost_at costs (k + 1))
      then cost_at costs (k + 1) else i16 (cost_at costs (k - 1) + 1))"
  by (simp add: diag_start_def cost_at_def Let_def)

lemma furthest_upper: "furthest cmp orig upd d k x \<Longrightarrow> x \<le> int (length orig) + int d"
  by (auto simp: furthest_def dest: reach_upper)

lemma diag_start_eq:
  assumes fits: "fits orig upd" and d: "d \<le> length orig + length upd"
    and row: "row_before cmp orig upd d costs" and k: "\<bar>k\<bar> \<le> int d" "even (k - int d)"
  defines "s \<equiv> diag_start (length costs) (int d) k costs"
  shows "reach cmp orig upd d s (s - k)"
    and "run_end cmp orig upd k s X \<Longrightarrow> furthest cmp orig upd d k X"
proof -
  have "reach cmp orig upd d s (s - k) \<and>
    (run_end cmp orig upd k s X \<longrightarrow> furthest cmp orig upd d k X)" for X
  proof (cases d)
    case 0
    with k have "k = 0" by simp
    moreover from row 0 have "cost_at costs 1 = 0" by (simp add: row_before_def)
    ultimately have "k = 0" "s = 0" using 0 by (simp_all add: s_def diag_start_cost_at)
    with 0 show ?thesis by (simp add: reach_start furthest_first)
  next
    case (Suc e)
    let ?a = "cost_at costs (k - 1)" and ?b = "cost_at costs (k + 1)"
    note nb = row_before_neighbours [OF row [unfolded Suc] k [unfolded Suc]]
    have "?a + 1 \<le> 32767 \<and> 0 \<le> ?a" if "k \<noteq> - int (Suc e)"
      using furthest_upper [OF nb(1) [OF that]] nb(1) [OF that] fits d Suc
      by (auto simp: fits_def furthest_def dest: reach_nonneg)
    then have s: "s = (if k = - int (Suc e) \<or> (k \<noteq> int (Suc e) \<and> ?a < ?b) then ?b else ?a + 1)"
      by (auto simp: s_def diag_start_cost_at Suc i16_id)
    have "furthest cmp orig upd (Suc e) k X" if "run_end cmp orig upd k s X"
      by (rule furthest_step [OF nb s that])
    with start_reach [OF nb s] Suc show ?thesis by simp
  qed
  then show "reach cmp orig upd d s (s - k)"
    and "run_end cmp orig upd k s X \<Longrightarrow> furthest cmp orig upd d k X" by blast+
qed

text \<open>What one pass of the inner loop computes.\<close>

lemma diagonal_pass:
  assumes fits: "fits orig upd" and d: "d \<le> length orig + length upd"
    and row: "row_before cmp orig upd d costs" and k: "\<bar>k\<bar> \<le> int d" "even (k - int d)"
  defines "s \<equiv> diag_start (length costs) (int d) k costs"
  shows "\<exists>X. snake cmp orig upd s (i16 (s - k)) = Inr (X, X - k) \<and>
    run_end cmp orig upd k s X \<and> furthest cmp orig upd d k X"
proof -
  note eq = diag_start_eq [OF fits d row k, folded s_def]
  from reach_nonneg [OF eq(1)] reach_upper [OF eq(1)] d fits
  have s: "0 \<le> s" "0 \<le> s - k" "s - k \<le> 32767" by (auto simp: fits_def)
  with fits obtain X where
    "snake cmp orig upd s (s - k) = Inr (X, X - k)" "run_end cmp orig upd k s X"
    using snake_run [of orig upd s k cmp] by (auto simp: fits_def)
  moreover from this have "furthest cmp orig upd d k X" by (intro eq(2))
  ultimately show ?thesis using s by (simp add: i16_id)
qed

end
