(* ===== verification/Myers_Trace.thy ===== *)
theory Myers_Trace
  imports Myers_Search
begin

text \<open>
  The loops of \<open>myers_diff_trace\<close> and \<open>myers_diff_min_edit\<close>: each pass over the diagonals
  turns the vector for \<open>d\<close> edits into the one for \<open>d + 1\<close>, the search ends at the edit
  distance, and the trace is the list of the vectors, flattened.
\<close>

section \<open>One edit count\<close>

lemma cost_at_update:
  assumes "\<bar>j\<bar> \<le> int M" "\<bar>k\<bar> \<le> int M" "M \<le> 65535" "length costs = 2 * M + 1"
  shows "cost_at (costs[cost_index (length costs) k := x]) j = (if j = k then x else cost_at costs j)"
proof (cases "j = k")
  case True
  with assms show ?thesis by (simp add: cost_at_def cost_index_less)
next
  case False
  with assms cost_index_inj [of "length costs" j k M]
  have "cost_index (length costs) j \<noteq> cost_index (length costs) k" by blast
  with False show ?thesis by (simp add: cost_at_def)
qed

text \<open>
  The vector in the loop, before diagonal \<open>k\<close>: it still serves the diagonals to come and
  holds the furthest points of those that are done.
\<close>

definition row_during :: "('a \<Rightarrow> 'a \<Rightarrow> bool) \<Rightarrow> 'a list \<Rightarrow> 'a list \<Rightarrow> nat \<Rightarrow> int \<Rightarrow> int list \<Rightarrow> bool" where
  "row_during cmp orig upd d k costs \<longleftrightarrow>
     length costs = 2 * (length orig + length upd) + 1 \<and>
     (k \<le> int d \<longrightarrow> row_before cmp orig upd d costs) \<and>
     (\<forall>j. \<bar>j\<bar> \<le> int d \<and> even (j - int d) \<and> j < k \<longrightarrow> furthest cmp orig upd d j (cost_at costs j))"

lemma row_during_start: "row_before cmp orig upd d costs \<Longrightarrow> row_during cmp orig upd d (- int d) costs"
  by (auto simp: row_during_def row_before_def)

lemma row_during_end:
  "row_during cmp orig upd d k costs \<Longrightarrow> int d < k \<Longrightarrow> row_before cmp orig upd (Suc d) costs"
  by (auto simp: row_during_def row_before_def)

lemma row_during_next:
  assumes row: "row_during cmp orig upd d k costs" and k: "\<bar>k\<bar> \<le> int d" "even (k - int d)"
    and d: "d \<le> length orig + length upd" "length orig + length upd \<le> 65535"
    and x: "furthest cmp orig upd d k x"
  shows "row_during cmp orig upd d (k + 2) (costs[cost_index (length costs) k := x])"
proof -
  let ?new = "costs[cost_index (length costs) k := x]"
  have len: "length costs = 2 * (length orig + length upd) + 1"
    using row by (simp add: row_during_def)
  have upd: "cost_at ?new j = (if j = k then x else cost_at costs j)"
    if "\<bar>j\<bar> \<le> int (length orig + length upd)" for j
    using that k d len by (intro cost_at_update) auto
  have old: "furthest cmp orig upd d j (cost_at ?new j)"
    if "\<bar>j\<bar> \<le> int d" "even (j - int d)" "j < k + 2" for j
  proof (cases "j = k")
    case True
    with x upd [of j] that d show ?thesis by simp
  next
    case False
    with that k(2) have "j < k" by presburger
    with row that False upd [of j] d show ?thesis by (simp add: row_during_def)
  qed
  have "row_before cmp orig upd d ?new" if "k + 2 \<le> int d"
  proof -
    from that k obtain e where e: "d = Suc e" by (cases d) auto
    from row that have "row_before cmp orig upd d costs" by (simp add: row_during_def)
    moreover have "cost_at ?new j = cost_at costs j" if "\<bar>j\<bar> \<le> int e" "even (j - int e)" for j
    proof -
      from that(2) k(2) e have "j \<noteq> k" by auto
      with upd [of j] that(1) d e show ?thesis by simp
    qed
    ultimately show ?thesis using e by (simp add: row_before_def)
  qed
  with old len show ?thesis by (simp add: row_during_def)
qed

lemma corner_not_yet:
  assumes "furthest cmp orig upd d k x" "d < edit_dist cmp orig upd"
  shows "x < int (length orig) \<or> x - k < int (length upd)"
  using reach_corner(1) [of cmp orig upd d x "x - k"] assms by (fastforce simp: furthest_def)

lemma corner_found:
  assumes "furthest cmp orig upd (edit_dist cmp orig upd) k x"
  shows "int (length orig) \<le> x \<and> int (length upd) \<le> x - k \<longleftrightarrow> k = int (length orig) - int (length upd)"
proof
  assume "int (length orig) \<le> x \<and> int (length upd) \<le> x - k"
  with reach_corner(2) [of cmp orig upd "edit_dist cmp orig upd" x "x - k"] assms
  show "k = int (length orig) - int (length upd)" by (auto simp: furthest_def)
next
  assume k: "k = int (length orig) - int (length upd)"
  with assms reach_edit_dist [of cmp orig upd] have "int (length orig) \<le> x"
    by (auto simp: furthest_def)
  with k show "int (length orig) \<le> x \<and> int (length upd) \<le> x - k" by simp
qed

text \<open>The diagonal of the far corner is among those the search visits.\<close>

lemma corner_diagonal:
  "\<bar>int (length orig) - int (length upd)\<bar> \<le> int (edit_dist cmp orig upd)"
  "even (int (length orig) - int (length upd) - int (edit_dist cmp orig upd))"
  using reach_diagonal [OF reach_edit_dist] reach_parity [OF reach_edit_dist] by blast+

lemma trace_row_correct:
  assumes fits: "fits orig upd" and d: "d \<le> edit_dist cmp orig upd"
    and row: "row_during cmp orig upd d k costs"
    and k: "- int d \<le> k" "k \<le> int d + 2" "even (k - int d)"
    and not_past: "d = edit_dist cmp orig upd \<longrightarrow> k \<le> int (length orig) - int (length upd)"
  shows "\<exists>costs'. trace_row cmp orig upd (length costs) (int d) k costs True =
      returns (costs', d < edit_dist cmp orig upd) \<and>
    (d < edit_dist cmp orig upd \<longrightarrow> row_before cmp orig upd (Suc d) costs')"
  using row k not_past
proof (induction "nat (int d + 2 - k)" arbitrary: k costs rule: less_induct)
  case less
  let ?D = "edit_dist cmp orig upd"
  have D: "d \<le> length orig + length upd" using d edit_dist_le le_trans by blast
  show ?case
  proof (cases "k \<le> int d")
    case False
    have "d < ?D"
    proof (rule ccontr)
      assume "\<not> d < ?D"
      with d less.prems(5) corner_diagonal(1) [of orig upd cmp] False show False by auto
    qed
    with False row_during_end [OF less.prems(1)] show ?thesis
      by (subst trace_row.simps) simp
  next
    case True
    let ?s = "diag_start (length costs) (int d) k costs"
    from True less.prems have k: "\<bar>k\<bar> \<le> int d" and before: "row_before cmp orig upd d costs"
      by (auto simp: row_during_def)
    from diagonal_pass [OF fits D before k less.prems(4)] obtain X where
      X: "snake cmp orig upd ?s (i16 (?s - k)) = Inr (X, X - k)" "furthest cmp orig upd d k X" by blast
    let ?new = "costs[cost_index (length costs) k := X]"
    let ?cont = "X < int (length orig) \<or> X - k < int (length upd)"
    have "i16 (k + 2) = k + 2"
      using k fits D by (intro i16_id) (auto simp: fits_def)
    with True X(1) fits_ilen [OF fits]
    have pass: "trace_row cmp orig upd (length costs) (int d) k costs True =
        trace_row cmp orig upd (length ?new) (int d) (k + 2) ?new ?cont"
      by (subst trace_row.simps) (simp add: Let_def)
    show ?thesis
    proof (cases "?cont")
      case False
      with corner_not_yet [OF X(2)] d have "d = ?D" by fastforce
      moreover have "trace_row cmp orig upd (length ?new) (int d) (k + 2) ?new False = returns (?new, False)"
        by (subst trace_row.simps) simp
      ultimately show ?thesis using pass False by simp
    next
      case True
      have "d = ?D \<longrightarrow> k + 2 \<le> int (length orig) - int (length upd)"
      proof
        assume "d = ?D"
        with True corner_found [of cmp orig upd k X] X(2) have "k \<noteq> int (length orig) - int (length upd)"
          by auto
        with less.prems(4,5) corner_diagonal(2) [of orig upd cmp] \<open>d = ?D\<close>
        show "k + 2 \<le> int (length orig) - int (length upd)" by presburger
      qed
      moreover have "row_during cmp orig upd d (k + 2) ?new"
        using row_during_next [OF less.prems(1) k less.prems(4) D _ X(2)] fits by (simp add: fits_def)
      moreover have "nat (int d + 2 - (k + 2)) < nat (int d + 2 - k)" using \<open>k \<le> int d\<close> by simp
      ultimately show ?thesis
        using less.hyps [of "k + 2" ?new] less.prems(2,4) \<open>k \<le> int d\<close> pass True by simp
    qed
  qed
qed

section \<open>The whole search\<close>

lemma trace_row_from_start:
  assumes fits: "fits orig upd" and d: "d \<le> edit_dist cmp orig upd"
    and row: "row_before cmp orig upd d costs"
  shows "\<exists>costs'. trace_row cmp orig upd (length costs) (int d) (i16 (- int d)) costs True =
      returns (costs', d < edit_dist cmp orig upd) \<and>
    (d < edit_dist cmp orig upd \<longrightarrow> row_before cmp orig upd (Suc d) costs')"
proof -
  have "d \<le> length orig + length upd" using d edit_dist_le le_trans by blast
  with fits have "i16 (- int d) = - int d" by (intro i16_id) (auto simp: fits_def)
  moreover have "d = edit_dist cmp orig upd \<longrightarrow> - int d \<le> int (length orig) - int (length upd)"
    using corner_diagonal(1) [of orig upd cmp] by auto
  ultimately show ?thesis
    using trace_row_correct [OF fits d row_during_start [OF row]] by simp
qed

lemma row_before_length:
  "row_before cmp orig upd d costs \<Longrightarrow> length costs = 2 * (length orig + length upd) + 1"
  by (simp add: row_before_def)

lemma trace_loop_correct:
  assumes fits: "fits orig upd" and d: "d \<le> edit_dist cmp orig upd"
    and row: "row_before cmp orig upd d costs"
  shows "\<exists>rows. trace_loop cmp orig upd (2 * (length orig + length upd) + 1)
        (int (length orig + length upd)) (int d) costs trace True = returns (trace @ concat rows) \<and>
    length rows = Suc (edit_dist cmp orig upd) - d \<and>
    (\<forall>e < length rows. row_before cmp orig upd (d + e) (rows ! e))"
  using d row
proof (induction "edit_dist cmp orig upd - d" arbitrary: d costs trace)
  case 0
  then have D: "d = edit_dist cmp orig upd" by simp
  with edit_dist_le [of cmp orig upd] have max: "int d \<le> int (length orig + length upd)" by simp
  obtain costs' where
    "trace_row cmp orig upd (length costs) (int d) (i16 (- int d)) costs True = returns (costs', False)"
    using trace_row_from_start [OF fits 0(2,3)] D by auto
  with max row_before_length [OF 0(3)]
  have "trace_loop cmp orig upd (2 * (length orig + length upd) + 1)
      (int (length orig + length upd)) (int d) costs trace True = returns (trace @ costs)"
    by (subst trace_loop.simps) (simp add: trace_loop.simps [where cont = False])
  with D 0(3) show ?case by (intro exI [of _ "[costs]"]) auto
next
  case (Suc i)
  then have D: "d < edit_dist cmp orig upd" by simp
  with edit_dist_le [of cmp orig upd] fits
  have max: "int d \<le> int (length orig + length upd)" "i16 (int d + 1) = int (Suc d)"
    by (auto simp: fits_def i16_id)
  obtain costs' where costs':
    "trace_row cmp orig upd (length costs) (int d) (i16 (- int d)) costs True = returns (costs', True)"
    "row_before cmp orig upd (Suc d) costs'"
    using trace_row_from_start [OF fits Suc.prems] D by auto
  have "i = edit_dist cmp orig upd - Suc d" "Suc d \<le> edit_dist cmp orig upd"
    using Suc.hyps(2) D by simp_all
  from Suc.hyps(1) [OF this costs'(2), of "trace @ costs"] obtain rows where rows:
    "trace_loop cmp orig upd (2 * (length orig + length upd) + 1)
        (int (length orig + length upd)) (int (Suc d)) costs' (trace @ costs) True =
      returns ((trace @ costs) @ concat rows)"
    "length rows = Suc (edit_dist cmp orig upd) - Suc d"
    "\<forall>e < length rows. row_before cmp orig upd (Suc d + e) (rows ! e)" by blast
  have "trace_loop cmp orig upd (2 * (length orig + length upd) + 1)
      (int (length orig + length upd)) (int d) costs trace True = returns (trace @ concat (costs # rows))"
    using max costs'(1) rows(1) row_before_length [OF Suc.prems(2)]
    by (subst trace_loop.simps) simp
  moreover have "row_before cmp orig upd (d + e) ((costs # rows) ! e)" if "e < length (costs # rows)" for e
    using that rows(3) Suc.prems(2) by (cases e) auto
  moreover have "length (costs # rows) = Suc (edit_dist cmp orig upd) - d"
    using rows(2) D by simp
  ultimately show ?case by blast
qed

lemma search_sizes:
  assumes "fits orig upd"
  shows "i16 (ilen orig + ilen upd) = int (length orig + length upd)"
    and "u64 (2 * int (length orig + length upd) + 1) = 2 * (length orig + length upd) + 1"
    and "new_costs (2 * (length orig + length upd) + 1) = Inr (replicate (2 * (length orig + length upd) + 1) 0)"
proof -
  have b: "length orig + length upd \<le> 32767" using assms by (simp add: fits_def)
  then show "i16 (ilen orig + ilen upd) = int (length orig + length upd)"
    using fits_ilen [OF assms] by (simp add: i16_id)
  from b show "u64 (2 * int (length orig + length upd) + 1) = 2 * (length orig + length upd) + 1"
    by (simp add: u64_id nat_add_distrib nat_mult_distrib)
  from b show "new_costs (2 * (length orig + length upd) + 1) = Inr (replicate (2 * (length orig + length upd) + 1) 0)"
    by (simp add: new_costs_def vec16_max_size_def del: replicate_Suc)
qed

theorem trace_rows:
  assumes "fits orig upd"
  shows "\<exists>rows. myers_diff_trace cmp orig upd = returns (concat rows) \<and>
    length rows = Suc (edit_dist cmp orig upd) \<and>
    (\<forall>e < length rows. row_before cmp orig upd e (rows ! e))"
proof -
  let ?costs = "replicate (2 * (length orig + length upd) + 1) (0::int)"
  from trace_loop_correct [OF assms, of 0 cmp ?costs "[]"] row_before_0 [of cmp orig upd]
  obtain rows where rows: "trace_loop cmp orig upd (2 * (length orig + length upd) + 1)
      (int (length orig + length upd)) 0 ?costs [] True = returns (concat rows)"
    "length rows = Suc (edit_dist cmp orig upd)" "\<forall>e < length rows. row_before cmp orig upd e (rows ! e)"
    by (auto simp del: replicate_Suc)
  moreover have "myers_diff_trace cmp orig upd = returns (concat rows)"
    unfolding myers_diff_trace_def Let_def
    by (simp only: search_sizes [OF assms] rows(1) sum.case)
  ultimately show ?thesis by blast
qed

section \<open>The minimum number of edits\<close>

text \<open>
  The pass of \<open>myers_diff_min_edit\<close> does what the pass of the trace does, and records the
  edit count when it finds the corner.
\<close>

lemma min_edit_row_trace_row:
  assumes "trace_row cmp orig upd ncost iedit k costs cont = Some r"
  shows "(\<forall>me. min_edit_row cmp orig upd ncost iedit k costs cont me =
      Some (map_sum id (\<lambda>(c, ct). (c, ct, if cont \<and> \<not> ct then iedit else me)) r)) \<and>
    (cont \<or> r = Inr (costs, False))" (is "?P cmp orig upd ncost iedit k costs cont r")
proof (rule trace_row.raw_induct [where P = ?P, OF _ assms])
  fix row cmp orig upd ncost iedit k costs cont r
  assume IH: "\<And>cmp orig upd ncost iedit k costs cont r.
      row cmp orig upd ncost iedit k costs cont = Some r \<Longrightarrow> ?P cmp orig upd ncost iedit k costs cont r"
    and eq: "(if k \<le> iedit \<and> cont
      then let x0 = diag_start ncost iedit k costs in
           case snake cmp orig upd x0 (i16 (x0 - k)) of
             Inl e \<Rightarrow> fails e
           | Inr (x, y) \<Rightarrow> row cmp orig upd ncost iedit (i16 (k + 2))
               (costs[cost_index ncost k := x]) (x < ilen orig \<or> y < ilen upd)
      else returns (costs, cont)) = Some r"
  let ?x0 = "diag_start ncost iedit k costs"
  show "?P cmp orig upd ncost iedit k costs cont r"
  proof (cases "k \<le> iedit \<and> cont")
    case False
    with eq show ?thesis by (subst min_edit_row.simps) auto
  next
    case True
    show ?thesis
    proof (cases "snake cmp orig upd ?x0 (i16 (?x0 - k))")
      case (Inl e)
      with True eq show ?thesis by (subst min_edit_row.simps) (auto simp: Let_def)
    next
      case (Inr p)
      obtain x y where p: "p = (x, y)" by (cases p)
      have "row cmp orig upd ncost iedit (i16 (k + 2))
          (costs[cost_index ncost k := x]) (x < ilen orig \<or> y < ilen upd) = Some r"
        using True eq Inr p by (simp add: Let_def)
      note rec = IH [OF this]
      show ?thesis
      proof (cases "x < ilen orig \<or> y < ilen upd")
        case cont: True
        with rec True Inr p show ?thesis
          by (subst min_edit_row.simps) (auto simp: Let_def linorder_not_le id_def)
      next
        case found: False
        with rec True Inr p show ?thesis
          by (subst min_edit_row.simps) (auto simp: Let_def linorder_not_le linorder_not_less id_def)
      qed
    qed
  qed
qed

lemma min_edit_loop_correct:
  assumes fits: "fits orig upd" and d: "d \<le> edit_dist cmp orig upd"
    and row: "row_before cmp orig upd d costs"
  shows "min_edit_loop cmp orig upd (2 * (length orig + length upd) + 1)
      (int (length orig + length upd)) (int d) costs True (int (length orig + length upd)) =
    returns (int (edit_dist cmp orig upd))"
  using d row
proof (induction "edit_dist cmp orig upd - d" arbitrary: d costs)
  case 0
  then have D: "d = edit_dist cmp orig upd" by simp
  show ?case
  proof (cases "d < length orig + length upd")
    case False
    with D edit_dist_le [of cmp orig upd] have "d = length orig + length upd" by simp
    with D show ?thesis by (subst min_edit_loop.simps) simp
  next
    case True
    obtain costs' where
      "trace_row cmp orig upd (length costs) (int d) (i16 (- int d)) costs True = returns (costs', False)"
      using trace_row_from_start [OF fits 0(2,3)] D by auto
    from min_edit_row_trace_row [OF this] row_before_length [OF 0(3)] True D show ?thesis
      by (subst min_edit_loop.simps) (simp add: min_edit_loop.simps [where cont = False])
  qed
next
  case (Suc i)
  then have D: "d < edit_dist cmp orig upd" by simp
  with edit_dist_le [of cmp orig upd] fits
  have max: "int d < int (length orig + length upd)" "i16 (int d + 1) = int (Suc d)"
    by (auto simp: fits_def i16_id)
  obtain costs' where costs':
    "trace_row cmp orig upd (length costs) (int d) (i16 (- int d)) costs True = returns (costs', True)"
    "row_before cmp orig upd (Suc d) costs'"
    using trace_row_from_start [OF fits Suc.prems] D by auto
  have "i = edit_dist cmp orig upd - Suc d" "Suc d \<le> edit_dist cmp orig upd"
    using Suc.hyps(2) D by simp_all
  from Suc.hyps(1) [OF this costs'(2)] min_edit_row_trace_row [OF costs'(1)] max
    row_before_length [OF Suc.prems(2)]
  show ?case by (subst min_edit_loop.simps) simp
qed

end
