(* ===== verification/Myers_Backtrace.thy ===== *)
theory Myers_Backtrace
  imports Myers_Trace
begin

text \<open>
  The walk back over the trace finds a shortest path through the edit graph, and the edit
  list built from it is a valid script of least cost. The size bound is the one of
  \<open>IndexT ncost = 2 * (x + y) + 1\<close>, which the code computes here on \<open>int16_t\<close>.
\<close>

definition small :: "'a list \<Rightarrow> 'a list \<Rightarrow> bool" where
  "small orig upd \<longleftrightarrow> length orig + length upd \<le> 16383"

lemma small_fits: "small orig upd \<Longrightarrow> fits orig upd"
  by (simp add: small_def fits_def)

section \<open>Paths backwards\<close>

definition back_edge :: "('a \<Rightarrow> 'a \<Rightarrow> bool) \<Rightarrow> 'a list \<Rightarrow> 'a list \<Rightarrow> point \<Rightarrow> point \<Rightarrow> bool" where
  "back_edge cmp orig upd p q \<longleftrightarrow> 0 \<le> fst q \<and> 0 \<le> snd q \<and>
     (p = (fst q, snd q + 1) \<or> p = (fst q + 1, snd q) \<or>
      p = (fst q + 1, snd q + 1) \<and> matching cmp orig upd (fst q) (snd q))"

fun back_path :: "('a \<Rightarrow> 'a \<Rightarrow> bool) \<Rightarrow> 'a list \<Rightarrow> 'a list \<Rightarrow> point \<Rightarrow> point list \<Rightarrow> point \<Rightarrow> bool" where
  "back_path cmp orig upd p [] q \<longleftrightarrow> p = q"
| "back_path cmp orig upd p (r # rs) q \<longleftrightarrow> back_edge cmp orig upd p r \<and> back_path cmp orig upd r rs q"

fun path_cost :: "point \<Rightarrow> point list \<Rightarrow> nat" where
  "path_cost p [] = 0"
| "path_cost p (r # rs) = (if fst r = fst p \<or> snd r = snd p then 1 else 0) + path_cost r rs"

lemma back_path_append:
  "back_path cmp orig upd p rs q \<Longrightarrow>
     back_path cmp orig upd p (rs @ ss) z = back_path cmp orig upd q ss z \<and>
     path_cost p (rs @ ss) = path_cost p rs + path_cost q ss"
  by (induction rs arbitrary: p) auto

definition diagonal_points :: "int \<Rightarrow> int \<Rightarrow> nat \<Rightarrow> point list" where
  "diagonal_points x y t = map (\<lambda>i. (x - 1 - int i, y - 1 - int i)) [0..<t]"

lemma diagonal_points_Suc:
  "diagonal_points x y (Suc t) = (x - 1, y - 1) # diagonal_points (x - 1) (y - 1) t"
  by (simp add: diagonal_points_def upt_conv_Cons map_Suc_upt [symmetric] del: upt_Suc)

lemma walk_diagonal_eq:
  "walk_diagonal px py x y ps = ps @ diagonal_points x y (nat (min (x - px) (y - py)))"
proof (induction "nat (x - px)" arbitrary: x y ps rule: less_induct)
  case less
  show ?case
  proof (cases "px < x \<and> py < y")
    case True
    then have t: "nat (min (x - px) (y - py)) = Suc (nat (min (x - 1 - px) (y - 1 - py)))"
      by (simp add: min_def) arith
    have "walk_diagonal px py x y ps = walk_diagonal px py (x - 1) (y - 1) (ps @ [(x - 1, y - 1)])"
      using True by (subst walk_diagonal.simps) simp
    also have "\<dots> = (ps @ [(x - 1, y - 1)]) @ diagonal_points (x - 1) (y - 1) (nat (min (x - 1 - px) (y - 1 - py)))"
      using True by (intro less.hyps) auto
    finally show ?thesis by (simp add: t diagonal_points_Suc)
  next
    case False
    then have "nat (min (x - px) (y - py)) = 0" by (auto simp: min_def)
    with False show ?thesis by (subst walk_diagonal.simps) (auto simp: diagonal_points_def)
  qed
qed

lemma diagonal_path:
  assumes "\<forall>u. x - int t \<le> u \<and> u < x \<longrightarrow> matching cmp orig upd u (u - k)"
    and "0 \<le> x - int t" "0 \<le> x - k - int t"
  shows "back_path cmp orig upd (x, x - k) (diagonal_points x (x - k) t) (x - int t, x - k - int t) \<and>
    path_cost (x, x - k) (diagonal_points x (x - k) t) = 0"
  using assms
proof (induction t arbitrary: x)
  case 0
  then show ?case by (simp add: diagonal_points_def)
next
  case (Suc t)
  have "back_edge cmp orig upd (x, x - k) (x - 1, x - k - 1)"
  proof -
    from Suc.prems(1) have "matching cmp orig upd (x - 1) (x - 1 - k)" by auto
    with Suc.prems show ?thesis by (simp add: back_edge_def algebra_simps)
  qed
  moreover from Suc.IH [of "x - 1"] Suc.prems
  have "back_path cmp orig upd (x - 1, x - 1 - k) (diagonal_points (x - 1) (x - 1 - k) t)
      (x - 1 - int t, x - 1 - k - int t) \<and> path_cost (x - 1, x - 1 - k) (diagonal_points (x - 1) (x - 1 - k) t) = 0"
    by auto
  ultimately show ?case by (simp add: diagonal_points_Suc algebra_simps)
qed

section \<open>Reading the trace\<close>

text \<open>What the walk relies on: the trace is made of the rows of the search.\<close>

definition trace_rows_of ::
  "('a \<Rightarrow> 'a \<Rightarrow> bool) \<Rightarrow> 'a list \<Rightarrow> 'a list \<Rightarrow> int list list \<Rightarrow> bool" where
  "trace_rows_of cmp orig upd rows \<longleftrightarrow>
     length rows = Suc (edit_dist cmp orig upd) \<and>
     (\<forall>e < length rows. row_before cmp orig upd e (rows ! e))"

lemma trace_rows_length:
  assumes "trace_rows_of cmp orig upd rows"
  shows "\<forall>r \<in> set rows. length r = 2 * (length orig + length upd) + 1"
  using assms by (auto simp: trace_rows_of_def in_set_conv_nth row_before_def)

lemma read_trace:
  assumes rows: "trace_rows_of cmp orig upd rows" and e: "e < length rows"
    and k: "\<bar>k\<bar> \<le> int (length orig + length upd) + 1" and small: "small orig upd"
  defines "N \<equiv> 2 * int (length orig + length upd) + 1"
  shows "vec_get (concat rows) (int e * N + c_rem (N + k) N) = Inr (cost_at (rows ! e) k)"
proof -
  let ?w = "2 * (length orig + length upd) + 1"
  have N: "N = int ?w" by (simp add: N_def)
  have "c_rem (N + k) N = k mod N"
    using k by (subst c_rem_pos) (auto simp: N_def)
  moreover have "cost_index ?w k = nat (k mod N)"
    using k small cost_index_mod [of k "length orig + length upd" ?w] by (simp add: N small_def)
  ultimately have i: "c_rem (N + k) N = int (cost_index ?w k)"
    using N_def by (simp add: pos_mod_sign)
  have lt: "cost_index ?w k < ?w" by (rule cost_index_less) simp
  have idx: "int e * N + c_rem (N + k) N = int (e * ?w + cost_index ?w k)"
    unfolding i by (simp only: N of_nat_add of_nat_mult)
  have len: "length (concat rows) = length rows * ?w"
    using trace_rows_length [OF rows] by (rule length_concat_equal_rows)
  have "e * ?w + cost_index ?w k < Suc e * ?w" using lt by simp
  also have "\<dots> \<le> length (concat rows)" unfolding len using e by (intro mult_le_mono1) simp
  finally have "e * ?w + cost_index ?w k < length (concat rows)" .
  then have "vec_get (concat rows) (int (e * ?w + cost_index ?w k)) = Inr (concat rows ! (e * ?w + cost_index ?w k))"
    by (simp only: vec_get_def nat_int of_nat_0_le_iff of_nat_less_iff simp_thms if_True)
  also have "concat rows ! (e * ?w + cost_index ?w k) = rows ! e ! cost_index ?w k"
    by (rule concat_equal_rows_nth [OF trace_rows_length [OF rows] e lt])
  also have "\<dots> = cost_at (rows ! e) k"
    using trace_rows_length [OF rows] e by (simp add: cost_at_def)
  finally show ?thesis unfolding idx .
qed

section \<open>The walk\<close>

lemma prev_diagonal_eq:
  assumes rows: "trace_rows_of cmp orig upd rows" and e: "Suc e < length rows"
    and k: "\<bar>k\<bar> \<le> int (Suc e)" and small: "small orig upd"
  defines "N \<equiv> 2 * int (length orig + length upd) + 1"
  shows "prev_diagonal (concat rows) N (int (Suc e)) k =
    Inr (if k = - int (Suc e) \<or>
        (k \<noteq> int (Suc e) \<and> cost_at (rows ! Suc e) (k - 1) < cost_at (rows ! Suc e) (k + 1))
      then k + 1 else k - 1)"
proof -
  have max: "int (Suc e) \<le> int (length orig + length upd)"
    using rows e edit_dist_le [of cmp orig upd] by (simp add: trace_rows_of_def)
  have "\<bar>k - 1\<bar> \<le> int (length orig + length upd) + 1" "\<bar>k + 1\<bar> \<le> int (length orig + length upd) + 1"
    using k max by auto
  note read = this [THEN read_trace [OF rows e _ small, folded N_def]]
  have "i16 (k + 1) = k + 1" "i16 (k - 1) = k - 1"
    using k max small by (auto simp: small_def i16_id)
  then show ?thesis
    using read by (auto simp: prev_diagonal_def bind_res_def add_diff_eq add.assoc)
qed

lemma furthest_run:
  assumes "furthest cmp orig upd d k x" and "reach cmp orig upd d s (s - k)"
    and "\<And>X. run_end cmp orig upd k s X \<Longrightarrow> furthest cmp orig upd d k X"
    and "length orig \<le> 32767" "length upd \<le> 32767"
  shows "run_end cmp orig upd k s x"
proof -
  from reach_nonneg [OF assms(2)] snake_run [OF assms(4,5), of s k cmp]
  obtain X where "run_end cmp orig upd k s X" by auto
  with assms(1,3) show ?thesis by (metis furthest_unique)
qed

text \<open>The pass for no edits: a run of matching pairs from the origin.\<close>

lemma backtrace_first:
  assumes rows: "trace_rows_of cmp orig upd rows" and small: "small orig upd"
    and x: "furthest cmp orig upd 0 (x - y) x"
  defines "N \<equiv> 2 * int (length orig + length upd) + 1"
  shows "\<exists>qs. backtrace_loop (concat rows) N 0 x y ps = Inr (ps @ qs) \<and>
    back_path cmp orig upd (x, y) qs (0, 0) \<and> path_cost (x, y) qs = 0"
proof -
  from x have "reach cmp orig upd 0 x y" by (simp add: furthest_def)
  with reach_diagonal [OF this] reach_nonneg [OF this] have y: "y = x" "0 \<le> x" by auto
  have len: "0 < length rows" using rows by (simp add: trace_rows_of_def)
  have row: "cost_at (rows ! 0) 1 = 0"
    using rows len by (auto simp: trace_rows_of_def row_before_def)
  have read: "vec_get (concat rows) (0 * N + c_rem (N + 1) N) = Inr 0"
    using read_trace [OF rows len _ small, of 1, folded N_def] row by simp
  have "prev_diagonal (concat rows) N 0 (i16 (x - y)) = Inr 1"
    by (simp add: prev_diagonal_def y i16_id)
  moreover have "backtrace_loop (concat rows) N (i16 (0 - 1)) 0 (i16 (0 - 1)) qs = Inr qs" for qs
    by (subst backtrace_loop.simps) (simp add: i16_id)
  ultimately have eq: "backtrace_loop (concat rows) N 0 x y ps = Inr (ps @ diagonal_points x x (nat x))"
    using read y by (subst backtrace_loop.simps) (simp add: Let_def walk_diagonal_eq i16_id min_def)
  have "run_end cmp orig upd 0 0 x"
    using furthest_run [of cmp orig upd 0 0 x 0] x y small furthest_first
    by (auto simp: reach_start small_def)
  then have "\<forall>u. 0 \<le> u \<and> u < x \<longrightarrow> matching cmp orig upd u (u - 0)"
    by (auto simp: run_end_def)
  with diagonal_path [of x "nat x" cmp orig upd 0] y(2) eq y(1) show ?thesis by auto
qed

lemma back_edge_start:
  assumes "reach cmp orig upd d px py"
  shows "back_edge cmp orig upd (px, py + 1) (px, py)" "back_edge cmp orig upd (px + 1, py) (px, py)"
  using reach_nonneg [OF assms] by (simp_all add: back_edge_def)

text \<open>The points one pass pushes: the run back to its start, and the point before it.\<close>

lemma pass_path:
  assumes run: "run_end cmp orig upd k s x" and s: "0 \<le> s" "0 \<le> s - k"
    and edge: "back_edge cmp orig upd (s, s - k) (px, py)" "s = px \<or> s - k = py"
  shows "back_path cmp orig upd (x, x - k) (diagonal_points x (x - k) (nat (x - s)) @ [(px, py)]) (px, py) \<and>
    path_cost (x, x - k) (diagonal_points x (x - k) (nat (x - s)) @ [(px, py)]) = 1"
proof -
  from run have "s \<le> x" "\<forall>u. s \<le> u \<and> u < x \<longrightarrow> matching cmp orig upd u (u - k)"
    by (auto simp: run_end_def)
  with diagonal_path [of x "nat (x - s)" cmp orig upd k] s
  have path: "back_path cmp orig upd (x, x - k) (diagonal_points x (x - k) (nat (x - s))) (s, s - k)"
    and cost: "path_cost (x, x - k) (diagonal_points x (x - k) (nat (x - s))) = 0" by auto
  from back_path_append [OF path, of "[(px, py)]" "(px, py)"] cost edge
  show ?thesis by auto
qed

lemma furthest_diagonal: "furthest cmp orig upd d k x \<Longrightarrow> \<bar>k\<bar> \<le> int d \<and> even (k - int d)"
  using reach_diagonal [of cmp orig upd d x "x - k"] reach_parity [of cmp orig upd d x "x - k"]
  by (simp add: furthest_def)

text \<open>The predecessor the walk picks, and its relation to the start of the run.\<close>

lemma predecessor:
  assumes fits: "fits orig upd" and d: "Suc e \<le> length orig + length upd"
    and row: "row_before cmp orig upd (Suc e) r"
    and x: "furthest cmp orig upd (Suc e) k x"
  defines "pk \<equiv> if k = - int (Suc e) \<or> (k \<noteq> int (Suc e) \<and> cost_at r (k - 1) < cost_at r (k + 1))
      then k + 1 else k - 1"
  defines "px \<equiv> cost_at r pk"
  shows "furthest cmp orig upd e pk px" and "i16 (px - pk) = px - pk" and "\<bar>pk\<bar> \<le> int (Suc e) + 1"
    and "\<exists>s. run_end cmp orig upd k s x \<and> 0 \<le> s \<and> 0 \<le> s - k \<and> nat (min (x - px) (x - k - (px - pk))) = nat (x - s) \<and>
      back_edge cmp orig upd (s, s - k) (px, px - pk) \<and> (s = px \<or> s - k = px - pk)"
proof -
  let ?down = "k = - int (Suc e) \<or> (k \<noteq> int (Suc e) \<and> cost_at r (k - 1) < cost_at r (k + 1))"
  let ?s = "diag_start (length r) (int (Suc e)) k r"
  from furthest_diagonal [OF x] have k: "\<bar>k\<bar> \<le> int (Suc e)" "even (k - int (Suc e))" by blast+
  note nb = row_before_neighbours [OF row k]
  show far: "furthest cmp orig upd e pk px"
    using nb by (auto simp: px_def pk_def)
  then have reach: "reach cmp orig upd e px (px - pk)" by (simp add: furthest_def)
  from reach_nonneg [OF reach] reach_upper [OF reach] d fits
  have px: "px + 1 \<le> 32767" "0 \<le> px" "0 \<le> px - pk" "px - pk \<le> 32767" by (auto simp: fits_def)
  then show "i16 (px - pk) = px - pk" by (simp add: i16_id)
  show "\<bar>pk\<bar> \<le> int (Suc e) + 1" using k by (auto simp: pk_def)
  have s: "?s = (if ?down then px else px + 1)"
    using px by (auto simp: diag_start_cost_at px_def pk_def i16_id)
  note start = diag_start_eq [OF fits d row k]
  have run: "run_end cmp orig upd k ?s x"
    using furthest_run [OF x start] fits by (simp add: fits_def)
  have sx: "?s \<le> x" using run by (simp add: run_end_def)
  have edge: "back_edge cmp orig upd (?s, ?s - k) (px, px - pk) \<and> (?s = px \<or> ?s - k = px - pk)"
    using back_edge_start [OF reach] s by (auto simp: pk_def algebra_simps)
  have "min (x - px) (x - k - (px - pk)) = x - ?s"
    using s sx by (auto simp: pk_def min_def)
  with run edge reach_nonneg [OF start(1)] show "\<exists>s. run_end cmp orig upd k s x \<and> 0 \<le> s \<and> 0 \<le> s - k \<and>
      nat (min (x - px) (x - k - (px - pk))) = nat (x - s) \<and>
      back_edge cmp orig upd (s, s - k) (px, px - pk) \<and> (s = px \<or> s - k = px - pk)" by auto
qed

lemma backtrace_loop_correct:
  assumes rows: "trace_rows_of cmp orig upd rows" and small: "small orig upd"
  defines "N \<equiv> 2 * int (length orig + length upd) + 1"
  shows "e < length rows \<Longrightarrow> furthest cmp orig upd e (x - y) x \<Longrightarrow>
    \<exists>qs. backtrace_loop (concat rows) N (int e) x y ps = Inr (ps @ qs) \<and>
      back_path cmp orig upd (x, y) qs (0, 0) \<and> path_cost (x, y) qs = e"
proof (induction e arbitrary: x y ps)
  case 0
  then show ?case using backtrace_first [OF rows small] by (simp add: N_def)
next
  case (Suc e)
  let ?k = "x - y" and ?r = "rows ! Suc e"
  let ?pk = "if ?k = - int (Suc e) \<or> (?k \<noteq> int (Suc e) \<and> cost_at ?r (?k - 1) < cost_at ?r (?k + 1))
      then ?k + 1 else ?k - 1"
  let ?px = "cost_at ?r ?pk"
  have d: "Suc e \<le> length orig + length upd"
    using rows Suc.prems(1) edit_dist_le [of cmp orig upd] by (simp add: trace_rows_of_def)
  have row: "row_before cmp orig upd (Suc e) ?r" using rows Suc.prems(1) by (simp add: trace_rows_of_def)
  note pred = predecessor [OF small_fits [OF small] d row Suc.prems(2)]
  from furthest_diagonal [OF Suc.prems(2)] have k: "\<bar>?k\<bar> \<le> int (Suc e)" by blast
  then have "i16 ?k = ?k" using d small by (intro i16_id) (auto simp: small_def)
  then have pk: "prev_diagonal (concat rows) N (int (Suc e)) (i16 ?k) = Inr ?pk"
    using prev_diagonal_eq [OF rows Suc.prems(1) k small] by (simp add: N_def)
  have px: "vec_get (concat rows) (int (Suc e) * N + c_rem (N + ?pk) N) = Inr ?px"
    unfolding N_def
  proof (rule read_trace [OF rows Suc.prems(1) _ small])
    show "\<bar>?pk\<bar> \<le> int (length orig + length upd) + 1" using pred(3) d by linarith
  qed
  obtain s where s: "run_end cmp orig upd ?k s x" "0 \<le> s" "0 \<le> s - ?k"
    "nat (min (x - ?px) (y - (?px - ?pk))) = nat (x - s)"
    "back_edge cmp orig upd (s, s - ?k) (?px, ?px - ?pk)" "s = ?px \<or> s - ?k = ?px - ?pk"
    using pred(4) by (auto simp del: of_nat_Suc)
  let ?qs = "diagonal_points x y (nat (x - s)) @ [(?px, ?px - ?pk)]"
  from Suc.IH [of ?px "?px - ?pk" "ps @ ?qs"] Suc.prems(1) pred(1) obtain rs where
    rs: "backtrace_loop (concat rows) N (int e) ?px (?px - ?pk) (ps @ ?qs) = Inr ((ps @ ?qs) @ rs)"
    "back_path cmp orig upd (?px, ?px - ?pk) rs (0, 0)" "path_cost (?px, ?px - ?pk) rs = e"
    by (auto simp del: of_nat_Suc)
  have step: "i16 (int (Suc e) - 1) = int e" using d small by (simp add: small_def i16_id)
  have "backtrace_loop (concat rows) N (int (Suc e)) x y ps =
      backtrace_loop (concat rows) N (int e) ?px (?px - ?pk) (ps @ ?qs)"
    by (subst backtrace_loop.simps)
      (simp only: pk px step pred(2) sum.case Let_def walk_diagonal_eq s(4) append_assoc
        of_nat_0_le_iff of_nat_0_less_iff zero_less_Suc if_True)
  with rs(1) have eq: "backtrace_loop (concat rows) N (int (Suc e)) x y ps = Inr (ps @ ?qs @ rs)" by simp
  have "back_path cmp orig upd (x, y) ?qs (?px, ?px - ?pk) \<and> path_cost (x, y) ?qs = 1"
    using pass_path [OF s(1-3,5,6)] by simp
  with back_path_append [of cmp orig upd "(x, y)" ?qs "(?px, ?px - ?pk)" rs "(0, 0)"] rs(2,3) eq
  show ?case by (metis add_Suc plus_nat.add_0 One_nat_def)
qed

section \<open>The results\<close>

text \<open>The search ends in the far corner, which is the furthest point of its diagonal.\<close>

lemma corner_furthest:
  "furthest cmp orig upd (edit_dist cmp orig upd) (int (length orig) - int (length upd)) (int (length orig))"
proof -
  have "x \<le> int (length orig)"
    if "reach cmp orig upd (edit_dist cmp orig upd) x (x - (int (length orig) - int (length upd)))" for x
    using reach_corner(2) [OF that] by fastforce
  with reach_edit_dist [of cmp orig upd] show ?thesis by (auto simp: furthest_def)
qed

lemma backtrace_correct:
  assumes small: "small orig upd"
  shows "\<exists>points. myers_diff_backtrace cmp orig upd = returns points \<and>
    back_path cmp orig upd (int (length orig), int (length upd)) points (0, 0) \<and>
    path_cost (int (length orig), int (length upd)) points = edit_dist cmp orig upd"
proof -
  let ?D = "edit_dist cmp orig upd" and ?w = "2 * (length orig + length upd) + 1"
  obtain rows where rows: "myers_diff_trace cmp orig upd = returns (concat rows)"
    "trace_rows_of cmp orig upd rows"
    using trace_rows [OF small_fits [OF small], of cmp] by (auto simp: trace_rows_of_def)
  have n: "ilen orig = int (length orig)" "ilen upd = int (length upd)"
    using fits_ilen [OF small_fits [OF small]] by auto
  have w: "i16 (2 * (ilen orig + ilen upd) + 1) = 2 * int (length orig + length upd) + 1"
    "u64 (2 * int (length orig + length upd) + 1) = ?w"
    using small n by (simp add: small_def i16_id)
      (use search_sizes(2) [OF small_fits [OF small]] in simp)
  have "length (concat rows) = Suc ?D * ?w"
    using length_concat_equal_rows [OF trace_rows_length [OF rows(2)]] rows(2)
    by (simp add: trace_rows_of_def)
  then have "length (concat rows) div ?w = Suc ?D" by (simp only: nonzero_mult_div_cancel_right)
  moreover have "i16 (int (Suc ?D)) = int (Suc ?D)" "i16 (int (Suc ?D) - 1) = int ?D"
    using edit_dist_le [of cmp orig upd] small by (auto simp: small_def i16_id)
  ultimately have "myers_diff_backtrace cmp orig upd =
      Some (backtrace_loop (concat rows) (2 * int (length orig + length upd) + 1) (int ?D)
        (int (length orig)) (int (length upd)) [])"
    unfolding myers_diff_backtrace_def Let_def rows(1) w bind_run_simps
    using n by simp
  moreover have "?D < length rows" using rows(2) by (simp add: trace_rows_of_def)
  ultimately show ?thesis
    using backtrace_loop_correct [OF rows(2) small _ corner_furthest, of "[]"] by auto
qed

text \<open>The edit list of a path: valid, and with one edit for each step right or down.\<close>

lemma build_diffs_correct:
  assumes "back_path cmp orig upd p points (0, 0)"
    and "fst p \<le> int (length orig)" "snd p \<le> int (length upd)"
  shows "\<exists>es. build_diffs orig upd p points acc = Inr (acc @ es) \<and>
    script_from cmp orig upd 0 0 (rev es) (nat (fst p)) (nat (snd p)) \<and> edits es = path_cost p points"
  using assms
proof (induction points arbitrary: p acc)
  case Nil
  then show ?case by auto
next
  case (Cons q points)
  obtain x y where q: "q = (x, y)" by (cases q)
  from Cons.prems(1) have edge: "back_edge cmp orig upd p q" and path: "back_path cmp orig upd q points (0, 0)"
    by simp_all
  from edge Cons.prems(2,3) q have nonneg: "0 \<le> x" "0 \<le> y" and
    bound: "fst q \<le> int (length orig)" "snd q \<le> int (length upd)"
    by (auto simp: back_edge_def)
  have IH: "\<exists>es. build_diffs orig upd q points acc' = Inr (acc' @ es) \<and>
      script_from cmp orig upd 0 0 (rev es) (nat x) (nat y) \<and> edits es = path_cost q points" for acc'
    using Cons.IH [OF path bound] q by simp
  from edge q consider (add) "p = (x, y + 1)" | (del) "p = (x + 1, y)"
    | (keep) "p = (x + 1, y + 1)" "matching cmp orig upd x y"
    by (auto simp: back_edge_def)
  then show ?case
  proof cases
    case add
    let ?d = "\<lparr>dval = upd ! nat y, dorig = - 1, dupdated = y, daction = ADD\<rparr>"
    from IH [of "acc @ [?d]"] obtain es where "build_diffs orig upd q points (acc @ [?d]) = Inr ((acc @ [?d]) @ es)"
      "script_from cmp orig upd 0 0 (rev es) (nat x) (nat y)" "edits es = path_cost q points" by blast
    with add q nonneg Cons.prems(3) show ?thesis
      by (intro exI [of _ "?d # es"]) (auto simp: script_from_append nat_add_distrib edits_def)
  next
    case del
    let ?d = "\<lparr>dval = orig ! nat x, dorig = x, dupdated = - 1, daction = DEL\<rparr>"
    from IH [of "acc @ [?d]"] obtain es where "build_diffs orig upd q points (acc @ [?d]) = Inr ((acc @ [?d]) @ es)"
      "script_from cmp orig upd 0 0 (rev es) (nat x) (nat y)" "edits es = path_cost q points" by blast
    with del q nonneg Cons.prems(2) show ?thesis
      by (intro exI [of _ "?d # es"]) (auto simp: script_from_append nat_add_distrib edits_def)
  next
    case keep
    let ?d = "\<lparr>dval = orig ! nat x, dorig = x, dupdated = y, daction = EQ\<rparr>"
    from IH [of "acc @ [?d]"] obtain es where "build_diffs orig upd q points (acc @ [?d]) = Inr ((acc @ [?d]) @ es)"
      "script_from cmp orig upd 0 0 (rev es) (nat x) (nat y)" "edits es = path_cost q points" by blast
    with keep q nonneg show ?thesis
      by (intro exI [of _ "?d # es"]) (auto simp: script_from_append nat_add_distrib edits_def matching_def)
  qed
qed

lemma myers_diff_returns:
  assumes small: "small orig upd"
  shows "\<exists>ds. myers_diff cmp orig upd = returns ds \<and> valid_script cmp orig upd ds \<and>
    edits ds = edit_dist cmp orig upd"
proof -
  have n: "ilen orig = int (length orig)" "ilen upd = int (length upd)"
    using fits_ilen [OF small_fits [OF small]] by auto
  from backtrace_correct [OF small, of cmp] obtain points where
    points: "myers_diff_backtrace cmp orig upd = returns points"
    "back_path cmp orig upd (int (length orig), int (length upd)) points (0, 0)"
    "path_cost (int (length orig), int (length upd)) points = edit_dist cmp orig upd" by blast
  from build_diffs_correct [OF points(2), of "[]"] obtain es where
    "build_diffs orig upd (int (length orig), int (length upd)) points [] = Inr es"
    "script_from cmp orig upd 0 0 (rev es) (length orig) (length upd)" "edits es = edit_dist cmp orig upd"
    using points(3) by auto
  with points(1) n show ?thesis by (auto simp: myers_diff_def valid_script_def)
qed

section \<open>Sizes beyond the limit\<close>

text \<open>
  From 16384 elements in total on, \<open>IndexT ncost\<close> of the walk wraps around to a negative
  value, whose conversion to \<open>size_t\<close> is larger than any trace: the walk sees no rows.
\<close>

lemma backtrace_wraps:
  assumes fits: "fits orig upd" and large: "16384 \<le> length orig + length upd"
  shows "myers_diff_backtrace cmp orig upd = returns []"
proof -
  let ?M = "length orig + length upd"
  have M: "?M \<le> 21844" using fits by (simp add: fits_def)
  obtain rows where rows: "myers_diff_trace cmp orig upd = returns (concat rows)"
    "trace_rows_of cmp orig upd rows"
    using trace_rows [OF fits, of cmp] by (auto simp: trace_rows_of_def)
  have n: "ilen orig = int (length orig)" "ilen upd = int (length upd)"
    using fits_ilen [OF fits] by auto
  have wrap: "i16 (2 * (ilen orig + ilen upd) + 1) = 2 * int ?M + 1 - 65536"
    using i16_wraps_down [of "2 * int ?M + 1"] n large M by simp
  have big: "18446744073709486080 \<le> u64 (2 * int ?M + 1 - 65536)"
    using u64_neg [of "2 * int ?M + 1 - 65536"] M large by simp
  have len: "length (concat rows) = Suc (edit_dist cmp orig upd) * (2 * ?M + 1)"
    using length_concat_equal_rows [OF trace_rows_length [OF rows(2)]] rows(2)
    by (simp add: trace_rows_of_def)
  have "\<dots> \<le> 21845 * 43689"
    using M edit_dist_le [of cmp orig upd] by (intro mult_le_mono) auto
  then have "length (concat rows) < u64 (2 * int ?M + 1 - 65536)"
    unfolding len using big by linarith
  then have "length (concat rows) div u64 (2 * int ?M + 1 - 65536) = 0" by (rule div_less)
  then show ?thesis
    unfolding myers_diff_backtrace_def Let_def rows(1) wrap bind_run_simps
    by (subst backtrace_loop.simps) (simp add: i16_id)
qed

text \<open>From 32768 on, \<open>max_edit\<close> itself is negative, and the vector cannot be allocated.\<close>

lemma trace_length_error:
  assumes "length orig \<le> 32767" "length upd \<le> 32767" "32768 \<le> length orig + length upd"
  shows "myers_diff_trace cmp orig upd = fails Length_error"
proof -
  let ?M = "int (length orig + length upd)"
  have max: "i16 (ilen orig + ilen upd) = ?M - 65536"
    using i16_wraps_down [of ?M] assms ilen_id [OF assms(1)] ilen_id [OF assms(2)] by simp
  have "u64 (2 * (?M - 65536) + 1) = nat (2 * (?M - 65536) + 1 + 18446744073709551616)"
    using assms by (intro u64_neg) auto
  with assms have "vec16_max_size < int (u64 (2 * (?M - 65536) + 1))"
    by (simp add: vec16_max_size_def)
  then show ?thesis by (simp add: myers_diff_trace_def max new_costs_def Let_def)
qed

section \<open>The interface\<close>

interpretation myers: diff_engine "myers_diff (=)" 16383
proof unfold_locales
  fix a b :: "'a list"
  assume "length a + length b \<le> 16383"
  then show "\<exists>ds. myers_diff (=) a b = returns ds \<and> valid_script (=) a b ds \<and> edits ds = edit_dist (=) a b"
    by (intro myers_diff_returns) (simp add: small_def)
qed simp

end
