(* ===== verification/Diff_Batch.thy ===== *)
theory Diff_Batch
  imports Diff_Msg Myers_Backtrace
begin

text \<open>
  The batched diff reports every line of both sides. The proofs are over any differ that
  keeps the contract \<open>diff_engine\<close>; the facts for \<open>myers_diff\<close> come from its interpretation.
\<close>

section \<open>The last kept line of a batch\<close>

lemma last_kept_cases:
  assumes "length mdiffs \<le> 32766" "last_kept mdiffs eo go = (diff_end, eoffset, goffset)"
  shows "(\<forall>i < length mdiffs. daction (mdiffs ! i) \<noteq> EQ) \<and>
      diff_end = int (length mdiffs) \<and> eoffset = eo \<and> goffset = go \<or>
    (\<exists>i < length mdiffs. daction (mdiffs ! i) = EQ \<and> diff_end = int i + 1 \<and>
      eoffset = i16 (dorig (mdiffs ! i) + 1) \<and> goffset = i16 (dupdated (mdiffs ! i) + 1))"
proof -
  let ?f = "\<lambda>i (diff_end, eo, go).
      if daction (mdiffs ! i) = EQ
      then (int i + 1, i16 (dorig (mdiffs ! i) + 1), i16 (dupdated (mdiffs ! i) + 1))
      else (diff_end, eo, go)"
  have "(\<forall>i < m. daction (mdiffs ! i) \<noteq> EQ) \<and>
      fold ?f [0..<m] (int (length mdiffs), eo, go) = (int (length mdiffs), eo, go) \<or>
    (\<exists>i < m. daction (mdiffs ! i) = EQ \<and> fold ?f [0..<m] (int (length mdiffs), eo, go) =
      (int i + 1, i16 (dorig (mdiffs ! i) + 1), i16 (dupdated (mdiffs ! i) + 1)))" for m
    by (induction m) (auto simp: less_Suc_eq)
  from this [of "length mdiffs"] assms show ?thesis
    by (auto simp: last_kept_def ilen_id)
qed

lemma kept_prefix:
  assumes "script_from cmp a b i j ds i' j'" "l < length ds" "daction (ds ! l) = EQ"
  shows "\<exists>p q. dorig (ds ! l) = int p \<and> dupdated (ds ! l) = int q \<and>
    script_from cmp a b i j (take (Suc l) ds) (Suc p) (Suc q)"
proof -
  have "take l ds @ (ds ! l # drop (Suc l) ds) = ds"
    using assms(2) by (simp add: id_take_nth_drop [symmetric])
  with assms(1) obtain p q where "script_from cmp a b i j (take l ds) p q"
    "script_from cmp a b p q (ds ! l # drop (Suc l) ds) i' j'"
    using script_from_append by metis
  with assms(2,3) show ?thesis
    by (auto simp: take_Suc_conv_app_nth script_from_append intro!: exI [of _ p] exI [of _ q])
qed

text \<open>What one batch contributes: a script of the part of both sides before the offsets.\<close>

lemma batch_prefix:
  assumes script: "valid_script (=) (take esize expect) (take gsize got) mdiffs"
    and size: "esize \<le> length expect" "gsize \<le> length got" "esize + gsize \<le> 32766" "0 < esize + gsize"
    and kept: "last_kept mdiffs (i16 (int esize)) (i16 (int gsize)) = (diff_end, eoffset, goffset)"
  shows "\<exists>p q. eoffset = int p \<and> goffset = int q \<and> 0 < p + q \<and> p \<le> length expect \<and> q \<le> length got \<and>
    script_from (=) expect got 0 0 (take (nat diff_end) mdiffs) p q"
proof -
  have full: "script_from (=) (take esize expect) (take gsize got) 0 0 mdiffs esize gsize"
    using script size(1,2) by (simp add: valid_script_def)
  have len: "length mdiffs \<le> 32766" using script_from_length [OF full] size(3) by simp
  from last_kept_cases [OF len kept] show ?thesis
  proof (elim disjE exE conjE)
    assume "diff_end = int (length mdiffs)" "eoffset = i16 (int esize)" "goffset = i16 (int gsize)"
    with size script_from_take [OF full] show ?thesis
      by (intro exI [of _ esize] exI [of _ gsize]) (simp add: i16_id)
  next
    fix i
    assume i: "i < length mdiffs" "daction (mdiffs ! i) = EQ" "diff_end = int i + 1"
      "eoffset = i16 (dorig (mdiffs ! i) + 1)" "goffset = i16 (dupdated (mdiffs ! i) + 1)"
    from kept_prefix [OF full i(1,2)] obtain p q where pq:
      "dorig (mdiffs ! i) = int p" "dupdated (mdiffs ! i) = int q"
      "script_from (=) (take esize expect) (take gsize got) 0 0 (take (Suc i) mdiffs) (Suc p) (Suc q)" by blast
    from script_from_bounds [OF pq(3)] size have "Suc p \<le> esize" "Suc q \<le> gsize" by auto
    with pq i size script_from_take [OF pq(3)] show ?thesis
      by (intro exI [of _ "Suc p"] exI [of _ "Suc q"]) (auto simp: i16_id nat_add_distrib)
  qed
qed

section \<open>All batches\<close>

definition reports :: "'a Diff list \<Rightarrow> 'a list \<Rightarrow> 'a list \<Rightarrow> bool" where
  "reports ds expect got \<longleftrightarrow> orig_side ds = expect \<and> upd_side ds = got \<and>
     length ds \<le> length expect + length got \<and> (expect = got \<longrightarrow> edits ds = 0)"

lemma reports_empty_iff: "reports ds expect got \<Longrightarrow> edits ds = 0 \<longleftrightarrow> expect = got"
  using sides_of_no_edits [of ds] by (auto simp: reports_def)

lemma edits_take_le: "edits (take l ds) \<le> edits ds"
  by (metis append_take_drop_id le_add1 side_append(3))

context diff_engine
begin

lemma differ_reports:
  assumes "length a + length b \<le> capacity"
  shows "\<exists>ds. differ a b = returns ds \<and> reports ds a b \<and> ilen ds = int (length ds)"
proof -
  from differ_returns [OF assms] obtain ds where
    ds: "differ a b = returns ds" "valid_script (=) a b ds" "edits ds = edit_dist (=) a b" by blast
  have "length ds \<le> length a + length b"
    using ds(2) script_from_length [of "(=)" a b 0 0 ds] by (simp add: valid_script_def)
  with ds valid_script_sides [OF ds(2)] assms capacity_bound show ?thesis
    by (auto simp: reports_def ilen_id valid_script_sides)
qed

lemma helper_reports:
  assumes "1 \<le> limit" "2 * limit \<le> capacity"
  shows "\<exists>ds. safe_diff_msg_helper differ limit acc expect got = returns (acc @ ds) \<and> reports ds expect got"
proof (induction "length expect + length got" arbitrary: acc expect got rule: less_induct)
  case less
  show ?case
  proof (cases "length expect \<le> limit \<and> length got \<le> limit")
    case True
    with assms differ_reports [of expect got] obtain ds where
      "differ expect got = returns ds" "reports ds expect got" "ilen ds = int (length ds)" by auto
    with True show ?thesis by (subst safe_diff_msg_helper.simps) auto
  next
    case False
    let ?e = "min limit (length expect)" and ?g = "min limit (length got)"
    have size: "?e \<le> length expect" "?g \<le> length got" "?e + ?g \<le> 32766" "0 < ?e + ?g"
      using assms capacity_bound False by auto
    have "length (take ?e expect) + length (take ?g got) \<le> capacity" using assms by auto
    from differ_returns [OF this] obtain md where
      md: "differ (take ?e expect) (take ?g got) = returns md"
      "valid_script (=) (take ?e expect) (take ?g got) md"
      "edits md = edit_dist (=) (take ?e expect) (take ?g got)" by auto
    obtain diff_end eoffset goffset where
      kept: "last_kept md (i16 (int ?e)) (i16 (int ?g)) = (diff_end, eoffset, goffset)"
      by (metis prod_cases3)
    from batch_prefix [OF md(2) size kept] obtain p q where
      pq: "eoffset = int p" "goffset = int q" "0 < p + q" "p \<le> length expect" "q \<le> length got"
      "script_from (=) expect got 0 0 (take (nat diff_end) md) p q" by blast
    have "length (drop p expect) + length (drop q got) < length expect + length got"
      using pq(3-5) by auto
    from less [OF this, of "acc @ take (nat diff_end) md"] obtain ds where
      ds: "safe_diff_msg_helper differ limit (acc @ take (nat diff_end) md) (drop p expect) (drop q got) =
        returns ((acc @ take (nat diff_end) md) @ ds)" "reports ds (drop p expect) (drop q got)" by blast
    have run: "safe_diff_msg_helper differ limit acc expect got = returns (acc @ (take (nat diff_end) md @ ds))"
      using False md(1) kept pq(1,2,4,5) ds(1)
      by (subst safe_diff_msg_helper.simps) (auto simp: Let_def)
    have "reports (take (nat diff_end) md @ ds) expect got"
      unfolding reports_def
    proof (intro conjI impI)
      show "orig_side (take (nat diff_end) md @ ds) = expect"
        using script_orig_side [OF pq(6)] ds(2) by (simp add: reports_def)
      show "upd_side (take (nat diff_end) md @ ds) = got"
        using script_upd_side [OF pq(6)] ds(2) by (simp add: reports_def)
      show "length (take (nat diff_end) md @ ds) \<le> length expect + length got"
      proof -
        have "length ds \<le> (length expect - p) + (length got - q)" using ds(2) by (simp add: reports_def)
        with script_from_length [OF pq(6)] pq(4,5) show ?thesis by (simp only: length_append)
      qed
      assume same: "expect = got"
      then have "edits md = 0" using md(3) by simp
      then have none: "edits (take (nat diff_end) md) = 0" using edits_take_le [of "nat diff_end" md] by simp
      from script_no_edits [OF pq(6) this] same ds(2) none
      show "edits (take (nat diff_end) md @ ds) = 0" by (simp add: reports_def)
    qed
    with run show ?thesis by blast
  qed
qed

end

section \<open>The cost of batching\<close>

text \<open>
  What is reported of one batch: entries for at most \<open>limit\<close> lines of each side, with as few
  edits as these lines allow; and how a batch that is not the last one is cut, namely after the
  last line kept, or not at all if none is kept.
\<close>

definition batch_ok :: "nat \<Rightarrow> 'a Diff list \<Rightarrow> bool" where
  "batch_ok limit d \<longleftrightarrow> length (orig_side d) \<le> limit \<and> length (upd_side d) \<le> limit \<and>
     edits d = edit_dist (=) (orig_side d) (upd_side d)"

definition cut_ok :: "'a Diff list \<Rightarrow> bool" where
  "cut_ok d \<longleftrightarrow> d \<noteq> [] \<and> (daction (last d) = EQ \<or> (\<forall>x \<in> set d. daction x \<noteq> EQ))"

lemma last_kept_cut:
  assumes "length mdiffs \<le> 32766" "last_kept mdiffs eo go = (diff_end, eoffset, goffset)" "mdiffs \<noteq> []"
  shows "cut_ok (take (nat diff_end) mdiffs)"
  using last_kept_cases [OF assms(1,2)] assms(3)
  by (auto simp: cut_ok_def nat_add_distrib take_Suc_conv_app_nth in_set_conv_nth)

lemma sides_concat:
  "orig_side (concat parts) = concat (map orig_side parts)" "upd_side (concat parts) = concat (map upd_side parts)"
  "edits (concat parts) = (\<Sum>d \<leftarrow> parts. edits d)"
  by (induction parts) (simp_all add: orig_side_def upd_side_def edits_def)

lemma valid_script_length: "valid_script cmp a b ds \<Longrightarrow> length ds \<le> length a + length b"
  using script_from_length [of cmp a b 0 0 ds] by (simp add: valid_script_def)

lemma sides_take_le:
  "length (orig_side (take l ds)) \<le> length (orig_side ds)" "length (upd_side (take l ds)) \<le> length (upd_side ds)"
  by (metis append_take_drop_id length_append le_add1 side_append(1), metis append_take_drop_id length_append le_add1 side_append(2))

context diff_engine
begin

text \<open>The start of a list with the least number of edits has the least number for its lines.\<close>

lemma prefix_minimal:
  fixes d e :: "'a Diff list"
  assumes "edits (d @ e) = edit_dist (=) (orig_side (d @ e)) (upd_side (d @ e))"
    and "length (orig_side d) + length (upd_side d) \<le> capacity"
  shows "edits d = edit_dist (=) (orig_side d) (upd_side d)"
proof -
  from differ_returns [OF assms(2)] obtain d' where d': "valid_script (=) (orig_side d) (upd_side d) d'"
    "edits d' = edit_dist (=) (orig_side d) (upd_side d)" by blast
  have "edit_dist (=) (orig_side (d' @ e)) (upd_side (d' @ e)) \<le> edits (d' @ e)" by (rule sides_cost)
  then have "edits (d @ e) \<le> edits (d' @ e)" using valid_script_sides [OF d'(1)] assms(1) by simp
  then have "edits d \<le> edits d'" by simp
  with d'(2) sides_cost [of d] show ?thesis by simp
qed

lemma helper_batches:
  assumes "1 \<le> limit" "2 * limit \<le> capacity"
  shows "\<exists>parts. safe_diff_msg_helper differ limit acc expect got = returns (acc @ concat parts) \<and>
    orig_side (concat parts) = expect \<and> upd_side (concat parts) = got \<and> parts \<noteq> [] \<and>
    (\<forall>d \<in> set parts. batch_ok limit d) \<and> (\<forall>d \<in> set (butlast parts). cut_ok d)"
proof (induction "length expect + length got" arbitrary: acc expect got rule: less_induct)
  case less
  show ?case
  proof (cases "length expect \<le> limit \<and> length got \<le> limit")
    case True
    with assms have "length expect + length got \<le> capacity" by simp
    from differ_returns [OF this] obtain ds where
      ds: "differ expect got = returns ds" "valid_script (=) expect got ds" "edits ds = edit_dist (=) expect got" by blast
    have "length ds \<le> length expect + length got"
      by (rule valid_script_length [OF ds(2)])
    then have "length ds \<le> 32767" using True assms capacity_bound by linarith
    with True ds(1) have "safe_diff_msg_helper differ limit acc expect got = returns (acc @ ds)"
      by (subst safe_diff_msg_helper.simps) (simp add: ilen_id)
    with True ds valid_script_sides [OF ds(2)] show ?thesis
      by (intro exI [of _ "[ds]"]) (simp add: batch_ok_def)
  next
    case False
    let ?e = "min limit (length expect)" and ?g = "min limit (length got)"
    have size: "?e \<le> length expect" "?g \<le> length got" "?e + ?g \<le> 32766" "0 < ?e + ?g"
      using assms capacity_bound False by auto
    have cap: "length (take ?e expect) + length (take ?g got) \<le> capacity" using assms by auto
    from differ_returns [OF cap] obtain md where
      md: "differ (take ?e expect) (take ?g got) = returns md"
      "valid_script (=) (take ?e expect) (take ?g got) md"
      "edits md = edit_dist (=) (take ?e expect) (take ?g got)" by auto
    obtain diff_end eoffset goffset where
      kept: "last_kept md (i16 (int ?e)) (i16 (int ?g)) = (diff_end, eoffset, goffset)"
      by (metis prod_cases3)
    from batch_prefix [OF md(2) size kept] obtain p q where
      pq: "eoffset = int p" "goffset = int q" "0 < p + q" "p \<le> length expect" "q \<le> length got"
      "script_from (=) expect got 0 0 (take (nat diff_end) md) p q" by blast
    let ?d = "take (nat diff_end) md"
    have "length (drop p expect) + length (drop q got) < length expect + length got"
      using pq(3-5) by auto
    from less [OF this, of "acc @ ?d"] obtain parts where
      parts: "safe_diff_msg_helper differ limit (acc @ ?d) (drop p expect) (drop q got) =
        returns ((acc @ ?d) @ concat parts)" "orig_side (concat parts) = drop p expect"
      "upd_side (concat parts) = drop q got" "parts \<noteq> []" "\<forall>d \<in> set parts. batch_ok limit d"
      "\<forall>d \<in> set (butlast parts). cut_ok d" by blast
    have run: "safe_diff_msg_helper differ limit acc expect got = returns (acc @ concat (?d # parts))"
      using False md(1) kept pq(1,2,4,5) parts(1)
      by (subst safe_diff_msg_helper.simps) (auto simp: Let_def)
    have md_sides: "orig_side (?d @ drop (nat diff_end) md) = take ?e expect" "upd_side (?d @ drop (nat diff_end) md) = take ?g got"
      using valid_script_sides [OF md(2)] by (simp_all only: append_take_drop_id)
    then have len: "length (orig_side ?d) \<le> ?e" "length (upd_side ?d) \<le> ?g"
      using valid_script_sides [OF md(2)] sides_take_le [where l = "nat diff_end" and ds = md] size(1,2) by simp_all
    have "edits (?d @ drop (nat diff_end) md) = edit_dist (=) (orig_side (?d @ drop (nat diff_end) md)) (upd_side (?d @ drop (nat diff_end) md))"
      using md(3) md_sides by (simp only: append_take_drop_id)
    from prefix_minimal [OF this] len assms have "batch_ok limit ?d" by (simp add: batch_ok_def)
    moreover have full: "length md \<le> 32766"
      using valid_script_length [OF md(2)] size(1-3) by simp
    have "length (orig_side md) + length (upd_side md) = ?e + ?g"
      using valid_script_sides [OF md(2)] by simp
    with size(4) have "0 < length (orig_side md) + length (upd_side md)" by linarith
    then have "md \<noteq> []" by (auto simp: orig_side_def upd_side_def)
    from last_kept_cut [OF full kept this] have "cut_ok ?d" .
    moreover have "orig_side (concat (?d # parts)) = expect" "upd_side (concat (?d # parts)) = got"
      using script_orig_side [OF pq(6)] script_upd_side [OF pq(6)] parts(2,3) by simp_all
    ultimately show ?thesis using run parts(4-6)
      by (intro exI [of _ "?d # parts"]) simp
  qed
qed

end

section \<open>Batches of no lines\<close>

text \<open>
  With \<open>batch_limit = 0\<close> no line is ever consumed: the recursion repeats its arguments.
\<close>

lemma helper_zero_diverges:
  assumes "differ [] [] = returns []" and "expect \<noteq> [] \<or> got \<noteq> []"
  shows "safe_diff_msg_helper differ 0 acc expect got = None"
proof -
  have False if run: "safe_diff_msg_helper differ 0 acc expect got = Some r" for r
  proof -
    have "\<not> (differ [] [] = returns [] \<and> (0::nat) = 0 \<and> (expect \<noteq> [] \<or> got \<noteq> []))"
    proof (rule safe_diff_msg_helper.raw_induct [where
            P = "\<lambda>differ limit acc expect got r.
              \<not> (differ [] [] = returns [] \<and> limit = 0 \<and> (expect \<noteq> [] \<or> got \<noteq> []))", OF _ run])
      fix f :: "('a list \<Rightarrow> 'a list \<Rightarrow> 'a Diff list run) \<Rightarrow> nat \<Rightarrow> 'a Diff list \<Rightarrow> 'a list \<Rightarrow> 'a list
          \<Rightarrow> 'a Diff list run"
        and differ limit diffs expect got r
      assume IH: "\<And>differ limit diffs expect got r. f differ limit diffs expect got = Some r \<Longrightarrow>
          \<not> (differ [] [] = returns [] \<and> limit = 0 \<and> (expect \<noteq> [] \<or> got \<noteq> []))"
        and eq: "(if length expect \<le> limit \<and> length got \<le> limit
          then case differ expect got of None \<Rightarrow> None | Some (Inl e) \<Rightarrow> fails e
            | Some (Inr mdiffs) \<Rightarrow> returns (diffs @ take (nat (ilen mdiffs)) mdiffs)
          else let esize = min limit (length expect); gsize = min limit (length got)
            in case differ (take esize expect) (take gsize got) of None \<Rightarrow> None | Some (Inl e) \<Rightarrow> fails e
              | Some (Inr mdiffs) \<Rightarrow>
                (case last_kept mdiffs (i16 (int esize)) (i16 (int gsize)) of
                   (diff_end, eoffset, goffset) \<Rightarrow>
                     if 0 \<le> eoffset \<and> eoffset \<le> int (length expect) \<and>
                        0 \<le> goffset \<and> goffset \<le> int (length got)
                     then f differ limit (diffs @ take (nat diff_end) mdiffs)
                       (drop (nat eoffset) expect) (drop (nat goffset) got)
                     else fails Undefined)) = Some r"
      show "\<not> (differ [] [] = returns [] \<and> limit = 0 \<and> (expect \<noteq> [] \<or> got \<noteq> []))"
      proof
        assume a: "differ [] [] = returns [] \<and> limit = 0 \<and> (expect \<noteq> [] \<or> got \<noteq> [])"
        with eq have "f differ 0 diffs expect got = Some r"
          by (auto simp: last_kept_def ilen_def i16_id)
        from IH [OF this] a show False by blast
      qed
    qed
    with assms show False by blast
  qed
  then show ?thesis by (cases "safe_diff_msg_helper differ 0 acc expect got") auto
qed

section \<open>Messages for \<open>myers_diff\<close>\<close>

lemma helper_direct:
  assumes "myers_diff (=) expect got = returns ds" "length ds \<le> 32767"
    and "length expect \<le> limit" "length got \<le> limit"
  shows "safe_diff_msg_helper (myers_diff (=)) limit acc expect got = returns (acc @ ds)"
  using assms by (subst safe_diff_msg_helper.simps) (simp add: ilen_id)

lemma process_lines_eq:
  "process_lines trim lines str ignore_empty_lines trim_spaces =
     lines @ filter (\<lambda>l. ignore_empty_lines \<longrightarrow> l \<noteq> [])
       (map (if trim_spaces then trim else id) (get_lines [] str))"
proof -
  have "fold (\<lambda>line lines.
          let line' = (if trim_spaces then trim line else line)
          in if ignore_empty_lines = False \<or> 0 < length line' then lines @ [line'] else lines) ls lines =
      lines @ filter (\<lambda>l. ignore_empty_lines \<longrightarrow> l \<noteq> []) (map (if trim_spaces then trim else id) ls)"
    for ls lines
    by (induction ls arbitrary: lines) (auto simp: Let_def)
  then show ?thesis by (simp add: process_lines_def)
qed


lemma get_lines_newline: "get_lines line (as @ newline # bs) = get_lines line (as @ [newline]) @ get_lines [] bs"
  by (induction as arbitrary: line) auto

lemma get_lines_one: "newline \<notin> set l \<Longrightarrow> get_lines line (l @ newline # bs) = (line @ l) # get_lines [] bs"
  by (induction l arbitrary: line) auto

text \<open>By default, lines of nothing but space do not count.\<close>

lemma diff_lines_ignores_blank:
  assumes "trim l = []" and "newline \<notin> set l"
  shows "diff_lines_default trim (as @ newline # l @ newline # bs) got = diff_lines_default trim (as @ newline # bs) got"
    and "diff_lines_default trim expect (as @ newline # l @ newline # bs) = diff_lines_default trim expect (as @ newline # bs)"
proof -
  have "process_lines trim [] (as @ newline # l @ newline # bs) True True = process_lines trim [] (as @ newline # bs) True True"
    using assms get_lines_newline [of "[]" as "l @ newline # bs"] get_lines_newline [of "[]" as bs]
    by (simp add: process_lines_eq get_lines_one)
  then show "diff_lines_default trim (as @ newline # l @ newline # bs) got = diff_lines_default trim (as @ newline # bs) got"
    "diff_lines_default trim expect (as @ newline # l @ newline # bs) = diff_lines_default trim expect (as @ newline # bs)"
    by (simp_all add: diff_lines_default_def diff_lines_def)
qed

end
