(* ===== verification/Diff_Properties.thy ===== *)
theory Diff_Properties
  imports Diff_Batch
begin

text \<open>
  The properties of the diff package: the edit list is valid, of least cost and restores
  both sides; the messages are empty exactly when the sides agree; the limits of the
  16-bit indices, and what happens beyond them.
\<close>

section \<open>The search\<close>

text \<open>
  C1. For sequences of at most 16383 elements in total, \<open>myers_diff\<close> returns a valid edit
  list: its entries lead from the start of both sequences to their ends, kept elements
  match under the comparator, and every entry carries its value and its position.
\<close>

theorem myers_diff_valid:
  "length orig + length upd \<le> 16383 \<Longrightarrow>
     \<exists>ds. myers_diff cmp orig upd = returns ds \<and> valid_script cmp orig upd ds"
  using myers_diff_returns [of orig upd cmp] by (auto simp: small_def)

theorem myers_diff_valid_witness:
  "\<exists>ds. myers_diff (=) ''ABCABBA'' ''CBABAC'' = returns ds \<and> valid_script (=) ''ABCABBA'' ''CBABAC'' ds"
  by (rule myers_diff_valid) simp

text \<open>
  C2. The edit list of \<open>myers_diff\<close> is of least cost: no valid edit list between the same
  sequences has fewer additions and deletions.
\<close>

theorem myers_diff_minimal:
  assumes "length orig + length upd \<le> 16383"
    and "myers_diff cmp orig upd = returns ds" and "valid_script cmp orig upd es"
  shows "edits ds \<le> edits es"
  using assms myers_diff_returns [of orig upd cmp] valid_script_cost [of cmp orig upd es]
  by (auto simp: small_def)

theorem myers_diff_minimal_witness:
  "edits [\<lparr>dval = (7::nat), dorig = 0, dupdated = 0, daction = EQ\<rparr>] \<le>
   edits [\<lparr>dval = (7::nat), dorig = 0, dupdated = - 1, daction = DEL\<rparr>,
          \<lparr>dval = 7, dorig = - 1, dupdated = 0, daction = ADD\<rparr>]"
proof (rule myers_diff_minimal [of "[7::nat]" "[7]" "(=)"])
  show "length [7::nat] + length [7::nat] \<le> 16383" by simp
  show "myers_diff (=) [7::nat] [7] = returns [\<lparr>dval = 7, dorig = 0, dupdated = 0, daction = EQ\<rparr>]"
    by code_simp
  show "valid_script (=) [7::nat] [7]
      [\<lparr>dval = 7, dorig = 0, dupdated = - 1, daction = DEL\<rparr>, \<lparr>dval = 7, dorig = - 1, dupdated = 0, daction = ADD\<rparr>]"
    by (simp add: valid_script_def)
qed

text \<open>
  C5. \<open>myers_diff_min_edit\<close>, an optimised search over diagonals, returns the value of the
  quadratic reference recursion \<open>edit_dist\<close>, whenever no index wraps around.
\<close>

theorem min_edit_is_edit_dist:
  assumes "2 * length orig + length upd \<le> 32767" and "length orig + 2 * length upd \<le> 32767"
  shows "myers_diff_min_edit cmp orig upd = returns (edit_dist cmp orig upd)"
proof -
  have fits: "fits orig upd" using assms by (simp add: fits_def)
  have "min_edit_loop cmp orig upd (2 * (length orig + length upd) + 1) (int (length orig + length upd)) 0
      (replicate (2 * (length orig + length upd) + 1) 0) True (int (length orig + length upd)) =
    returns (int (edit_dist cmp orig upd))"
    using min_edit_loop_correct [OF fits _ row_before_0, of cmp] by (simp del: replicate_Suc)
  moreover have "u64 (int (edit_dist cmp orig upd)) = edit_dist cmp orig upd"
    using edit_dist_le [of cmp orig upd] assms by (simp add: u64_id)
  ultimately show ?thesis
    unfolding myers_diff_min_edit_def Let_def
    by (simp only: search_sizes [OF fits] sum.case bind_run_simps)
qed

theorem min_edit_is_edit_dist_witness:
  "myers_diff_min_edit (=) ''ABCABBA'' ''CBABAC'' = returns (edit_dist (=) ''ABCABBA'' ''CBABAC'')"
  by (rule min_edit_is_edit_dist) simp_all

text \<open>
  C24. The two sequences can be read back from the edit list: its kept and deleted values
  are the original one, its kept and added values the updated one.
\<close>

theorem myers_diff_roundtrip:
  assumes "length orig + length upd \<le> 16383" and "myers_diff (=) orig upd = returns ds"
  shows "orig_side ds = orig \<and> upd_side ds = upd"
  using assms myers.differ_returns [of orig upd] valid_script_sides(1) [of "(=)" orig upd ds]
    valid_script_sides(2) [of orig upd ds] by auto

theorem myers_diff_roundtrip_witness:
  "orig_side [\<lparr>dval = (1::nat), dorig = 0, dupdated = 0, daction = EQ\<rparr>,
       \<lparr>dval = 2, dorig = - 1, dupdated = 1, daction = ADD\<rparr>] = [1] \<and>
   upd_side [\<lparr>dval = (1::nat), dorig = 0, dupdated = 0, daction = EQ\<rparr>,
       \<lparr>dval = 2, dorig = - 1, dupdated = 1, daction = ADD\<rparr>] = [1, 2]"
proof (rule myers_diff_roundtrip)
  show "length [1::nat] + length [1::nat, 2] \<le> 16383" by simp
  show "myers_diff (=) [1::nat] [1, 2] =
      returns [\<lparr>dval = 1, dorig = 0, dupdated = 0, daction = EQ\<rparr>, \<lparr>dval = 2, dorig = - 1, dupdated = 1, daction = ADD\<rparr>]"
    by code_simp
qed



text \<open>
  C38. The size of the result: for sequences of \<open>n\<close> and \<open>m\<close> elements the edit list has at
  least \<open>|n - m|\<close> and at most \<open>n + m\<close> edits, and \<open>(n + m + edits) / 2\<close> entries, which are at
  most 16383, so that every count of them fits in an \<open>IndexT\<close>.
\<close>

theorem diff_bounds:
  assumes "length orig + length upd \<le> 16383" and "myers_diff cmp orig upd = returns ds"
  shows "length orig \<le> length upd + edits ds \<and> length upd \<le> length orig + edits ds \<and>
    edits ds \<le> length orig + length upd \<and> 2 * length ds = length orig + length upd + edits ds \<and>
    ilen ds = int (length ds)"
proof -
  from assms myers_diff_returns [of orig upd cmp] have valid: "valid_script cmp orig upd ds"
    by (auto simp: small_def)
  then have counts: "2 * length ds = length orig + length upd + edits ds" "length orig \<le> length upd + edits ds"
    "length upd \<le> length orig + edits ds"
    using script_counts [of cmp orig upd 0 0 ds] by (simp_all add: valid_script_def)
  moreover have "length ds \<le> length orig + length upd"
    using valid script_from_length [of cmp orig upd 0 0 ds] by (simp add: valid_script_def)
  ultimately show ?thesis using assms(1) by (simp add: ilen_id)
qed

theorem diff_bounds_witness:
  "2 * length [\<lparr>dval = 7::nat, dorig = 0, dupdated = 0, daction = EQ\<rparr>] =
    length [7::nat] + length [7::nat] + edits [\<lparr>dval = 7::nat, dorig = 0, dupdated = 0, daction = EQ\<rparr>]"
proof -
  have "myers_diff (=) [7::nat] [7] = returns [\<lparr>dval = 7, dorig = 0, dupdated = 0, daction = EQ\<rparr>]"
    by code_simp
  from diff_bounds [OF _ this] show ?thesis by simp
qed

section \<open>Messages\<close>

text \<open>
  C29. The message of an edit list of at most 32767 entries consists of exactly the entries
  at most three places from an addition or a deletion, in order, each numbered by the
  elements of the two sides that come before it.
\<close>

theorem to_string_shows_context:
  "length ds \<le> 32767 \<Longrightarrow>
     to_string ds = Inr (concat (map (numbered_line ds) (filter (near_edit ds) [0..<length ds])))"
  by (rule to_string_eq)

theorem to_string_shows_context_witness:
  "to_string [\<lparr>dval = ''x'', dorig = 0, dupdated = - 1, daction = DEL\<rparr>] =
    Inr (concat (map (numbered_line [\<lparr>dval = ''x'', dorig = 0, dupdated = - 1, daction = DEL\<rparr>])
      (filter (near_edit [\<lparr>dval = ''x'', dorig = 0, dupdated = - 1, daction = DEL\<rparr>]) [0..<1])))"
  using to_string_shows_context [of "[\<lparr>dval = ''x'', dorig = 0, dupdated = - 1, daction = DEL\<rparr>]"] by simp

text \<open>
  \<open>diff_msg\<close> returns for every pair of line lists of at most 16383 lines in total, and
  its message is empty exactly when the two lists are the same.
\<close>

lemma diff_msg_empty_iff:
  assumes "length expect + length got \<le> 16383"
  shows "\<exists>s. diff_msg expect got = returns s \<and> (s = [] \<longleftrightarrow> expect = got)"
proof -
  from myers.differ_reports [of expect got] assms obtain ds where
    ds: "myers_diff (=) expect got = returns ds" "reports ds expect got" by blast
  then have "length ds \<le> 32767" using assms by (simp add: reports_def)
  from to_string_empty [OF this] reports_empty_iff [OF ds(2)] ds(1) show ?thesis
    by (auto simp: diff_msg_def)
qed

text \<open>
  C4. The batched diff returns for every batch limit from 1 to 8191 and all inputs, and
  reports every line: reading its entries back gives both sides in full, however the
  lines were split into batches.
\<close>

theorem batches_report_all_lines:
  assumes "1 \<le> limit" and "limit \<le> 8191"
  shows "\<exists>ds. safe_diff_msg_helper (myers_diff (=)) limit [] expect got = returns ds \<and>
    orig_side ds = expect \<and> upd_side ds = got"
  using myers.helper_reports [of limit "[]" expect got] assms by (auto simp: reports_def)

theorem batches_report_all_lines_witness:
  "\<exists>ds. safe_diff_msg_helper (myers_diff (=)) 2 [] [1::nat, 2, 3] [1, 3] = returns ds \<and>
    orig_side ds = [1, 2, 3] \<and> upd_side ds = [1, 3]"
  by (rule batches_report_all_lines) simp_all

text \<open>
  C26. \<open>safe_diff_msg\<close> with a batch limit from 1 to 8191 returns for every input of at most
  32767 lines in total, with an empty message exactly when the two lists are the same.
\<close>

theorem safe_diff_msg_empty_iff:
  assumes "1 \<le> limit" "limit \<le> 8191" "length expect + length got \<le> 32767"
  shows "\<exists>s. safe_diff_msg expect got limit = returns s \<and> (s = [] \<longleftrightarrow> expect = got)"
proof -
  from myers.helper_reports [of limit "[]" expect got] assms(1,2) obtain ds where
    ds: "safe_diff_msg_helper (myers_diff (=)) limit [] expect got = returns ds" "reports ds expect got" by auto
  then have "length ds \<le> 32767" using assms(3) by (simp add: reports_def)
  from to_string_empty [OF this] reports_empty_iff [OF ds(2)] ds(1) show ?thesis
    by (auto simp: safe_diff_msg_def)
qed

theorem safe_diff_msg_empty_iff_witness:
  "\<exists>s. safe_diff_msg [''a'', ''b'', ''c''] [''c''] 1 = returns s \<and> (s = [] \<longleftrightarrow> [''a'', ''b'', ''c''] = [''c''])"
  by (rule safe_diff_msg_empty_iff) simp_all



text \<open>More than one batch can cost more edits than necessary: the line in common is not found here.\<close>

lemma batching_costs_more:
  "\<exists>ds. safe_diff_msg_helper (myers_diff (=)) 1 [] [1 :: nat, 2] [2] = returns ds \<and>
    edit_dist (=) [1 :: nat, 2] [2] < edits ds"
proof -
  have "safe_diff_msg_helper (myers_diff (=)) 1 [] [1 :: nat, 2] [2] =
      returns [\<lparr>dval = 1, dorig = 0, dupdated = - 1, daction = DEL\<rparr>, \<lparr>dval = 2, dorig = - 1, dupdated = 0, daction = ADD\<rparr>,
        \<lparr>dval = 2, dorig = 0, dupdated = - 1, daction = DEL\<rparr>]" by code_simp
  then show ?thesis by (simp add: edits_def)
qed

text \<open>
  C28. \<open>diff_lines\<close> compares the texts line by line after the requested clean-up: for at
  most 16383 lines in total the message is empty exactly when the two texts have the same
  lines once each line is trimmed (if asked) and empty lines are dropped (if asked).
\<close>

theorem diff_lines_empty_iff:
  assumes "length (process_lines trim [] expect ignore trim_spaces) +
      length (process_lines trim [] got ignore trim_spaces) \<le> 16383"
  shows "\<exists>s. diff_lines trim expect got ignore trim_spaces = returns s \<and>
    (s = [] \<longleftrightarrow>
      filter (\<lambda>l. ignore \<longrightarrow> l \<noteq> []) (map (if trim_spaces then trim else id) (get_lines [] expect)) =
      filter (\<lambda>l. ignore \<longrightarrow> l \<noteq> []) (map (if trim_spaces then trim else id) (get_lines [] got)))"
proof -
  let ?e = "process_lines trim [] expect ignore trim_spaces" and ?g = "process_lines trim [] got ignore trim_spaces"
  from myers.differ_reports [OF assms] obtain ds where
    ds: "myers_diff (=) ?e ?g = returns ds" "reports ds ?e ?g" by blast
  then have len: "length ds \<le> 32767" using assms by (simp add: reports_def)
  have "safe_diff_msg ?e ?g default_batch_limit = Some (to_string ds)"
    using helper_direct [OF ds(1) len, of default_batch_limit "[]"] assms
    by (simp add: safe_diff_msg_def default_batch_limit_def)
  with to_string_empty [OF len] reports_empty_iff [OF ds(2)] show ?thesis
    by (auto simp: diff_lines_def process_lines_eq)
qed

theorem diff_lines_empty_iff_witness:
  "\<exists>s. diff_lines (dropWhile (\<lambda>c. c = CHR '' '')) ''  a'' ''a'' True True = returns s \<and>
    (s = [] \<longleftrightarrow>
      filter (\<lambda>l. True \<longrightarrow> l \<noteq> []) (map (if True then dropWhile (\<lambda>c. c = CHR '' '') else id) (get_lines [] ''  a'')) =
      filter (\<lambda>l. True \<longrightarrow> l \<noteq> []) (map (if True then dropWhile (\<lambda>c. c = CHR '' '') else id) (get_lines [] ''a'')))"
  by (rule diff_lines_empty_iff) (simp add: process_lines_eq)

section \<open>Beyond the limits\<close>

text \<open>
  C30. From 16384 elements in total on, while the search itself still fits in 16 bits, the
  walk back sees no rows and \<open>myers_diff\<close> returns an empty edit list, whatever the
  sequences are; \<open>diff_msg\<close> then reports no difference between different line lists.
\<close>

theorem diff_silent_when_large:
  assumes "16384 \<le> length orig + length upd"
    and "2 * length orig + length upd \<le> 32767" "length orig + 2 * length upd \<le> 32767"
  shows "myers_diff (=) orig upd = returns [] \<and> diff_msg orig upd = returns [] \<and>
    safe_diff_msg orig upd default_batch_limit = returns []"
proof -
  have fits: "fits orig upd" using assms(2,3) by (simp add: fits_def)
  have none: "myers_diff (=) orig upd = returns []"
    using backtrace_wraps [OF fits assms(1), of "(=)"] by (simp add: myers_diff_def)
  moreover have "to_string [] = Inr []" by (simp add: to_string_eq)
  ultimately show ?thesis
    using assms(2,3) helper_direct [OF none, of default_batch_limit "[]"]
    by (simp add: diff_msg_def safe_diff_msg_def default_batch_limit_def)
qed

theorem diff_silent_when_large_witness:
  "myers_diff (=) (replicate 8192 ''a'') (replicate 8192 ''b'') = returns [] \<and>
   diff_msg (replicate 8192 ''a'') (replicate 8192 ''b'') = returns [] \<and>
   safe_diff_msg (replicate 8192 ''a'') (replicate 8192 ''b'') default_batch_limit = returns []"
  by (rule diff_silent_when_large) simp_all

text \<open>
  From 32768 elements in total on, the size of the cost vector wraps around and its
  allocation throws \<open>std::length_error\<close>.
\<close>

lemma diff_length_error:
  assumes "length orig \<le> 32767" "length upd \<le> 32767" "32768 \<le> length orig + length upd"
  shows "myers_diff cmp orig upd = fails Length_error"
  using trace_length_error [OF assms, of cmp]
  by (simp add: myers_diff_def myers_diff_backtrace_def Let_def)

text \<open>
  A batch limit of 0 never consumes a line: \<open>safe_diff_msg\<close> does not return for any
  input that is not empty on both sides.
\<close>

lemma safe_diff_msg_zero_diverges:
  assumes "expect \<noteq> [] \<or> got \<noteq> []"
  shows "safe_diff_msg expect got 0 = None"
proof -
  have "myers_diff (=) ([]::string list) [] = returns []" by code_simp
  from helper_zero_diverges [of "myers_diff (=)" expect got, OF this assms] show ?thesis by (simp add: safe_diff_msg_def)
qed

text \<open>
  The message of an accumulated edit list of 32768 to 65535 entries declares an array
  of negative length, and one of exactly 65536 entries prints nothing, even when every
  entry is an edit: the entry count is kept in an \<open>IndexT\<close>.
\<close>

lemma to_string_count_wraps:
  "(32768 \<le> length ds \<and> length ds \<le> 65535 \<longrightarrow> to_string ds = Inl Undefined) \<and>
   (length ds = 65536 \<longrightarrow> to_string ds = Inr [])"
  using i16_wraps_down [of "int (length ds)"] by (auto simp: to_string_def ilen_def Let_def)

end
