(* ===== verification/Diff_Lcs.thy ===== *)
theory Diff_Lcs
  imports Diff_Properties "HOL-Library.Sublist"
begin

text \<open>
  What \<open>myers_diff\<close> keeps: a longest common subsequence of the two sides. This specification
  does not mention edits, so it does not depend on the recursion \<open>edit_dist\<close>.
\<close>

section \<open>Edit distance and common subsequences\<close>

lemma edit_dist_common:
  "subseq zs xs \<Longrightarrow> subseq zs ys \<Longrightarrow> edit_dist (=) xs ys + 2 * length zs \<le> length xs + length ys"
proof (induction "(=) :: 'a \<Rightarrow> 'a \<Rightarrow> bool" xs ys arbitrary: zs rule: edit_dist.induct)
  case (1 ys)
  then show ?case by simp
next
  case (2 x xs)
  then show ?case by simp
next
  case (3 x xs y ys)
  note edit_dist.simps(3) [simp del]
  show ?case
  proof (cases zs)
    case Nil
    then show ?thesis using edit_dist_le [of "(=)" "x # xs" "y # ys"] by simp
  next
    case (Cons z zs')
    consider "z = x" "z = y" | "z \<noteq> x" | "z \<noteq> y" by blast
    then show ?thesis
    proof cases
      case 1
      with 3(4,5) Cons have "subseq zs' xs" "subseq zs' ys" by simp_all
      with 3(3) [OF refl _ this] 1 Cons edit_dist_keep [of "(=)" x y xs ys] show ?thesis by simp
    next
      case 2
      with 3(4) Cons have "subseq zs xs" by simp
      with 3(1) [of zs] 3(5) edit_dist_del [of "(=)" "x # xs" "y # ys"] show ?thesis by simp
    next
      case 3
      with \<open>subseq zs (y # ys)\<close> Cons have "subseq zs ys" by simp
      with "3.hyps"(2) [of zs] \<open>subseq zs (x # xs)\<close> edit_dist_add [of "(=)" "x # xs" "y # ys"] show ?thesis by simp
    qed
  qed
qed

section \<open>The entries that are kept\<close>

definition kept :: "'a Diff list \<Rightarrow> 'a list" where
  "kept ds = map dval (filter (\<lambda>d. daction d = EQ) ds)"

lemma kept_simps [simp]:
  "kept [] = []" "kept (d # ds) = (if daction d = EQ then dval d # kept ds else kept ds)"
  by (simp_all add: kept_def)

lemma kept_common: "subseq (kept ds) (orig_side ds) \<and> subseq (kept ds) (upd_side ds)"
  by (induction ds) auto

lemma kept_count: "edits ds + 2 * length (kept ds) = length (orig_side ds) + length (upd_side ds)"
proof (induction ds)
  case (Cons d ds)
  then show ?case by (cases "daction d") simp_all
qed simp

section \<open>Properties\<close>

text \<open>
  C3. What \<open>myers_diff\<close> keeps is a longest common subsequence: it is a subsequence of both
  sides, and no common subsequence of theirs is longer.
\<close>

theorem myers_diff_keeps_lcs:
  assumes "length orig + length upd \<le> 16383"
  shows "\<exists>ds. myers_diff (=) orig upd = returns ds \<and> subseq (kept ds) orig \<and> subseq (kept ds) upd \<and>
    (\<forall>zs. subseq zs orig \<and> subseq zs upd \<longrightarrow> length zs \<le> length (kept ds))"
proof -
  from myers_diff_returns [of orig upd "(=)"] assms obtain ds where
    ds: "myers_diff (=) orig upd = returns ds" "edits ds = edit_dist (=) orig upd" by (auto simp: small_def)
  from myers.differ_reports [of orig upd] assms ds(1) have "orig_side ds = orig" "upd_side ds = upd"
    by (auto simp: reports_def)
  with kept_common [of ds] kept_count [of ds] ds(2)
  have kept: "subseq (kept ds) orig" "subseq (kept ds) upd"
    "edit_dist (=) orig upd + 2 * length (kept ds) = length orig + length upd" by simp_all
  have "length zs \<le> length (kept ds)" if "subseq zs orig" "subseq zs upd" for zs
    using edit_dist_common [OF that] kept(3) by simp
  with ds(1) kept(1,2) show ?thesis by blast
qed

theorem myers_diff_keeps_lcs_witness:
  "\<exists>ds. myers_diff (=) ''ABCABBA'' ''CBABAC'' = returns ds \<and> 4 \<le> length (kept ds)"
proof -
  have len: "length ''ABCABBA'' + length ''CBABAC'' \<le> 16383" by simp
  from myers_diff_keeps_lcs [OF len] obtain ds where ds: "myers_diff (=) ''ABCABBA'' ''CBABAC'' = returns ds"
    "\<forall>zs. subseq zs ''ABCABBA'' \<and> subseq zs ''CBABAC'' \<longrightarrow> length zs \<le> length (kept ds)" by blast
  have "subseq ''BABA'' ''ABCABBA'' \<and> subseq ''BABA'' ''CBABAC''" by simp
  with ds(2) have "length ''BABA'' \<le> length (kept ds)" by blast
  with ds(1) show ?thesis by auto
qed

end
