(* ===== verification/Contain.thy ===== *)
theory Contain
  imports Cpp_Prelude "HOL-Library.AList"
begin

text \<open>
  The code of \<open>cppkg/estd/contain.h\<close>: searches in maps, sets and arrays. The functions are
  templates over any container with \<open>find\<close>; \<open>fnd\<close> is that member function, with \<open>None\<close>
  for \<open>end()\<close>. The interface \<open>searchable\<close> states what they rely on, and \<open>hash_map\<close> what
  the classes built on \<open>std::unordered_map\<close> rely on.
\<close>

section \<open>The standard containers\<close>

text \<open>
  A \<open>std::unordered_map\<close> is the list of its entries in iteration order, with distinct keys.
  The standard leaves the place of a new entry open; the model appends it, and no property
  depends on more than the set of entries.
\<close>

type_synonym ('k, 'v) umap = "('k \<times> 'v) list"

definition umap_find :: "('k, 'v) umap \<Rightarrow> 'k \<Rightarrow> 'v option" where
  "umap_find m k = map_of m k"

definition umap_emplace :: "'k \<Rightarrow> 'v \<Rightarrow> ('k, 'v) umap \<Rightarrow> ('k, 'v) umap" where
  "umap_emplace k v m = (if umap_find m k = None then m @ [(k, v)] else m)"

definition umap_assign :: "'k \<Rightarrow> 'v \<Rightarrow> ('k, 'v) umap \<Rightarrow> ('k, 'v) umap" where
  "umap_assign k v m = AList.update k v m"

definition umap_erase :: "'k \<Rightarrow> ('k, 'v) umap \<Rightarrow> ('k, 'v) umap" where
  "umap_erase k m = AList.delete k m"

definition umap_ok :: "('k, 'v) umap \<Rightarrow> bool" where
  "umap_ok m = distinct (map fst m)"

text \<open>\<open>std::find\<close>: the position of the first equal element, or the end.\<close>

primrec std_find :: "'a list \<Rightarrow> 'a \<Rightarrow> nat" where
  "std_find [] key = 0"
| "std_find (x # xs) key = (if x = key then 0 else Suc (std_find xs key))"

section \<open>The functions\<close>

text \<open>\<open>EnumHash\<close>: the conversion of an enumerator, an integer, to \<open>size_t\<close>.\<close>

definition enum_hash :: "int \<Rightarrow> nat" where
  "enum_hash e = u64 e"

definition get_keys :: "('k, 'v) umap \<Rightarrow> 'k list" where
  "get_keys m = foldl (\<lambda>keys e. keys @ [fst e]) [] m"

definition has :: "('s \<Rightarrow> 'k \<Rightarrow> 'v option) \<Rightarrow> 's \<Rightarrow> 'k \<Rightarrow> bool" where
  "has fnd s key = (fnd s key \<noteq> None)"

text \<open>\<open>get\<close> returns whether the key is found and the new value of the reference \<open>val\<close>.\<close>

definition get_val :: "('s \<Rightarrow> 'k \<Rightarrow> 'v option) \<Rightarrow> 'v \<Rightarrow> 's \<Rightarrow> 'k \<Rightarrow> bool \<times> 'v" where
  "get_val fnd val s key = (case fnd s key of Some v \<Rightarrow> (True, v) | None \<Rightarrow> (False, val))"

definition try_get :: "('s \<Rightarrow> 'k \<Rightarrow> 'v option) \<Rightarrow> 's \<Rightarrow> 'k \<Rightarrow> 'v \<Rightarrow> 'v" where
  "try_get fnd s key default_val = (case fnd s key of Some v \<Rightarrow> v | None \<Rightarrow> default_val)"

text \<open>
  The logger's \<open>fatalf\<close> is third-party code and a parameter: the exception it throws, or
  \<open>None\<close> for a logger that returns. Then \<open>end()\<close> is dereferenced.
\<close>

definition must_getf ::
  "(string \<Rightarrow> 'a list \<Rightarrow> cpp_error option) \<Rightarrow> ('s \<Rightarrow> 'k \<Rightarrow> 'v option) \<Rightarrow> 's \<Rightarrow> 'k \<Rightarrow> string \<Rightarrow> 'a list
     \<Rightarrow> 'v res" where
  "must_getf fatalf fnd s key msg args =
     (case fnd s key of
        None \<Rightarrow> (case fatalf msg args of Some e \<Rightarrow> Inl e | None \<Rightarrow> Inl Undefined)
      | Some v \<Rightarrow> Inr v)"

definition arr_has :: "'a list \<Rightarrow> 'a \<Rightarrow> bool" where
  "arr_has s key = (std_find s key \<noteq> length s)"

definition map_keyset :: "('k, 'v) umap \<Rightarrow> 'k set" where
  "map_keyset kv = foldl (\<lambda>k p. insert (fst p) k) {} kv"

section \<open>Basic facts\<close>

lemma std_find_le: "std_find xs key \<le> length xs"
  by (induction xs) auto

lemma std_find_nth: "std_find xs key < length xs \<Longrightarrow> xs ! std_find xs key = key"
  by (induction xs) auto

lemma std_find_absent: "std_find xs key = length xs \<longleftrightarrow> key \<notin> set xs"
  by (induction xs) auto

lemma arr_has_iff [simp]: "arr_has xs key \<longleftrightarrow> key \<in> set xs"
  by (simp add: arr_has_def std_find_absent)

lemma get_keys_eq [simp]: "get_keys m = map fst m"
proof -
  have "foldl (\<lambda>keys e. keys @ [fst e]) acc m = acc @ map fst m" for acc
    by (induction m arbitrary: acc) auto
  then show ?thesis by (simp add: get_keys_def)
qed

lemma map_keyset_eq [simp]: "map_keyset m = fst ` set m"
proof -
  have "foldl (\<lambda>k p. insert (fst p) k) acc m = acc \<union> fst ` set m" for acc
    by (induction m arbitrary: acc) auto
  then show ?thesis by (simp add: map_keyset_def)
qed

section \<open>The interfaces\<close>

text \<open>What the search functions need of a container: \<open>find\<close> agrees with the entries.\<close>

locale searchable =
  fixes fnd :: "'s \<Rightarrow> 'k \<Rightarrow> 'v option" and entries :: "'s \<Rightarrow> ('k \<times> 'v) list" and ok :: "'s \<Rightarrow> bool"
  assumes entries_distinct: "ok s \<Longrightarrow> distinct (map fst (entries s))"
    and find_entries: "ok s \<Longrightarrow> fnd s k = map_of (entries s) k"
begin

lemma find_iff: "ok s \<Longrightarrow> fnd s k = Some v \<longleftrightarrow> (k, v) \<in> set (entries s)"
  using find_entries entries_distinct by (metis map_of_eq_Some_iff)

lemma has_iff: "ok s \<Longrightarrow> has fnd s k \<longleftrightarrow> k \<in> fst ` set (entries s)"
  by (simp add: has_def find_entries map_of_eq_None_iff)

lemma get_found: "ok s \<Longrightarrow> (k, v) \<in> set (entries s) \<Longrightarrow>
    get_val fnd old s k = (True, v) \<and> try_get fnd s k d = v \<and> must_getf ff fnd s k msg args = Inr v"
  using find_iff by (force simp: get_val_def try_get_def must_getf_def)

lemma get_missing: "ok s \<Longrightarrow> k \<notin> fst ` set (entries s) \<Longrightarrow>
    get_val fnd old s k = (False, old) \<and> try_get fnd s k d = d \<and>
    (\<forall>e. ff msg args = Some e \<longrightarrow> must_getf ff fnd s k msg args = Inl e)"
  by (auto simp: has_iff [symmetric] has_def get_val_def try_get_def must_getf_def)

end

text \<open>A map that can be changed, as far as \<open>HashList\<close> and \<open>ConfigMap\<close> change theirs.\<close>

locale hash_map = searchable fnd entries ok
  for fnd :: "'s \<Rightarrow> 'k \<Rightarrow> 'v option" and entries :: "'s \<Rightarrow> ('k \<times> 'v) list" and ok :: "'s \<Rightarrow> bool" +
  fixes new :: 's and emplace :: "'k \<Rightarrow> 'v \<Rightarrow> 's \<Rightarrow> 's" and assign :: "'k \<Rightarrow> 'v \<Rightarrow> 's \<Rightarrow> 's"
    and erase :: "'k \<Rightarrow> 's \<Rightarrow> 's"
  assumes new_ok: "ok new" and new_entries: "entries new = []"
    and emplace_ok: "ok s \<Longrightarrow> ok (emplace k v s)"
    and emplace_entries: "ok s \<Longrightarrow> set (entries (emplace k v s)) =
      (if k \<in> fst ` set (entries s) then set (entries s) else insert (k, v) (set (entries s)))"
    and assign_ok: "ok s \<Longrightarrow> ok (assign k v s)"
    and assign_entries: "ok s \<Longrightarrow> set (entries (assign k v s)) =
      insert (k, v) {e \<in> set (entries s). fst e \<noteq> k}"
    and erase_ok: "ok s \<Longrightarrow> ok (erase k s)"
    and erase_entries: "ok s \<Longrightarrow> set (entries (erase k s)) = {e \<in> set (entries s). fst e \<noteq> k}"
begin

lemma new_find: "fnd new k = None"
  using find_entries [OF new_ok] new_entries by simp

lemma assign_find: "ok s \<Longrightarrow> fnd (assign k v s) k' = (if k' = k then Some v else fnd s k')"
proof -
  assume ok: "ok s"
  have "fnd (assign k v s) k' = Some w \<longleftrightarrow> (if k' = k then Some v else fnd s k') = Some w" for w
    using find_iff [OF assign_ok [OF ok]] find_iff [OF ok] assign_entries [OF ok] by auto
  then show ?thesis by (metis option.exhaust)
qed

lemma erase_find: "ok s \<Longrightarrow> fnd (erase k s) k' = (if k' = k then None else fnd s k')"
proof -
  assume ok: "ok s"
  have "fnd (erase k s) k' = Some w \<longleftrightarrow> (if k' = k then None else fnd s k') = Some w" for w
    using find_iff [OF erase_ok [OF ok]] find_iff [OF ok] erase_entries [OF ok] by auto
  then show ?thesis by (metis option.exhaust)
qed

lemma emplace_find: "ok s \<Longrightarrow> fnd (emplace k v s) k' =
    (if k' = k \<and> fnd s k = None then Some v else fnd s k')"
proof (cases "fnd s k")
  case None
  assume ok: "ok s"
  with None have new: "k \<notin> fst ` set (entries s)" using has_iff by (force simp: has_def)
  have "fnd (emplace k v s) k' = Some w \<longleftrightarrow> (if k' = k then Some v else fnd s k') = Some w" for w
    using find_iff [OF emplace_ok [OF ok]] find_iff [OF ok] emplace_entries [OF ok, of k v] new
    by (auto simp: image_iff)
  with None show ?thesis by (metis option.exhaust)
next
  case (Some u)
  assume ok: "ok s"
  with Some have "k \<in> fst ` set (entries s)" using has_iff by (force simp: has_def)
  then have "fnd (emplace k v s) k' = Some w \<longleftrightarrow> fnd s k' = Some w" for w
    using find_iff [OF emplace_ok [OF ok]] find_iff [OF ok] emplace_entries [OF ok, of k v] by simp
  with Some show ?thesis by (metis option.exhaust option.distinct(1))
qed

end

section \<open>The interpretations\<close>

lemma umap_ok_update: "umap_ok m \<Longrightarrow> umap_ok (umap_assign k v m)"
  by (simp add: umap_ok_def umap_assign_def distinct_update)

lemma umap_ok_emplace: "umap_ok m \<Longrightarrow> umap_ok (umap_emplace k v m)"
  by (simp add: umap_ok_def umap_emplace_def umap_find_def map_of_eq_None_iff)

lemma umap_ok_erase: "umap_ok m \<Longrightarrow> umap_ok (umap_erase k m)"
  by (simp add: umap_ok_def umap_erase_def distinct_delete)

lemma set_umap_assign: "umap_ok m \<Longrightarrow> set (umap_assign k v m) = insert (k, v) {e \<in> set m. fst e \<noteq> k}"
  unfolding umap_ok_def umap_assign_def
  by (induction m) (auto simp: image_iff)

lemma set_umap_erase: "set (umap_erase k m) = {e \<in> set m. fst e \<noteq> k}"
  unfolding umap_erase_def by (auto simp: AList.delete_eq)

lemma set_umap_emplace: "set (umap_emplace k v m) =
    (if k \<in> fst ` set m then set m else insert (k, v) (set m))"
  by (auto simp: umap_emplace_def umap_find_def map_of_eq_None_iff)

interpretation um: hash_map umap_find "\<lambda>m. m" umap_ok "[]" umap_emplace umap_assign umap_erase
  by unfold_locales
    (simp_all add: umap_ok_update umap_ok_emplace umap_ok_erase set_umap_assign set_umap_erase
      set_umap_emplace, simp_all add: umap_ok_def umap_find_def)

text \<open>
  A \<open>std::unordered_set\<close> is the list of its elements; \<open>has\<close> is used on it as well, with
  the entry of an element being the element itself.
\<close>

definition uset_find :: "'k list \<Rightarrow> 'k \<Rightarrow> 'k option" where
  "uset_find s k = List.find (\<lambda>x. x = k) s"

interpretation us: searchable uset_find "map (\<lambda>k. (k, k))" distinct
proof unfold_locales
  show "uset_find s k = map_of (map (\<lambda>k. (k, k)) s) k" for s and k :: 'a
    unfolding uset_find_def by (induction s) auto
qed (simp add: comp_def)

section \<open>Properties\<close>

text \<open>
  On a well-formed map, the four lookups agree with its entries: \<open>has\<close> finds exactly
  the keys that \<open>get_keys\<close> and \<open>map_keyset\<close> list; for a key that is present \<open>get\<close>,
  \<open>try_get\<close> and \<open>must_getf\<close> all give its value; for one that is absent \<open>get\<close> leaves the
  target alone, \<open>try_get\<close> gives the default and \<open>must_getf\<close> raises the logger's exception.
\<close>

lemma lookups_agree:
  assumes "umap_ok m"
  shows "(has umap_find m k \<longleftrightarrow> k \<in> set (get_keys m)) \<and> set (get_keys m) = map_keyset m \<and>
    distinct (get_keys m) \<and>
    (if has umap_find m k
     then \<exists>v. (k, v) \<in> set m \<and> get_val umap_find old m k = (True, v) \<and> try_get umap_find m k d = v \<and>
       must_getf ff umap_find m k msg args = Inr v
     else get_val umap_find old m k = (False, old) \<and> try_get umap_find m k d = d \<and>
       (\<forall>e. ff msg args = Some e \<longrightarrow> must_getf ff umap_find m k msg args = Inl e))"
proof (cases "has umap_find m k")
  case True
  with um.has_iff [OF assms] obtain v where "(k, v) \<in> set m" by auto
  from um.get_found [OF assms this, of old d ff msg args] this True um.has_iff [OF assms, of k] assms
  show ?thesis by (simp add: umap_ok_def)
next
  case False
  then have "k \<notin> fst ` set m" using um.has_iff [OF assms] by simp
  from um.get_missing [OF assms this] False this assms show ?thesis by (simp add: umap_ok_def)
qed

end
