(* ===== verification/Hash_List.thy ===== *)
theory Hash_List
  imports Contain
begin

text \<open>
  The code of \<open>cppkg/estd/hashlist.h\<close>: a list without repetitions, with a hash map from each
  value to its position. A \<open>std::list\<close> is the list of its nodes, each with an identity that
  no operation on other nodes changes; an iterator is the identity of a node, or \<open>None\<close> for
  \<open>end()\<close>. A \<open>const T&\<close> argument is a value of its own or a reference to an element.
\<close>

section \<open>The structure\<close>

type_synonym iter = "nat option"

record 'a hashlist =
  lst :: "(nat \<times> 'a) list"
  umap :: "('a, iter) umap"
  fresh :: nat

datatype 'a arg = Temp 'a | Elem nat

definition new_hashlist :: "'a hashlist" where
  "new_hashlist = \<lparr>lst = [], umap = [], fresh = 0\<rparr>"

definition vals :: "'a hashlist \<Rightarrow> 'a list" where
  "vals h = map snd (lst h)"

definition deref :: "'a hashlist \<Rightarrow> iter \<Rightarrow> 'a res" where
  "deref h it = (case it of None \<Rightarrow> Inl Undefined
     | Some i \<Rightarrow> (case map_of (lst h) i of None \<Rightarrow> Inl Undefined | Some v \<Rightarrow> Inr v))"

definition read_arg :: "'a hashlist \<Rightarrow> 'a arg \<Rightarrow> 'a res" where
  "read_arg h a = (case a of Temp v \<Rightarrow> Inr v | Elem i \<Rightarrow> deref h (Some i))"

text \<open>\<open>std::list::insert\<close> and \<open>erase\<close>; a position that is no node of the list is undefined.\<close>

primrec place :: "nat \<Rightarrow> nat \<times> 'a \<Rightarrow> (nat \<times> 'a) list \<Rightarrow> (nat \<times> 'a) list" where
  "place i node [] = [node]"
| "place i node (e # es) = (if fst e = i then node # e # es else e # place i node es)"

definition list_insert :: "iter \<Rightarrow> nat \<times> 'a \<Rightarrow> (nat \<times> 'a) list \<Rightarrow> (nat \<times> 'a) list res" where
  "list_insert it node es = (case it of None \<Rightarrow> Inr (es @ [node])
     | Some i \<Rightarrow> if i \<in> fst ` set es then Inr (place i node es) else Inl Undefined)"

definition list_erase :: "iter \<Rightarrow> (nat \<times> 'a) list \<Rightarrow> (nat \<times> 'a) list res" where
  "list_erase it es = (case it of None \<Rightarrow> Inl Undefined
     | Some i \<Rightarrow> if i \<in> fst ` set es then Inr (filter (\<lambda>e. fst e \<noteq> i) es) else Inl Undefined)"

section \<open>The operations\<close>

definition begin_iter :: "'a hashlist \<Rightarrow> iter" where
  "begin_iter h = (case lst h of [] \<Rightarrow> None | e # es \<Rightarrow> Some (fst e))"

definition end_iter :: "'a hashlist \<Rightarrow> iter" where
  "end_iter h = None"

definition hl_size :: "'a hashlist \<Rightarrow> nat" where
  "hl_size h = length (lst h)"

definition hl_empty :: "'a hashlist \<Rightarrow> bool" where
  "hl_empty h = (lst h = [])"

definition hl_front :: "'a hashlist \<Rightarrow> 'a res" where
  "hl_front h = (if lst h = [] then Inl Undefined else Inr (snd (hd (lst h))))"

definition hl_back :: "'a hashlist \<Rightarrow> 'a res" where
  "hl_back h = (if lst h = [] then Inl Undefined else Inr (snd (last (lst h))))"

text \<open>\<open>push_back\<close>: \<open>has\<close> and \<open>at\<close> are one look at the map.\<close>

definition push_back :: "'a hashlist \<Rightarrow> 'a \<Rightarrow> iter \<times> 'a hashlist" where
  "push_back h val =
     (case umap_find (umap h) val of
        Some it \<Rightarrow> (it, h)
      | None \<Rightarrow>
          let position = Some (fresh h)
          in (position, h\<lparr>lst := lst h @ [(fresh h, val)], umap := umap_assign val position (umap h),
                fresh := Suc (fresh h)\<rparr>))"

definition hashlist_of :: "'a list \<Rightarrow> 'a hashlist" where
  "hashlist_of xs = foldl (\<lambda>h v. snd (push_back h v)) new_hashlist xs"

definition pop_back :: "'a hashlist \<Rightarrow> 'a hashlist" where
  "pop_back h =
     (if lst h = [] then h
      else h\<lparr>umap := umap_erase (snd (last (lst h))) (umap h), lst := butlast (lst h)\<rparr>)"

definition insert_at :: "'a hashlist \<Rightarrow> iter \<Rightarrow> 'a \<Rightarrow> (iter \<times> 'a hashlist) res" where
  "insert_at h position val =
     (case umap_find (umap h) val of
        Some it \<Rightarrow> Inr (it, h)
      | None \<Rightarrow> bind_res (list_insert position (fresh h, val) (lst h)) (\<lambda>es.
          let position' = Some (fresh h)
          in Inr (position', h\<lparr>lst := es, umap := umap_assign val position' (umap h),
                fresh := Suc (fresh h)\<rparr>)))"

text \<open>\<open>erase\<close> reads its argument again after the list node is gone.\<close>

definition erase :: "'a hashlist \<Rightarrow> 'a arg \<Rightarrow> 'a hashlist res" where
  "erase h val =
     bind_res (read_arg h val) (\<lambda>v.
     case umap_find (umap h) v of
       None \<Rightarrow> Inr h
     | Some it \<Rightarrow>
         bind_res (list_erase it (lst h)) (\<lambda>es.
         let h' = h\<lparr>lst := es\<rparr>
         in bind_res (read_arg h' val) (\<lambda>v'. Inr (h'\<lparr>umap := umap_erase v' (umap h')\<rparr>))))"

definition clear :: "'a hashlist \<Rightarrow> 'a hashlist" where
  "clear h = h\<lparr>umap := [], lst := []\<rparr>"

text \<open>An assignment through \<open>front()\<close>, \<open>back()\<close> or an iterator, which are not \<open>const\<close>.\<close>

definition assign_elem :: "'a hashlist \<Rightarrow> nat \<Rightarrow> 'a \<Rightarrow> 'a hashlist" where
  "assign_elem h i v = h\<lparr>lst := map (\<lambda>e. if fst e = i then (i, v) else e) (lst h)\<rparr>"

section \<open>The invariant\<close>

definition hl_ok :: "'a hashlist \<Rightarrow> bool" where
  "hl_ok h \<longleftrightarrow> distinct (map fst (lst h)) \<and> distinct (vals h) \<and> (\<forall>e \<in> set (lst h). fst e < fresh h) \<and>
     umap_ok (umap h) \<and> set (umap h) = (\<lambda>(i, v). (v, Some i)) ` set (lst h)"

lemma hl_okD:
  assumes "hl_ok h"
  shows "distinct (map fst (lst h))" and "distinct (map snd (lst h))"
    and "(i, v) \<in> set (lst h) \<Longrightarrow> i < fresh h" and "umap_ok (umap h)"
    and "set (umap h) = (\<lambda>(i, v). (v, Some i)) ` set (lst h)"
  using assms by (auto simp: hl_ok_def vals_def)

lemma hl_find:
  assumes "hl_ok h"
  shows "umap_find (umap h) v = Some it \<longleftrightarrow> (\<exists>i. it = Some i \<and> (i, v) \<in> set (lst h))"
  using um.find_iff [OF hl_okD(4) [OF assms]] hl_okD(5) [OF assms] by force

lemma hl_find_None:
  assumes "hl_ok h"
  shows "umap_find (umap h) v = None \<longleftrightarrow> v \<notin> set (vals h)"
  using um.has_iff [OF hl_okD(4) [OF assms], of v] hl_okD(5) [OF assms]
  by (force simp: has_def vals_def)

lemma deref_iff:
  assumes "hl_ok h"
  shows "deref h it = Inr v \<longleftrightarrow> (\<exists>i. it = Some i \<and> (i, v) \<in> set (lst h))"
  using map_of_eq_Some_iff [OF hl_okD(1) [OF assms]]
  by (auto simp: deref_def split: option.splits) (metis option.distinct(1) option.inject)+

lemma vals_new [simp]: "vals new_hashlist = []"
  by (simp add: vals_def new_hashlist_def)

lemma hl_ok_new: "hl_ok new_hashlist"
  by (simp add: hl_ok_def vals_def new_hashlist_def um.new_ok)

text \<open>One lemma for the two operations that add a node: wherever it goes, the list is well formed.\<close>

lemma add_node_ok:
  assumes ok: "hl_ok h" and new: "v \<notin> set (vals h)"
    and es: "set es = insert (fresh h, v) (set (lst h))" "length es = Suc (length (lst h))"
  shows "hl_ok (h\<lparr>lst := es, umap := umap_assign v (Some (fresh h)) (umap h), fresh := Suc (fresh h)\<rparr>)"
proof -
  note d = hl_okD [OF ok]
  have notin: "fresh h \<notin> fst ` set (lst h)" "v \<notin> snd ` set (lst h)"
    using d(3) new by (force, simp add: vals_def)
  have "distinct (map fst es)"
    by (rule card_distinct) (use es notin d(1) in \<open>simp add: distinct_card [of "map fst (lst h)", simplified]\<close>)
  moreover have "distinct (map snd es)"
    by (rule card_distinct) (use es notin d(2) in \<open>simp add: distinct_card [of "map snd (lst h)", simplified]\<close>)
  moreover have "\<forall>e \<in> set es. fst e < Suc (fresh h)" using es d(3) by (auto simp: less_Suc_eq)
  moreover have "umap_ok (umap_assign v (Some (fresh h)) (umap h))" by (rule um.assign_ok [OF d(4)])
  moreover have "{e \<in> set (umap h). fst e \<noteq> v} = (\<lambda>(i, v). (v, Some i)) ` set (lst h)"
    using d(5) notin by (force simp: image_iff)
  then have "set (umap_assign v (Some (fresh h)) (umap h)) = (\<lambda>(i, v). (v, Some i)) ` set es"
    using um.assign_entries [OF d(4)] es by auto
  ultimately show ?thesis by (simp add: hl_ok_def vals_def)
qed

text \<open>And one for the operations that take a node away.\<close>

lemma remove_node_ok:
  assumes ok: "hl_ok h" and node: "(i, v) \<in> set (lst h)"
  shows "hl_ok (h\<lparr>lst := filter (\<lambda>e. fst e \<noteq> i) (lst h), umap := umap_erase v (umap h)\<rparr>)"
    and "map snd (filter (\<lambda>e. fst e \<noteq> i) (lst h)) = filter (\<lambda>x. x \<noteq> v) (vals h)"
proof -
  note d = hl_okD [OF ok]
  have same: "fst e = i \<longleftrightarrow> snd e = v" if "e \<in> set (lst h)" for e
    using that node d(1,2) by (metis distinct_map inj_on_eq_iff fst_conv snd_conv)
  have filter_eq: "filter (\<lambda>e. fst e \<noteq> i) (lst h) = filter (\<lambda>e. snd e \<noteq> v) (lst h)"
    using same by (intro filter_cong) auto
  show "map snd (filter (\<lambda>e. fst e \<noteq> i) (lst h)) = filter (\<lambda>x. x \<noteq> v) (vals h)"
    by (simp add: filter_eq vals_def filter_map comp_def)
  have "set (umap_erase v (umap h)) = (\<lambda>(i, v). (v, Some i)) ` {e \<in> set (lst h). snd e \<noteq> v}"
    using um.erase_entries [OF d(4), of v] d(5) by force
  then show "hl_ok (h\<lparr>lst := filter (\<lambda>e. fst e \<noteq> i) (lst h), umap := umap_erase v (umap h)\<rparr>)"
    using d um.erase_ok [OF d(4), of v] filter_eq
    by (auto simp: hl_ok_def vals_def distinct_map_filter)
qed


section \<open>The operations on the list of values\<close>

lemma push_back_old: "hl_ok h \<Longrightarrow> v \<in> set (vals h) \<Longrightarrow>
    \<exists>it. push_back h v = (it, h) \<and> deref h it = Inr v"
  using hl_find [of h v] hl_find_None [of h v] deref_iff [of h _ v]
  by (cases "umap_find (umap h) v") (auto simp: push_back_def)

lemma push_back_new:
  assumes ok: "hl_ok h" and new: "v \<notin> set (vals h)"
  shows "fst (push_back h v) = Some (fresh h)" and "hl_ok (snd (push_back h v))"
    and "lst (snd (push_back h v)) = lst h @ [(fresh h, v)]"
  using hl_find_None [OF ok, of v] new add_node_ok [OF ok new, of "lst h @ [(fresh h, v)]"]
  by (auto simp: push_back_def Let_def)

lemma push_back_correct:
  assumes ok: "hl_ok h"
  shows "hl_ok (snd (push_back h v))"
    and "vals (snd (push_back h v)) = (if v \<in> set (vals h) then vals h else vals h @ [v])"
    and "deref (snd (push_back h v)) (fst (push_back h v)) = Inr v"
proof (atomize (full), cases "v \<in> set (vals h)")
  case True
  with push_back_old [OF ok] obtain it where "push_back h v = (it, h)" "deref h it = Inr v" by blast
  with True ok show "hl_ok (snd (push_back h v)) \<and>
      vals (snd (push_back h v)) = (if v \<in> set (vals h) then vals h else vals h @ [v]) \<and>
      deref (snd (push_back h v)) (fst (push_back h v)) = Inr v" by simp
next
  case False
  note n = push_back_new [OF ok False]
  have "deref (snd (push_back h v)) (fst (push_back h v)) = Inr v"
    using deref_iff [OF n(2)] n by simp
  with n(2,3) False show "hl_ok (snd (push_back h v)) \<and>
      vals (snd (push_back h v)) = (if v \<in> set (vals h) then vals h else vals h @ [v]) \<and>
      deref (snd (push_back h v)) (fst (push_back h v)) = Inr v" by (simp add: vals_def)
qed

lemma erase_correct:
  assumes ok: "hl_ok h"
  shows "\<exists>h'. erase h (Temp v) = Inr h' \<and> hl_ok h' \<and> vals h' = filter (\<lambda>x. x \<noteq> v) (vals h)"
proof (cases "v \<in> set (vals h)")
  case True
  then obtain i where node: "(i, v) \<in> set (lst h)" by (auto simp: vals_def)
  then have "umap_find (umap h) v = Some (Some i)" using hl_find [OF ok] by blast
  moreover have "list_erase (Some i) (lst h) = Inr (filter (\<lambda>e. fst e \<noteq> i) (lst h))"
    using node by (force simp: list_erase_def)
  ultimately have "erase h (Temp v) =
      Inr (h\<lparr>lst := filter (\<lambda>e. fst e \<noteq> i) (lst h), umap := umap_erase v (umap h)\<rparr>)"
    by (simp add: erase_def read_arg_def)
  with remove_node_ok [OF ok node] show ?thesis by (simp add: vals_def)
next
  case False
  then have "filter (\<lambda>x. x \<noteq> v) (vals h) = vals h" by (auto intro: filter_True)
  with False ok show ?thesis by (simp add: erase_def read_arg_def hl_find_None [THEN iffD2])
qed

lemma pop_back_correct:
  assumes ok: "hl_ok h"
  shows "hl_ok (pop_back h)" and "vals (pop_back h) = butlast (vals h)"
proof (atomize (full), cases "lst h" rule: rev_cases)
  case Nil
  with ok show "hl_ok (pop_back h) \<and> vals (pop_back h) = butlast (vals h)"
    by (simp add: pop_back_def vals_def)
next
  case (snoc es e)
  have "fst e \<notin> fst ` set es" using hl_okD(1) [OF ok] snoc by simp
  then have "\<forall>x \<in> set es. fst x \<noteq> fst e" by (metis image_eqI)
  then have "filter (\<lambda>x. fst x \<noteq> fst e) (lst h) = es" using snoc by (simp add: filter_True)
  moreover have "(fst e, snd e) \<in> set (lst h)" using snoc by simp
  ultimately have "hl_ok (h\<lparr>lst := es, umap := umap_erase (snd e) (umap h)\<rparr>)"
    using remove_node_ok(1) [OF ok] by metis
  then show "hl_ok (pop_back h) \<and> vals (pop_back h) = butlast (vals h)"
    using snoc by (simp add: pop_back_def vals_def hl_ok_def)
qed

lemma clear_correct: "hl_ok h \<Longrightarrow> hl_ok (clear h) \<and> vals (clear h) = []"
  by (simp add: hl_ok_def clear_def vals_def um.new_ok)

lemma place_split: "i \<notin> fst ` set as \<Longrightarrow> place i node (as @ (i, w) # bs) = as @ node # (i, w) # bs"
  by (induction as) auto

lemma insert_at_correct:
  assumes ok: "hl_ok h" and new: "v \<notin> set (vals h)"
    and at: "deref h it = Inr y" and split: "vals h = xs @ y # ys"
  shows "\<exists>it' h'. insert_at h it v = Inr (it', h') \<and> hl_ok h' \<and> vals h' = xs @ v # y # ys \<and>
    deref h' it' = Inr v \<and> (\<forall>it2 w. deref h it2 = Inr w \<longrightarrow> deref h' it2 = Inr w)"
proof -
  from at deref_iff [OF ok] obtain i where i: "it = Some i" "(i, y) \<in> set (lst h)" by blast
  then obtain as bs where es: "lst h = as @ (i, y) # bs" by (meson split_list)
  have i_new: "i \<notin> fst ` set as" using hl_okD(1) [OF ok] es by force
  have "y \<notin> set (map snd as)" and "distinct (vals h)" using hl_okD(2) [OF ok] es by (auto simp: vals_def)
  moreover have "map snd as @ y # map snd bs = xs @ y # ys" using split es by (simp add: vals_def)
  ultimately have sides: "map snd as = xs" "map snd bs = ys"
    using split by (auto simp: append_eq_append_conv2 Cons_eq_append_conv append_eq_Cons_conv)
  let ?es = "as @ (fresh h, v) # (i, y) # bs"
  let ?h = "h\<lparr>lst := ?es, umap := umap_assign v (Some (fresh h)) (umap h), fresh := Suc (fresh h)\<rparr>"
  have "list_insert it (fresh h, v) (lst h) = Inr ?es"
    using i es place_split [OF i_new] by (force simp: list_insert_def)
  then have "insert_at h it v = Inr (Some (fresh h), ?h)"
    using hl_find_None [OF ok, of v] new by (simp add: insert_at_def Let_def)
  moreover have ok': "hl_ok ?h" by (rule add_node_ok [OF ok new]) (auto simp: es)
  moreover have "vals ?h = xs @ v # y # ys" using sides by (simp add: vals_def)
  moreover have "deref ?h (Some (fresh h)) = Inr v" using deref_iff [OF ok'] by simp
  moreover have "deref ?h it2 = Inr w" if "deref h it2 = Inr w" for it2 w
    using that deref_iff [OF ok] deref_iff [OF ok', of it2 w] es by auto
  ultimately show ?thesis by blast
qed

section \<open>The contract of a list without repetitions\<close>

locale unique_list =
  fixes elems :: "'s \<Rightarrow> 'a list" and good :: "'s \<Rightarrow> bool" and start :: 's
    and push :: "'s \<Rightarrow> 'a \<Rightarrow> 's" and remove :: "'s \<Rightarrow> 'a \<Rightarrow> 's res"
  assumes start_good: "good start" and start_elems: "elems start = []"
    and push_good: "good s \<Longrightarrow> good (push s v)"
    and push_elems: "good s \<Longrightarrow> elems (push s v) = (if v \<in> set (elems s) then elems s else elems s @ [v])"
    and remove_elems: "good s \<Longrightarrow>
      \<exists>s'. remove s v = Inr s' \<and> good s' \<and> elems s' = filter (\<lambda>x. x \<noteq> v) (elems s)"
begin

lemma elems_push_all: "good s \<Longrightarrow> good (foldl push s xs) \<and>
    elems (foldl push s xs) = elems s @ rev (remdups (rev (filter (\<lambda>x. x \<notin> set (elems s)) xs)))"
proof (induction xs rule: rev_induct)
  case Nil
  then show ?case by simp
next
  case (snoc x xs)
  let ?s = "foldl push s xs"
  from snoc have s: "good ?s"
    "elems ?s = elems s @ rev (remdups (rev (filter (\<lambda>x. x \<notin> set (elems s)) xs)))" by blast+
  have "set (elems ?s) = set (elems s) \<union> set xs" using s(2) by auto
  with push_good [OF s(1)] push_elems [OF s(1), of x] s(2) show ?case by auto
qed

lemma elems_of: "elems (foldl push start xs) = rev (remdups (rev xs)) \<and> good (foldl push start xs)"
  using elems_push_all [OF start_good, of xs] start_elems by simp

lemma remove_then_push: "good s \<Longrightarrow> v \<in> set (elems s) \<Longrightarrow>
    \<exists>s'. remove s v = Inr s' \<and> elems (push s' v) = filter (\<lambda>x. x \<noteq> v) (elems s) @ [v]"
  using remove_elems [of s v] push_elems by (metis (mono_tags, lifting) mem_Collect_eq set_filter)

end

interpretation hl: unique_list vals hl_ok new_hashlist "\<lambda>h v. snd (push_back h v)" "\<lambda>h v. erase h (Temp v)"
  by unfold_locales (simp_all add: hl_ok_new push_back_correct erase_correct)

lemma hashlist_of_keeps: "vals (hashlist_of xs) = rev (remdups (rev xs))"
  and hashlist_of_ok: "hl_ok (hashlist_of xs)"
  using hl.elems_of [of xs] by (simp_all add: hashlist_of_def)

section \<open>Properties\<close>

text \<open>
  C7. On a well-formed \<open>HashList\<close>, whose list has no repetitions and whose map leads from
  every value to its node, the operations keep it well formed and act on the list of values:
  \<open>push_back\<close> appends a value that is not there yet and returns an iterator to it in either
  case, \<open>pop_back\<close> drops the last value, \<open>erase\<close> removes a value, \<open>clear\<close> removes all.
\<close>

theorem hashlist_operations:
  assumes "hl_ok h"
  shows "hl_ok (snd (push_back h v)) \<and>
    vals (snd (push_back h v)) = (if v \<in> set (vals h) then vals h else vals h @ [v]) \<and>
    deref (snd (push_back h v)) (fst (push_back h v)) = Inr v \<and>
    hl_ok (pop_back h) \<and> vals (pop_back h) = butlast (vals h) \<and>
    (\<exists>h'. erase h (Temp v) = Inr h' \<and> hl_ok h' \<and> vals h' = filter (\<lambda>x. x \<noteq> v) (vals h)) \<and>
    hl_ok (clear h) \<and> vals (clear h) = []"
  using push_back_correct [OF assms] pop_back_correct [OF assms] erase_correct [OF assms]
    clear_correct [OF assms] by blast

theorem hashlist_operations_witness:
  "vals (snd (push_back (hashlist_of [3::nat, 1]) 2)) =
     (if 2 \<in> set (vals (hashlist_of [3::nat, 1])) then vals (hashlist_of [3, 1]) else vals (hashlist_of [3, 1]) @ [2])"
proof -
  have "hl_ok (hashlist_of [3::nat, 1])" by (rule hashlist_of_ok)
  from hashlist_operations [OF this, of 2] show ?thesis by blast
qed

text \<open>
  Inserting a new value at an iterator puts it just before the element the iterator
  refers to, and every iterator that referred to an element still refers to the same one.
\<close>

lemma hashlist_insert:
  assumes "hl_ok h" and "v \<notin> set (vals h)" and "deref h it = Inr y" and "vals h = xs @ y # ys"
  shows "\<exists>it' h'. insert_at h it v = Inr (it', h') \<and> hl_ok h' \<and> vals h' = xs @ v # y # ys \<and>
    deref h' it' = Inr v \<and> (\<forall>it2 w. deref h it2 = Inr w \<longrightarrow> deref h' it2 = Inr w)"
  by (rule insert_at_correct [OF assms])

text \<open>
  The constructor from a range keeps the first occurrence of every value, in order.
\<close>

lemma hashlist_of_keeps_first:
  "hl_ok (hashlist_of xs) \<and> vals (hashlist_of xs) = rev (remdups (rev xs))"
  by (simp add: hashlist_of_keeps hashlist_of_ok)

text \<open>
  \<open>erase\<close> applied to a reference to one of the list's own elements, as in
  \<open>l.erase(l.front())\<close>, reads the element after it has been destroyed.
\<close>

lemma erase_own_element_undefined:
  assumes "hl_ok h" and "deref h (Some i) = Inr v"
  shows "erase h (Elem i) = Inl Undefined"
proof -
  have node: "(i, v) \<in> set (lst h)" using deref_iff [OF assms(1), of "Some i" v] assms(2) by simp
  then have "umap_find (umap h) v = Some (Some i)" using hl_find [OF assms(1), of v "Some i"] by simp
  moreover have "list_erase (Some i) (lst h) = Inr (filter (\<lambda>e. fst e \<noteq> i) (lst h))"
    using node by (force simp: list_erase_def)
  moreover have "map_of (filter (\<lambda>e. fst e \<noteq> i) (lst h)) i = None"
    by (auto simp: map_of_eq_None_iff)
  ultimately show ?thesis using assms(2) by (simp add: erase_def read_arg_def deref_def)
qed

end
