(* ===== verification/Hash_List_Iter.thy ===== *)
theory Hash_List_Iter
  imports Hash_List
begin

text \<open>
  Walking over a \<open>HashList\<close> with the iterators of \<open>cppkg/estd/hashlist.h\<close>, forwards and
  backwards, and what becomes of a copy of one.
\<close>

section \<open>Iterators\<close>

text \<open>\<open>++it\<close> and \<open>--it\<close> on the nodes of a \<open>std::list\<close>; \<open>None\<close> is the end.\<close>

fun node_after :: "nat \<Rightarrow> (nat \<times> 'a) list \<Rightarrow> iter res" where
  "node_after i [] = Inl Undefined"
| "node_after i (e # es) = (if fst e = i then Inr (case es of [] \<Rightarrow> None | e' # es' \<Rightarrow> Some (fst e')) else node_after i es)"

definition next_iter :: "'a hashlist \<Rightarrow> iter \<Rightarrow> iter res" where
  "next_iter h it = (case it of None \<Rightarrow> Inl Undefined | Some i \<Rightarrow> node_after i (lst h))"

fun node_before :: "iter \<Rightarrow> (nat \<times> 'a) list \<Rightarrow> iter res" where
  "node_before it [] = Inl Undefined"
| "node_before it (e # es) =
     (if it = (case es of [] \<Rightarrow> None | e' # es' \<Rightarrow> Some (fst e')) then Inr (Some (fst e)) else node_before it es)"

definition prev_iter :: "'a hashlist \<Rightarrow> iter \<Rightarrow> iter res" where
  "prev_iter h it = node_before it (lst h)"

text \<open>
  The loops \<open>for (it = l.begin(); it != l.end(); ++it)\<close> and the one from \<open>rbegin\<close> to \<open>rend\<close>,
  with the values read so far. A reverse iterator holds the position after its element.
\<close>

partial_function (option) traverse :: "'a hashlist \<Rightarrow> iter \<Rightarrow> 'a list \<Rightarrow> 'a list run" where
  [code]: "traverse h it vs =
     (if it = end_iter h then returns vs
      else case (deref h it, next_iter h it) of
             (Inr v, Inr it') \<Rightarrow> traverse h it' (vs @ [v])
           | _ \<Rightarrow> fails Undefined)"

definition rbegin_iter :: "'a hashlist \<Rightarrow> iter" where
  "rbegin_iter h = end_iter h"

definition rend_iter :: "'a hashlist \<Rightarrow> iter" where
  "rend_iter h = begin_iter h"

partial_function (option) rtraverse :: "'a hashlist \<Rightarrow> iter \<Rightarrow> 'a list \<Rightarrow> 'a list run" where
  [code]: "rtraverse h it vs =
     (if it = rend_iter h then returns vs
      else case prev_iter h it of
             Inl e \<Rightarrow> fails e
           | Inr it' \<Rightarrow>
               (case deref h it' of
                  Inl e \<Rightarrow> fails e
                | Inr v \<Rightarrow> rtraverse h it' (vs @ [v])))"

text \<open>The constant iterators are at the same positions.\<close>

definition cbegin_iter :: "'a hashlist \<Rightarrow> iter" where
  "cbegin_iter h = begin_iter h"

definition cend_iter :: "'a hashlist \<Rightarrow> iter" where
  "cend_iter h = end_iter h"

definition crbegin_iter :: "'a hashlist \<Rightarrow> iter" where
  "crbegin_iter h = end_iter h"

definition crend_iter :: "'a hashlist \<Rightarrow> iter" where
  "crend_iter h = begin_iter h"

text \<open>The position of the rest of the nodes.\<close>

definition start_of :: "(nat \<times> 'a) list \<Rightarrow> iter" where
  "start_of es = (case es of [] \<Rightarrow> None | e # es' \<Rightarrow> Some (fst e))"

lemma begin_iter_start: "begin_iter h = start_of (lst h)"
  by (simp add: begin_iter_def start_of_def)

lemma node_after_split: "fst e \<notin> fst ` set as \<Longrightarrow> node_after (fst e) (as @ e # es) = Inr (start_of es)"
  by (induction as) (auto simp: start_of_def)

lemma node_before_split:
  "distinct (map fst (as @ e # es)) \<Longrightarrow> node_before (start_of es) (as @ e # es) = Inr (Some (fst e))"
proof (induction as)
  case Nil
  then show ?case by (cases es) (simp_all add: start_of_def)
next
  case (Cons a as)
  have "start_of es \<noteq> start_of (as @ e # es)"
    using Cons(2) by (cases es; cases as) (auto simp: start_of_def)
  with Cons show ?case by (simp add: start_of_def [of "as @ e # es"])
qed

lemma traverse_from: "hl_ok h \<Longrightarrow> lst h = as @ es \<Longrightarrow> traverse h (start_of es) vs = returns (vs @ map snd es)"
proof (induction es arbitrary: as vs)
  case Nil
  then show ?case by (subst traverse.simps) (simp add: start_of_def end_iter_def)
next
  case (Cons e es)
  note d = hl_okD(1) [OF Cons(2)]
  have "deref h (Some (fst e)) = Inr (snd e)" using deref_iff [OF Cons(2)] Cons(3) by simp
  moreover have "next_iter h (Some (fst e)) = Inr (start_of es)"
    using d Cons(3) by (auto simp: next_iter_def intro!: node_after_split)
  moreover have "traverse h (start_of es) (vs @ [snd e]) = returns ((vs @ [snd e]) @ map snd es)"
    using Cons(1) [OF Cons(2), of "as @ [e]"] Cons(3) by simp
  ultimately show ?case by (subst traverse.simps) (simp add: start_of_def end_iter_def)
qed

lemma rtraverse_from: "hl_ok h \<Longrightarrow> lst h = as @ es \<Longrightarrow> rtraverse h (start_of es) vs = returns (vs @ rev (map snd as))"
proof (induction as arbitrary: es vs rule: rev_induct)
  case Nil
  then show ?case by (subst rtraverse.simps) (simp add: rend_iter_def begin_iter_start)
next
  case (snoc e as)
  note d = hl_okD(1) [OF snoc(2)]
  have "start_of es \<noteq> start_of (as @ e # es)"
    using d snoc(3) by (cases es; cases as) (auto simp: start_of_def)
  then have "start_of es \<noteq> rend_iter h" using snoc(3) by (simp add: rend_iter_def begin_iter_start)
  moreover have "prev_iter h (start_of es) = Inr (Some (fst e))"
    using d snoc(3) node_before_split [of as e es] by (simp add: prev_iter_def)
  moreover have "deref h (Some (fst e)) = Inr (snd e)" using deref_iff [OF snoc(2)] snoc(3) by simp
  moreover have "rtraverse h (Some (fst e)) (vs @ [snd e]) = returns ((vs @ [snd e]) @ rev (map snd as))"
    using snoc(1) [OF snoc(2), of "e # es"] snoc(3) by (simp add: start_of_def)
  ultimately show ?case by (subst rtraverse.simps) simp
qed

text \<open>
  The loop over a list from \<open>begin\<close> to \<open>end\<close> ends and reads its values in order, and the
  loop from \<open>rbegin\<close> to \<open>rend\<close> reads them in reverse; so do the loops with the constant
  iterators.
\<close>

lemma hashlist_traversal:
  assumes "hl_ok h"
  shows "traverse h (begin_iter h) [] = returns (vals h) \<and> rtraverse h (rbegin_iter h) [] = returns (rev (vals h)) \<and>
    traverse h (cbegin_iter h) [] = returns (vals h) \<and> cend_iter h = end_iter h \<and>
    rtraverse h (crbegin_iter h) [] = returns (rev (vals h)) \<and> crend_iter h = rend_iter h"
  using traverse_from [OF assms, of "[]" "lst h"] rtraverse_from [OF assms, of "lst h" "[]"]
  by (simp add: begin_iter_start rbegin_iter_def rend_iter_def end_iter_def cbegin_iter_def cend_iter_def
      crbegin_iter_def crend_iter_def vals_def start_of_def [of "[]"])

section \<open>Copies\<close>

text \<open>
  The implicit copy: the copy of the list has nodes of its own, from \<open>base\<close> on, but the copy
  of the map holds the iterators of the original.
\<close>

definition copy_hashlist :: "nat \<Rightarrow> 'a hashlist \<Rightarrow> 'a hashlist" where
  "copy_hashlist base h =
     \<lparr>lst = zip [base..<base + length (lst h)] (vals h), umap = umap h, fresh = base + length (lst h)\<rparr>"

text \<open>
  The implicit moves: the nodes and the map change their owner, and \<open>l\<close> and \<open>m\<close> are what the
  standard library leaves in the source. The target is as the source was, with every
  iterator; the source need not be well formed until it is cleared.
\<close>

definition move_hashlist :: "(nat \<times> 'a) list \<Rightarrow> ('a, iter) umap \<Rightarrow> 'a hashlist \<Rightarrow> 'a hashlist \<times> 'a hashlist" where
  "move_hashlist l m other = (other, other\<lparr>lst := l, umap := m\<rparr>)"

lemma hashlist_moves:
  assumes "hl_ok h" and "move_hashlist l m h = (this, other)"
  shows "hl_ok this \<and> vals this = vals h \<and> (\<forall>it. deref this it = deref h it) \<and> hl_ok (clear other)"
proof -
  have "hl_ok (clear other)" by (simp add: clear_def hl_ok_def vals_def um.new_ok)
  with assms show ?thesis by (simp add: move_hashlist_def)
qed

section \<open>Properties\<close>

text \<open>
  C37. A copy of a list shows the same values, but its map leads to the nodes of the original:
  erasing a value from the copy is undefined, and pushing a value it holds returns an
  iterator that is not one of the copy.
\<close>

theorem hashlist_copy_breaks:
  assumes "hl_ok h" and "fresh h \<le> base" and "v \<in> set (vals h)"
  shows "vals (copy_hashlist base h) = vals h \<and> erase (copy_hashlist base h) (Temp v) = Inl Undefined \<and>
    (\<exists>it. push_back (copy_hashlist base h) v = (it, copy_hashlist base h) \<and>
      deref (copy_hashlist base h) it = Inl Undefined)"
proof -
  let ?c = "copy_hashlist base h"
  obtain i where i: "(i, v) \<in> set (lst h)" using assms(3) by (auto simp: vals_def)
  then have find: "umap_find (umap ?c) v = Some (Some i)" using hl_find [OF assms(1)] by (simp add: copy_hashlist_def)
  have "i < base" using hl_okD(3) [OF assms(1) i] assms(2) by simp
  then have other: "i \<notin> fst ` set (lst ?c)" by (auto simp: copy_hashlist_def dest: set_zip_leftD)
  have "vals ?c = vals h" by (simp add: copy_hashlist_def vals_def)
  moreover have "erase ?c (Temp v) = Inl Undefined"
    using find other by (simp add: erase_def read_arg_def list_erase_def)
  moreover have "push_back ?c v = (Some i, ?c)" using find by (simp add: push_back_def)
  moreover have "deref ?c (Some i) = Inl Undefined"
    using other by (simp add: deref_def map_of_eq_None_iff [THEN iffD2])
  ultimately show ?thesis by blast
qed

theorem hashlist_copy_breaks_witness:
  "erase (copy_hashlist 10 (hashlist_of [7 :: nat])) (Temp 7) = Inl Undefined"
proof -
  have "fresh (hashlist_of [7 :: nat]) \<le> 10" and "7 \<in> set (vals (hashlist_of [7 :: nat]))"
    by (simp_all add: hashlist_of_def push_back_def new_hashlist_def umap_find_def vals_def Let_def)
  from hashlist_copy_breaks [OF hashlist_of_ok this] show ?thesis by blast
qed

end
