(* ===== verification/Config_Map.thy ===== *)
theory Config_Map
  imports Contain "HOL-Library.Multiset"
begin

text \<open>
  The code of \<open>cppkg/estd/config.h\<close>: entries that own an object and the function deleting it,
  and maps that share such entries through \<open>std::shared_ptr\<close>. An address is a \<open>nat\<close>, with 0
  for \<open>nullptr\<close>; a deletion function is known by its identity, and calling one is an event
  \<open>(function, address)\<close> of a log.
\<close>

section \<open>Entries\<close>

record 'd cfg_entry =
  edata :: nat
  edeletion :: "'d option"

type_synonym 'd del_log = "('d \<times> nat) list"

definition entry_events :: "'d cfg_entry \<Rightarrow> 'd del_log" where
  "entry_events e = (case edeletion e of Some d \<Rightarrow> [(d, edata e)] | None \<Rightarrow> [])"

definition entry_destroy :: "'d cfg_entry \<Rightarrow> 'd del_log \<Rightarrow> 'd del_log" where
  "entry_destroy e log = log @ entry_events e"

text \<open>
  The moves give the new value of the target and that of the source. Moving a
  \<open>std::function\<close> leaves its source unspecified; \<open>left\<close> is what the library leaves there.
\<close>

definition entry_move :: "('d option \<Rightarrow> 'd option) \<Rightarrow> 'd cfg_entry \<Rightarrow> 'd cfg_entry \<times> 'd cfg_entry" where
  "entry_move left other =
     (\<lparr>edata = edata other, edeletion = edeletion other\<rparr>, other\<lparr>edeletion := left (edeletion other)\<rparr>)"

definition entry_move_assign ::
  "('d option \<Rightarrow> 'd option) \<Rightarrow> bool \<Rightarrow> 'd cfg_entry \<Rightarrow> 'd cfg_entry \<Rightarrow> 'd cfg_entry \<times> 'd cfg_entry" where
  "entry_move_assign left same this other =
     (if \<not> same
      then (this\<lparr>edata := edata other, edeletion := edeletion other\<rparr>,
            other\<lparr>edeletion := left (edeletion other)\<rparr>)
      else (this, other))"

section \<open>Shared entries\<close>

text \<open>
  The program's \<open>ConfigMap\<close> objects (\<open>None\<close> once destroyed), the entries made so far, each
  with whether it is still alive, and the log. A map holds indices of entries.
\<close>

record ('k, 'd) world =
  maps :: "('k, nat) umap option list"
  blocks :: "('d cfg_entry \<times> bool) list"
  deletions :: "'d del_log"

definition no_maps :: "('k, 'd) world" where
  "no_maps = \<lparr>maps = [], blocks = [], deletions = []\<rparr>"

definition refers :: "nat \<Rightarrow> ('k, nat) umap option \<Rightarrow> bool" where
  "refers i m = (case m of None \<Rightarrow> False | Some t \<Rightarrow> list_ex (\<lambda>e. snd e = i) t)"

definition used :: "nat \<Rightarrow> ('k, 'd) world \<Rightarrow> bool" where
  "used i w = list_ex (refers i) (maps w)"

text \<open>A \<open>shared_ptr\<close> to entry \<open>i\<close> has gone; if it was the last one, the entry is destroyed.\<close>

definition release :: "nat \<Rightarrow> ('k, 'd) world \<Rightarrow> ('k, 'd) world" where
  "release i w =
     (if used i w then w
      else w\<lparr>blocks := (blocks w)[i := (fst (blocks w ! i), False)],
             deletions := entry_destroy (fst (blocks w ! i)) (deletions w)\<rparr>)"

definition set_map :: "nat \<Rightarrow> ('k, nat) umap option \<Rightarrow> ('k, 'd) world \<Rightarrow> ('k, 'd) world" where
  "set_map m t w = w\<lparr>maps := (maps w)[m := t]\<rparr>"

definition the_map :: "nat \<Rightarrow> ('k, 'd) world \<Rightarrow> ('k, nat) umap res" where
  "the_map m w =
     (if m < length (maps w) then case maps w ! m of None \<Rightarrow> Inl Undefined | Some t \<Rightarrow> Inr t
      else Inl Undefined)"

section \<open>The operations of a map\<close>

definition cfg_get_keys :: "nat \<Rightarrow> ('k, 'd) world \<Rightarrow> 'k list res" where
  "cfg_get_keys m w = bind_res (the_map m w) (\<lambda>t. Inr (map fst t))"

definition has_key :: "nat \<Rightarrow> 'k \<Rightarrow> ('k, 'd) world \<Rightarrow> bool res" where
  "has_key m k w = bind_res (the_map m w) (\<lambda>t. Inr (has umap_find t k))"

definition get_obj :: "nat \<Rightarrow> 'k \<Rightarrow> ('k, 'd) world \<Rightarrow> nat res" where
  "get_obj m k w = bind_res (the_map m w) (\<lambda>t.
     case umap_find t k of Some i \<Rightarrow> Inr (edata (fst (blocks w ! i))) | None \<Rightarrow> Inr 0)"

text \<open>\<open>init\<close> is called only for a new key; \<open>p\<close> is the address it returns.\<close>

definition add_entry :: "nat \<Rightarrow> 'k \<Rightarrow> nat \<Rightarrow> 'd option \<Rightarrow> ('k, 'd) world \<Rightarrow> ('k, 'd) world res" where
  "add_entry m k p del w = bind_res (the_map m w) (\<lambda>t.
     if \<not> has umap_find t k
     then Inr (set_map m (Some (umap_emplace k (length (blocks w)) t))
            (w\<lparr>blocks := blocks w @ [(\<lparr>edata = p, edeletion = del\<rparr>, True)]\<rparr>))
     else Inr w)"

definition rm_entry :: "nat \<Rightarrow> 'k \<Rightarrow> ('k, 'd) world \<Rightarrow> ('k, 'd) world res" where
  "rm_entry m k w = bind_res (the_map m w) (\<lambda>t.
     case umap_find t k of
       Some i \<Rightarrow> Inr (release i (set_map m (Some (umap_erase k t)) w))
     | None \<Rightarrow> Inr w)"

text \<open>
  The implicit members: a new map is empty, a copy shares every entry, the destructor drops
  the entries one by one, and so does an assignment before it shares those of the other map.
\<close>

definition new_map :: "('k, 'd) world \<Rightarrow> ('k, 'd) world" where
  "new_map w = w\<lparr>maps := maps w @ [Some []]\<rparr>"

definition copy_map :: "nat \<Rightarrow> ('k, 'd) world \<Rightarrow> ('k, 'd) world res" where
  "copy_map m w = bind_res (the_map m w) (\<lambda>t. Inr (w\<lparr>maps := maps w @ [Some t]\<rparr>))"

fun drop_entries :: "nat \<Rightarrow> ('k, nat) umap \<Rightarrow> ('k, 'd) world \<Rightarrow> ('k, 'd) world" where
  "drop_entries m [] w = w"
| "drop_entries m (e # es) w = drop_entries m es (release (snd e) (set_map m (Some es) w))"

definition destroy_map :: "nat \<Rightarrow> ('k, 'd) world \<Rightarrow> ('k, 'd) world res" where
  "destroy_map m w = bind_res (the_map m w) (\<lambda>t. Inr (set_map m None (drop_entries m t w)))"

definition assign_map :: "nat \<Rightarrow> nat \<Rightarrow> ('k, 'd) world \<Rightarrow> ('k, 'd) world res" where
  "assign_map m n w = bind_res (the_map m w) (\<lambda>t. bind_res (the_map n w) (\<lambda>u.
     if m = n then Inr w else Inr (set_map m (Some u) (drop_entries m t w))))"

text \<open>
  The implicit moves hand the entries over. The standard only says that the source is valid;
  here it is empty, which is what the libraries leave. A map moved into itself is undefined.
\<close>

definition move_map :: "nat \<Rightarrow> ('k, 'd) world \<Rightarrow> ('k, 'd) world res" where
  "move_map m w = bind_res (the_map m w) (\<lambda>t.
     Inr (set_map m (Some []) (w\<lparr>maps := maps w @ [Some t]\<rparr>)))"

definition move_assign_map :: "nat \<Rightarrow> nat \<Rightarrow> ('k, 'd) world \<Rightarrow> ('k, 'd) world res" where
  "move_assign_map m n w = bind_res (the_map m w) (\<lambda>t. bind_res (the_map n w) (\<lambda>u.
     if m = n then Inl Undefined
     else Inr (set_map n (Some []) (set_map m (Some u) (drop_entries m t w)))))"

datatype ('k, 'd) config_op =
    New_map
  | Copy_map nat
  | Assign_map nat nat
  | Move_map nat
  | Move_assign_map nat nat
  | Destroy_map nat
  | Add_entry nat 'k nat "'d option"
  | Rm_entry nat 'k

fun run_op :: "('k, 'd) config_op \<Rightarrow> ('k, 'd) world \<Rightarrow> ('k, 'd) world res" where
  "run_op New_map w = Inr (new_map w)"
| "run_op (Copy_map m) w = copy_map m w"
| "run_op (Assign_map m n) w = assign_map m n w"
| "run_op (Move_map m) w = move_map m w"
| "run_op (Move_assign_map m n) w = move_assign_map m n w"
| "run_op (Destroy_map m) w = destroy_map m w"
| "run_op (Add_entry m k p del) w = add_entry m k p del w"
| "run_op (Rm_entry m k) w = rm_entry m k w"

fun run_ops :: "('k, 'd) config_op list \<Rightarrow> ('k, 'd) world \<Rightarrow> ('k, 'd) world res" where
  "run_ops [] w = Inr w"
| "run_ops (x # xs) w = (case run_op x w of Inl e \<Rightarrow> Inl e | Inr w' \<Rightarrow> run_ops xs w')"

section \<open>The invariant\<close>

text \<open>
  \<open>owned i w\<close> is the invariant up to entry \<open>i\<close>, whose last \<open>shared_ptr\<close> may just have gone.
\<close>

definition dead_events :: "('d cfg_entry \<times> bool) list \<Rightarrow> 'd del_log" where
  "dead_events bs = concat (map (\<lambda>b. if snd b then [] else entry_events (fst b)) bs)"

definition maps_ok :: "('k, 'd) world \<Rightarrow> bool" where
  "maps_ok w \<longleftrightarrow> (\<forall>t. Some t \<in> set (maps w) \<longrightarrow> umap_ok t \<and> (\<forall>e \<in> set t. snd e < length (blocks w)))"

definition world_ok :: "('k, 'd) world \<Rightarrow> bool" where
  "world_ok w \<longleftrightarrow> maps_ok w \<and> (\<forall>i < length (blocks w). snd (blocks w ! i) \<longleftrightarrow> used i w) \<and>
     mset (deletions w) = mset (dead_events (blocks w))"

definition owned :: "nat \<Rightarrow> ('k, 'd) world \<Rightarrow> bool" where
  "owned i w \<longleftrightarrow> maps_ok w \<and> i < length (blocks w) \<and>
     (\<forall>j < length (blocks w). snd (blocks w ! j) \<longleftrightarrow> used j w \<or> j = i) \<and>
     mset (deletions w) = mset (dead_events (blocks w))"

lemma used_iff: "used i w \<longleftrightarrow> (\<exists>t. Some t \<in> set (maps w) \<and> i \<in> snd ` set t)"
  by (force simp: used_def refers_def list_ex_iff split: option.splits)

lemma dead_events_update:
  "i < length bs \<Longrightarrow> snd (bs ! i) \<Longrightarrow>
    mset (dead_events (bs[i := (fst (bs ! i), False)])) = mset (dead_events bs) + mset (entry_events (fst (bs ! i)))"
  by (induction bs arbitrary: i) (auto simp: dead_events_def split: nat.splits)

lemma dead_events_snoc [simp]: "dead_events (bs @ [(e, True)]) = dead_events bs"
  by (simp add: dead_events_def)

lemma release_ok: "owned i w \<Longrightarrow> world_ok (release i w)"
proof (cases "used i w")
  case True
  assume "owned i w"
  with True show ?thesis by (auto simp: owned_def world_ok_def release_def)
next
  case False
  let ?w = "release i w"
  assume own: "owned i w"
  then have i: "i < length (blocks w)" "snd (blocks w ! i)" by (auto simp: owned_def)
  have same: "maps ?w = maps w" "length (blocks ?w) = length (blocks w)"
    using False by (simp_all add: release_def)
  then have "used j ?w = used j w" for j by (simp add: used_def)
  moreover have "maps_ok ?w" using own same by (simp add: owned_def maps_ok_def)
  moreover have "mset (deletions ?w) = mset (dead_events (blocks ?w))"
    using own False dead_events_update [OF i] by (simp add: release_def owned_def entry_destroy_def)
  moreover have "snd (blocks ?w ! j) \<longleftrightarrow> used j w" if "j < length (blocks w)" for j
    using own False that by (auto simp: release_def owned_def nth_list_update)
  ultimately show ?thesis using same by (simp add: world_ok_def)
qed

lemma the_map_Inr: "the_map m w = Inr t \<longleftrightarrow> m < length (maps w) \<and> maps w ! m = Some t"
  by (auto simp: the_map_def split: option.splits)

lemma the_map_in: "the_map m w = Inr t \<Longrightarrow> Some t \<in> set (maps w)"
  by (metis nth_mem the_map_Inr)

lemma world_ok_map: "world_ok w \<Longrightarrow> the_map m w = Inr t \<Longrightarrow>
    umap_ok t \<and> (\<forall>e \<in> set t. snd e < length (blocks w))"
  using the_map_in by (fastforce simp: world_ok_def maps_ok_def)

text \<open>Taking one entry out of a map leaves an invariant that \<^const>\<open>release\<close> repairs.\<close>

lemma used_set_map:
  assumes "the_map m w = Inr t"
  shows "used j (set_map m t' w) \<longleftrightarrow> refers j t' \<or> (\<exists>l < length (maps w). l \<noteq> m \<and> refers j (maps w ! l))"
proof -
  have "used j (set_map m t' w) \<longleftrightarrow> (\<exists>l < length (maps w). refers j ((maps w)[m := t'] ! l))"
    by (simp add: used_def set_map_def list_ex_length)
  with assms show ?thesis by (auto simp: the_map_Inr nth_list_update)
qed

lemma used_the_map:
  assumes "the_map m w = Inr t"
  shows "used j w \<longleftrightarrow> refers j (Some t) \<or> (\<exists>l < length (maps w). l \<noteq> m \<and> refers j (maps w ! l))"
  using assms by (auto simp: used_def list_ex_length the_map_Inr)

lemma maps_ok_set_map: "maps_ok w \<Longrightarrow> (\<And>u. t = Some u \<Longrightarrow> umap_ok u \<and> (\<forall>e \<in> set u. snd e < length (blocks w)))
    \<Longrightarrow> maps_ok (set_map m t w)"
  using set_update_subset_insert [of "maps w" m t] by (fastforce simp: maps_ok_def set_map_def)

lemma take_out_owned:
  assumes w: "world_ok w" and t: "the_map m w = Inr t"
    and t': "set t = insert (k, i) (set t')" "umap_ok t'"
  shows "owned i (set_map m (Some t') w)"
proof -
  have split: "refers j (Some t) \<longleftrightarrow> j = i \<or> refers j (Some t')" for j
    using t'(1) by (auto simp: refers_def list_ex_iff)
  have "used j w \<longleftrightarrow> used j (set_map m (Some t') w) \<or> j = i" for j
    unfolding used_the_map [OF t] used_set_map [OF t] split by blast
  moreover have "maps_ok (set_map m (Some t') w)"
    using w world_ok_map [OF w t] t' by (intro maps_ok_set_map) (auto simp: world_ok_def)
  ultimately show ?thesis
    using w world_ok_map [OF w t] t'(1) by (simp add: owned_def world_ok_def set_map_def)
qed

lemma the_map_release: "m < length (maps w) \<Longrightarrow> the_map m (release i (set_map m (Some t) w)) = Inr t"
  by (simp add: the_map_Inr release_def set_map_def)

lemma drop_entries_ok: "world_ok w \<Longrightarrow> the_map m w = Inr t \<Longrightarrow>
    world_ok (drop_entries m t w) \<and> the_map m (drop_entries m t w) = Inr []"
proof (induction m t w rule: drop_entries.induct)
  case (1 m w)
  then show ?case by simp
next
  case (2 m e es w)
  have "umap_ok es" using world_ok_map [OF 2(2,3)] by (simp add: umap_ok_def)
  then have "owned (snd e) (set_map m (Some es) w)"
    using take_out_owned [OF 2(2,3), of "fst e" "snd e" es] by simp
  then have "world_ok (release (snd e) (set_map m (Some es) w))" by (rule release_ok)
  moreover have "the_map m (release (snd e) (set_map m (Some es) w)) = Inr es"
    using 2(3) by (intro the_map_release) (simp add: the_map_Inr)
  ultimately show ?case using 2(1) by simp
qed

section \<open>Every operation keeps the invariant\<close>

lemma world_ok_set_None:
  assumes w: "world_ok w" and t: "the_map m w = Inr []"
  shows "world_ok (set_map m None w)"
proof -
  have "used j (set_map m None w) = used j w" for j
    unfolding used_set_map [OF t] used_the_map [OF t] by (simp add: refers_def)
  moreover have "maps_ok (set_map m None w)"
    using w by (intro maps_ok_set_map) (auto simp: world_ok_def)
  ultimately show ?thesis using w by (simp add: world_ok_def set_map_def)
qed

lemma used_snoc [simp]: "used i (w\<lparr>maps := maps w @ [t]\<rparr>) \<longleftrightarrow> used i w \<or> refers i t"
  by (auto simp: used_def)

lemma new_map_ok: "world_ok w \<Longrightarrow> world_ok (new_map w)"
  by (auto simp: world_ok_def maps_ok_def new_map_def refers_def um.new_ok)

lemma copy_map_ok: "world_ok w \<Longrightarrow> copy_map m w = Inr w' \<Longrightarrow> world_ok w'"
proof -
  assume w: "world_ok w" and "copy_map m w = Inr w'"
  then obtain t where t: "the_map m w = Inr t" "w' = w\<lparr>maps := maps w @ [Some t]\<rparr>"
    by (cases "the_map m w") (auto simp: copy_map_def)
  have "used i w' = used i w" for i using t used_the_map [OF t(1)] by auto
  moreover have "maps_ok w'" using w world_ok_map [OF w t(1)] t(2)
    by (auto simp: world_ok_def maps_ok_def)
  ultimately show ?thesis using w t(2) by (simp add: world_ok_def)
qed

lemma destroy_map_ok: "world_ok w \<Longrightarrow> destroy_map m w = Inr w' \<Longrightarrow> world_ok w'"
proof -
  assume w: "world_ok w" and "destroy_map m w = Inr w'"
  then obtain t where "the_map m w = Inr t" "w' = set_map m None (drop_entries m t w)"
    by (cases "the_map m w") (auto simp: destroy_map_def)
  with drop_entries_ok [OF w] world_ok_set_None show ?thesis by blast
qed

lemma the_map_set_other: "m \<noteq> n \<Longrightarrow> the_map n (set_map m t w) = the_map n w"
  by (simp add: the_map_def set_map_def)

lemma the_map_release_other: "the_map n (release i w) = the_map n w"
  by (simp add: the_map_def release_def)

lemma the_map_drop_other: "m \<noteq> n \<Longrightarrow> the_map n (drop_entries m t w) = the_map n w"
  by (induction m t w rule: drop_entries.induct) (simp_all add: the_map_set_other the_map_release_other)

lemma assign_map_ok: "world_ok w \<Longrightarrow> assign_map m n w = Inr w' \<Longrightarrow> world_ok w'"
proof -
  assume w: "world_ok w" and assign: "assign_map m n w = Inr w'"
  show ?thesis
  proof (cases "m = n")
    case True
    with w assign show ?thesis by (auto simp: assign_map_def bind_res_def split: sum.splits)
  next
    case False
    with assign obtain t u where t: "the_map m w = Inr t" and u: "the_map n w = Inr u"
      and w': "w' = set_map m (Some u) (drop_entries m t w)"
      by (auto simp: assign_map_def bind_res_def split: sum.splits)
    let ?w = "drop_entries m t w"
    have dropped: "world_ok ?w" "the_map m ?w = Inr []" "the_map n ?w = Inr u"
      using drop_entries_ok [OF w t] the_map_drop_other [OF False, of t w] u by simp_all
    have "n < length (maps ?w)" "maps ?w ! n = Some u" using dropped(3) by (simp_all add: the_map_Inr)
    then have "refers j (Some u) \<Longrightarrow> \<exists>l < length (maps ?w). l \<noteq> m \<and> refers j (maps ?w ! l)" for j
      using False by auto
    then have "used j w' = used j ?w" for j
      unfolding w' used_set_map [OF dropped(2)] used_the_map [OF dropped(2)] by (auto simp: refers_def)
    moreover have "maps_ok w'"
      using dropped(1) world_ok_map [OF dropped(1,3)] unfolding w' by (intro maps_ok_set_map) (auto simp: world_ok_def)
    ultimately show ?thesis using dropped(1) by (simp add: world_ok_def w' set_map_def)
  qed
qed

text \<open>A moved-from map: its entries are those of another map too, when it is emptied.\<close>

lemma world_ok_handed_over:
  assumes w: "world_ok w" and t: "the_map m w = Inr t"
    and l: "l < length (maps w)" "l \<noteq> m" "maps w ! l = Some t"
  shows "world_ok (set_map m (Some []) w)"
proof -
  have "refers j (Some t) \<Longrightarrow> \<exists>l < length (maps w). l \<noteq> m \<and> refers j (maps w ! l)" for j
    using l by (intro exI [of _ l]) simp
  then have "used j (set_map m (Some []) w) = used j w" for j
    unfolding used_set_map [OF t] used_the_map [OF t] by (auto simp: refers_def)
  moreover have "maps_ok (set_map m (Some []) w)"
    using w by (intro maps_ok_set_map) (auto simp: world_ok_def um.new_ok)
  ultimately show ?thesis using w by (simp add: world_ok_def set_map_def)
qed

lemma move_map_ok: "world_ok w \<Longrightarrow> move_map m w = Inr w' \<Longrightarrow> world_ok w'"
proof -
  assume w: "world_ok w" and "move_map m w = Inr w'"
  then obtain t where t: "the_map m w = Inr t" "w' = set_map m (Some []) (w\<lparr>maps := maps w @ [Some t]\<rparr>)"
    by (cases "the_map m w") (auto simp: move_map_def)
  let ?w = "w\<lparr>maps := maps w @ [Some t]\<rparr>"
  have "world_ok ?w" using copy_map_ok [OF w, of m] t(1) by (simp add: copy_map_def)
  moreover have "the_map m ?w = Inr t" using t(1) by (simp add: the_map_Inr nth_append)
  moreover have "length (maps w) \<noteq> m" using t(1) by (simp add: the_map_Inr)
  ultimately show ?thesis unfolding t(2) by (intro world_ok_handed_over [where l = "length (maps w)"]) simp_all
qed

lemma move_assign_map_ok: "world_ok w \<Longrightarrow> move_assign_map m n w = Inr w' \<Longrightarrow> world_ok w'"
proof -
  assume w: "world_ok w" and move: "move_assign_map m n w = Inr w'"
  then obtain t u where t: "the_map m w = Inr t" and u: "the_map n w = Inr u" and mn: "m \<noteq> n"
    and w': "w' = set_map n (Some []) (set_map m (Some u) (drop_entries m t w))"
    by (auto simp: move_assign_map_def bind_res_def split: sum.splits if_splits)
  let ?w = "set_map m (Some u) (drop_entries m t w)"
  have "assign_map m n w = Inr ?w" using t u mn by (simp add: assign_map_def)
  then have "world_ok ?w" by (rule assign_map_ok [OF w])
  moreover have "the_map n ?w = Inr u" using u mn by (simp add: the_map_set_other the_map_drop_other)
  moreover have "m < length (maps ?w)" "maps ?w ! m = Some u"
    using drop_entries_ok [OF w t] by (simp_all add: set_map_def the_map_Inr)
  ultimately show ?thesis unfolding w' using mn by (intro world_ok_handed_over [where l = m])
qed

lemma rm_entry_ok: "world_ok w \<Longrightarrow> rm_entry m k w = Inr w' \<Longrightarrow> world_ok w'"
proof -
  assume w: "world_ok w" and rm: "rm_entry m k w = Inr w'"
  then obtain t where t: "the_map m w = Inr t" by (cases "the_map m w") (auto simp: rm_entry_def)
  note tok = conjunct1 [OF world_ok_map [OF w t]]
  show ?thesis
  proof (cases "umap_find t k")
    case None
    with rm t w show ?thesis by (simp add: rm_entry_def)
  next
    case (Some i)
    then have i: "(k, i) \<in> set t" using um.find_iff [OF tok] by simp
    have "e = (k, i)" if "e \<in> set t" "fst e = k" for e
      using that i tok by (metis Some um.find_iff option.inject prod.collapse)
    with i have "set t = insert (k, i) {e \<in> set t. fst e \<noteq> k}" by blast
    then have "set t = insert (k, i) (set (umap_erase k t))"
      by (simp only: um.erase_entries [OF tok])
    then have "owned i (set_map m (Some (umap_erase k t)) w)"
      using take_out_owned [OF w t] um.erase_ok [OF tok] by blast
    with Some rm t show ?thesis using release_ok by (auto simp: rm_entry_def)
  qed
qed

lemma add_entry_ok: "world_ok w \<Longrightarrow> add_entry m k p del w = Inr w' \<Longrightarrow> world_ok w'"
proof -
  assume w: "world_ok w" and add: "add_entry m k p del w = Inr w'"
  then obtain t where t: "the_map m w = Inr t" by (cases "the_map m w") (auto simp: add_entry_def)
  note tok = world_ok_map [OF w t]
  show ?thesis
  proof (cases "has umap_find t k")
    case True
    with add t w show ?thesis by (simp add: add_entry_def)
  next
    case False
    let ?n = "length (blocks w)" and ?t = "umap_emplace k (length (blocks w)) t"
    let ?w = "w\<lparr>blocks := blocks w @ [(\<lparr>edata = p, edeletion = del\<rparr>, True)]\<rparr>"
    have new: "k \<notin> fst ` set t" using False um.has_iff [OF conjunct1 [OF tok], of k] by simp
    then have set_t: "set ?t = insert (k, ?n) (set t)" using um.emplace_entries [OF conjunct1 [OF tok], of k] by simp
    have tw: "the_map m ?w = Inr t" using t by (simp add: the_map_Inr)
    have old: "used j ?w = used j w" for j by (simp add: used_def)
    have "used j (set_map m (Some ?t) ?w) \<longleftrightarrow> used j w \<or> j = ?n" for j
      unfolding used_set_map [OF tw] used_the_map [OF tw] old [symmetric]
      using set_t by (auto simp: refers_def list_ex_iff)
    moreover have "maps_ok ?w" using w by (auto simp: world_ok_def maps_ok_def less_Suc_eq)
    then have "maps_ok (set_map m (Some ?t) ?w)"
      using um.emplace_ok [OF conjunct1 [OF tok]] tok set_t by (intro maps_ok_set_map) (auto simp: less_Suc_eq)
    moreover have "w' = set_map m (Some ?t) ?w" using add t False by (simp add: add_entry_def)
    moreover have "\<not> used ?n w" using w by (force simp: used_iff world_ok_def maps_ok_def)
    ultimately show ?thesis using w by (auto simp: world_ok_def set_map_def nth_append less_Suc_eq)
  qed
qed

lemma run_op_ok: "world_ok w \<Longrightarrow> run_op x w = Inr w' \<Longrightarrow> world_ok w'"
  by (cases x) (auto intro: new_map_ok copy_map_ok assign_map_ok move_map_ok move_assign_map_ok destroy_map_ok add_entry_ok rm_entry_ok)

lemma run_ops_ok: "world_ok w \<Longrightarrow> run_ops xs w = Inr w' \<Longrightarrow> world_ok w'"
  by (induction xs w rule: run_ops.induct) (auto split: sum.splits dest: run_op_ok)

lemma no_maps_ok: "world_ok no_maps"
  by (simp add: world_ok_def maps_ok_def no_maps_def dead_events_def)

section \<open>The interface \<open>iConfig\<close>\<close>

locale config =
  fixes keys :: "'s \<Rightarrow> 'k list res" and has_k :: "'s \<Rightarrow> 'k \<Rightarrow> bool res" and obj :: "'s \<Rightarrow> 'k \<Rightarrow> nat res"
    and good :: "'s \<Rightarrow> bool"
  assumes keys_has: "good s \<Longrightarrow> \<exists>ks. keys s = Inr ks \<and> distinct ks \<and> (\<forall>k. has_k s k = Inr (k \<in> set ks))"
    and obj_absent: "good s \<Longrightarrow> has_k s k = Inr False \<Longrightarrow> obj s k = Inr 0"
begin

lemma obj_present: "good s \<Longrightarrow> obj s k = Inr p \<Longrightarrow> p \<noteq> 0 \<Longrightarrow>
    has_k s k = Inr True \<and> (\<exists>ks. keys s = Inr ks \<and> k \<in> set ks)"
  using keys_has [of s] obj_absent [of s k] by force

end

interpretation cfg: config "\<lambda>(m, w). cfg_get_keys m w" "\<lambda>(m, w) k. has_key m k w" "\<lambda>(m, w) k. get_obj m k w"
    "\<lambda>(m, w). world_ok w \<and> (\<exists>t. the_map m w = Inr t)"
proof (unfold_locales, goal_cases)
  case (1 s)
  then obtain m w t where s: "s = (m, w)" "world_ok w" "the_map m w = Inr t" by (cases s) auto
  note tok = conjunct1 [OF world_ok_map [OF s(2,3)]]
  have "distinct (map fst t)" using tok by (simp add: umap_ok_def)
  then show ?case using s(3) by (simp add: s(1) cfg_get_keys_def has_key_def um.has_iff [OF tok])
next
  case (2 s k)
  then show ?case by (cases s) (auto simp: has_key_def get_obj_def has_def)
qed

section \<open>Lookups after changes\<close>

lemma get_obj_eq: "the_map m w = Inr t \<Longrightarrow> get_obj m k w =
    Inr (case umap_find t k of Some i \<Rightarrow> edata (fst (blocks w ! i)) | None \<Rightarrow> 0)"
  by (simp add: get_obj_def split: option.splits)

lemma add_entry_lookup:
  assumes w: "world_ok w" and t: "the_map m w = Inr t"
  shows "\<exists>w'. add_entry m k p del w = Inr w' \<and> deletions w' = deletions w \<and> has_key m k w' = Inr True \<and>
    get_obj m k w' = (if has umap_find t k then get_obj m k w else Inr p) \<and>
    (\<forall>k'. k' \<noteq> k \<longrightarrow> get_obj m k' w' = get_obj m k' w)"
proof (cases "has umap_find t k")
  case True
  with t show ?thesis by (simp add: add_entry_def has_key_def)
next
  case False
  note tok = world_ok_map [OF w t]
  let ?t = "umap_emplace k (length (blocks w)) t"
  let ?w = "set_map m (Some ?t) (w\<lparr>blocks := blocks w @ [(\<lparr>edata = p, edeletion = del\<rparr>, True)]\<rparr>)"
  have t': "the_map m ?w = Inr ?t" using t by (simp add: the_map_Inr set_map_def)
  have fnd: "umap_find ?t k' = (if k' = k then Some (length (blocks w)) else umap_find t k')" for k'
    using um.emplace_find [OF conjunct1 [OF tok], of k _ k'] False by (simp add: has_def)
  have "i < length (blocks w)" if "umap_find t k' = Some i" for i k'
    using that um.find_iff [OF conjunct1 [OF tok]] tok by fastforce
  then have "get_obj m k' ?w = (if k' = k then Inr p else get_obj m k' w)" for k'
    unfolding get_obj_eq [OF t] get_obj_eq [OF t'] fnd
    by (auto simp: set_map_def nth_append split: option.splits)
  moreover have "has_key m k ?w = Inr True" using t' fnd by (simp add: has_key_def has_def)
  moreover have "deletions ?w = deletions w" by (simp add: set_map_def)
  ultimately show ?thesis using t False by (simp add: add_entry_def)
qed

lemma rm_entry_lookup:
  assumes w: "world_ok w" and t: "the_map m w = Inr t"
  shows "\<exists>w'. rm_entry m k w = Inr w' \<and> has_key m k w' = Inr False \<and> get_obj m k w' = Inr 0 \<and>
    (\<forall>k'. k' \<noteq> k \<longrightarrow> get_obj m k' w' = get_obj m k' w)"
proof (cases "umap_find t k")
  case None
  with t show ?thesis by (simp add: rm_entry_def has_key_def get_obj_def has_def)
next
  case (Some i)
  note tok = world_ok_map [OF w t]
  let ?w = "release i (set_map m (Some (umap_erase k t)) w)"
  have t': "the_map m ?w = Inr (umap_erase k t)" using t by (intro the_map_release) (simp add: the_map_Inr)
  have fnd: "umap_find (umap_erase k t) k' = (if k' = k then None else umap_find t k')" for k'
    by (rule um.erase_find [OF conjunct1 [OF tok]])
  have data: "fst (blocks ?w ! j) = fst (blocks w ! j)" for j
    by (cases "i < length (blocks w)") (auto simp: release_def set_map_def nth_list_update list_update_beyond)
  have "get_obj m k' ?w = (if k' = k then Inr 0 else get_obj m k' w)" for k'
    unfolding get_obj_eq [OF t] get_obj_eq [OF t'] fnd data by simp
  moreover have "has_key m k ?w = Inr False" using t' fnd by (simp add: has_key_def has_def)
  ultimately show ?thesis using t Some by (simp add: rm_entry_def)
qed

section \<open>Properties\<close>

text \<open>
  C6. After any sequence of creations, copies, moves, assignments and destructions of maps and
  of additions and removals of entries, an entry is alive exactly while some map refers to it, and the log
  holds the deletion of every dead entry exactly once and no other. When all maps are
  destroyed, every object that came with a deletion function has been deleted once.
\<close>

theorem config_deletes_once:
  assumes "run_ops ops no_maps = Inr w"
  shows "(\<forall>i < length (blocks w). snd (blocks w ! i) \<longleftrightarrow> used i w) \<and>
    mset (deletions w) = mset (dead_events (blocks w)) \<and>
    (set (maps w) \<subseteq> {None} \<longrightarrow> mset (deletions w) = mset (concat (map (entry_events \<circ> fst) (blocks w))))"
proof -
  from run_ops_ok [OF no_maps_ok assms] have w: "world_ok w" .
  have "dead_events (blocks w) = concat (map (entry_events \<circ> fst) (blocks w))" if none: "set (maps w) \<subseteq> {None}"
  proof -
    have "\<not> used i w" for i using none by (auto simp: used_iff)
    with w have "\<forall>b \<in> set (blocks w). \<not> snd b" by (metis in_set_conv_nth world_ok_def)
    then show ?thesis by (auto simp: dead_events_def intro!: arg_cong [where f = concat])
  qed
  with w show ?thesis by (simp add: world_ok_def)
qed

definition shared_run :: "(string, nat) config_op list" where
  "shared_run = [New_map, Add_entry 0 ''a'' 100 (Some 7), Copy_map 0, Rm_entry 0 ''a'',
     Add_entry 0 ''b'' 200 None, Assign_map 1 0, Destroy_map 1, Destroy_map 0]"

definition shared_end :: "(string, nat) world" where
  "shared_end = \<lparr>maps = [None, None],
     blocks = [(\<lparr>edata = 100, edeletion = Some 7\<rparr>, False), (\<lparr>edata = 200, edeletion = None\<rparr>, False)],
     deletions = [(7, 100)]\<rparr>"

theorem config_deletes_once_witness:
  "mset (deletions shared_end) = mset (concat (map (entry_events \<circ> fst) (blocks shared_end)))"
proof -
  have "run_ops shared_run no_maps = Inr shared_end" by code_simp
  from config_deletes_once [OF this] show ?thesis by (simp add: shared_end_def)
qed

text \<open>
  \<open>add_entry\<close> deletes nothing and makes the key present with the new address, unless it
  was present before, in which case its object stays; \<open>rm_entry\<close> makes the key absent, with
  \<open>get_obj\<close> returning \<open>nullptr\<close>. Neither changes the object of another key.
\<close>

lemma config_lookup_after:
  assumes "world_ok w" and "the_map m w = Inr t"
  shows "(\<exists>w'. add_entry m k p del w = Inr w' \<and> deletions w' = deletions w \<and> has_key m k w' = Inr True \<and>
      get_obj m k w' = (if has umap_find t k then get_obj m k w else Inr p) \<and>
      (\<forall>k'. k' \<noteq> k \<longrightarrow> get_obj m k' w' = get_obj m k' w)) \<and>
    (\<exists>w'. rm_entry m k w = Inr w' \<and> has_key m k w' = Inr False \<and> get_obj m k w' = Inr 0 \<and>
      (\<forall>k'. k' \<noteq> k \<longrightarrow> get_obj m k' w' = get_obj m k' w))"
  using add_entry_lookup [OF assms] rm_entry_lookup [OF assms] by blast

text \<open>
  With a library that empties a moved-from \<open>std::function\<close>, moving an entry into a new
  one leaves its deletion to run exactly once. Moving it into an existing entry does so too,
  but the deletion of the object that entry owned before is never run.
\<close>

lemma entry_moves:
  "(case entry_move (\<lambda>d. None) other of
      (new, old) \<Rightarrow> entry_destroy old (entry_destroy new log) = log @ entry_events other) \<and>
   (case entry_move_assign (\<lambda>d. None) False this other of
      (new, old) \<Rightarrow> entry_destroy old (entry_destroy new log) = log @ entry_events other) \<and>
   (case entry_move_assign (\<lambda>d. None) True this this of
      (new, old) \<Rightarrow> entry_destroy new log = log @ entry_events this)"
  by (simp add: entry_move_def entry_move_assign_def entry_destroy_def entry_events_def split: option.splits)

end
