(* ===== verification/Estd_Misc.thy ===== *)
theory Estd_Misc
  imports Cpp_Prelude "HOL-Library.Sublist"
begin

text \<open>
  The small files of \<open>cppkg/estd\<close>: \<open>strs.cc\<close>, \<open>range.h\<close>, \<open>algorithm.h\<close> and \<open>cast.h\<close>.
\<close>

section \<open>strs.cc\<close>

text \<open>\<open>std::equal\<close> of a range and the range that starts at an iterator, read as far as needed.\<close>

fun std_equal :: "'a list \<Rightarrow> 'a list \<Rightarrow> bool res" where
  "std_equal [] ys = Inr True"
| "std_equal (x # xs) [] = Inl Undefined"
| "std_equal (x # xs) (y # ys) = (if x = y then std_equal xs ys else Inr False)"

definition has_prefix :: "string \<Rightarrow> string \<Rightarrow> bool res" where
  "has_prefix str pre =
     (let n = length str; nprefix = length pre
      in std_equal (take (min n nprefix) str) pre)"

definition has_affix :: "string \<Rightarrow> string \<Rightarrow> bool res" where
  "has_affix str affix =
     (let n = length str; naffix = length affix
      in if n < naffix then Inr False else std_equal (drop (n - naffix) str) affix)"

lemma std_equal_eq: "length xs \<le> length ys \<Longrightarrow> std_equal xs ys = Inr (xs = take (length xs) ys)"
  by (induction xs ys rule: std_equal.induct) auto

section \<open>range.h\<close>

text \<open>The element type is ordered linearly, which excludes the \<open>NaN\<close> of floating-point types.\<close>

record 'a NumRange =
  lower :: 'a
  upper :: 'a

definition NumRange_default :: "'a::zero NumRange" where
  "NumRange_default = \<lparr>lower = 0, upper = 0\<rparr>"

definition NumRange_of :: "'a::linorder \<Rightarrow> 'a \<Rightarrow> 'a NumRange" where
  "NumRange_of bound1 bound2 = \<lparr>lower = min bound1 bound2, upper = max bound1 bound2\<rparr>"

definition contains :: "'a::linorder NumRange \<Rightarrow> 'a \<Rightarrow> bool" where
  "contains r val = (lower r \<le> val \<and> val \<le> upper r)"

lemma contains_iff: "contains (NumRange_of a b) v \<longleftrightarrow> (a \<le> v \<and> v \<le> b) \<or> (b \<le> v \<and> v \<le> a)"
  by (auto simp: contains_def NumRange_of_def min_def max_def)

lemma contains_bounds: "contains (NumRange_of a b) a \<and> contains (NumRange_of a b) b"
  by (simp add: contains_def NumRange_of_def)

lemma NumRange_of_sym: "NumRange_of a b = NumRange_of b a"
  by (simp add: NumRange_of_def min.commute max.commute)

section \<open>algorithm.h\<close>

text \<open>
  \<open>std::remove_if\<close> moves the elements to keep to the front, in order, and returns the end of
  that part; what it leaves behind it, as many elements as it removed, is unspecified, and
  \<open>rest\<close> is what the library leaves there. \<open>erase\<close> cuts the vector at that end.
\<close>

definition std_remove_if :: "('a list \<Rightarrow> nat \<Rightarrow> 'a list) \<Rightarrow> 'a list \<Rightarrow> ('a \<Rightarrow> bool) \<Rightarrow> 'a list \<times> nat" where
  "std_remove_if rest vec p =
     (let kept = filter (\<lambda>x. \<not> p x) vec
      in (kept @ take (length vec - length kept) (rest vec (length kept)), length kept))"

definition remove_if :: "('a list \<Rightarrow> nat \<Rightarrow> 'a list) \<Rightarrow> 'a list \<Rightarrow> ('a \<Rightarrow> bool) \<Rightarrow> 'a list" where
  "remove_if rest vec p =
     (case std_remove_if rest vec p of (vec', pend) \<Rightarrow> take pend vec')"

lemma remove_if_eq [simp]: "remove_if rest vec p = filter (\<lambda>x. \<not> p x) vec"
  by (simp add: remove_if_def std_remove_if_def Let_def)

section \<open>cast.h\<close>

text \<open>
  A pointer is \<open>None\<close> for \<open>nullptr\<close>. \<open>dyn\<close> is \<open>dynamic_cast\<close> on the objects of the program,
  \<open>uname\<close> and \<open>tname\<close> are the names of the types, and the logger's \<open>fatalf\<close> is a parameter:
  the exception it throws, or \<open>None\<close> when it returns. \<open>must_ptr_cast\<close> has the same code on
  shared pointers.
\<close>

definition must_cast ::
  "(string \<Rightarrow> string list \<Rightarrow> cpp_error option) \<Rightarrow> ('p \<Rightarrow> 'q option) \<Rightarrow> string \<Rightarrow> string \<Rightarrow> 'p option
     \<Rightarrow> 'q option res" where
  "must_cast fatalf dyn uname tname ptr =
     (case (if ptr = None then fatalf ''cannot cast null %s to %s'' [uname, tname] else None) of
        Some e \<Rightarrow> Inl e
      | None \<Rightarrow>
          let out = Option.bind ptr dyn
          in case (if out = None then fatalf ''failed to cast %s to %s'' [uname, tname] else None) of
               Some e \<Rightarrow> Inl e
             | None \<Rightarrow> Inr out)"

definition must_ptr_cast ::
  "(string \<Rightarrow> string list \<Rightarrow> cpp_error option) \<Rightarrow> ('p \<Rightarrow> 'q option) \<Rightarrow> string \<Rightarrow> string \<Rightarrow> 'p option
     \<Rightarrow> 'q option res" where
  "must_ptr_cast fatalf dyn uname tname ptr = must_cast fatalf dyn uname tname ptr"

text \<open>With a logger whose \<open>fatalf\<close> throws, the result is never \<open>nullptr\<close>.\<close>

lemma must_cast_not_null:
  assumes "\<And>msg args. fatalf msg args \<noteq> None" and "must_cast fatalf dyn u t ptr = Inr out"
  shows "\<exists>p q. ptr = Some p \<and> dyn p = Some q \<and> out = Some q"
  using assms(1) [of "''cannot cast null %s to %s''" "[u, t]"] assms(1) [of "''failed to cast %s to %s''" "[u, t]"]
    assms(2) by (auto simp: must_cast_def Let_def split: option.splits if_splits)

lemma must_cast_some: "dyn p = Some q \<Longrightarrow> must_cast fatalf dyn u t (Some p) = Inr (Some q)"
  by (simp add: must_cast_def)

section \<open>Strings that start and end with another\<close>

lemma has_affix_iff:
  "has_affix str affix = Inr (suffix affix str)"
proof (cases "length str < length affix")
  case True
  then show ?thesis using suffix_length_le [of affix str] by (auto simp: has_affix_def)
next
  case False
  then have "has_affix str affix = Inr (drop (length str - length affix) str = affix)"
    by (simp add: has_affix_def std_equal_eq)
  moreover have "drop (length str - length affix) str = affix \<longleftrightarrow> suffix affix str"
    using suffix_drop [of "length str - length affix" str] by (auto simp: suffix_def)
  ultimately show ?thesis by simp
qed

lemma has_prefix_iff:
  "has_prefix str pre = Inr (prefix pre str \<or> prefix str pre)"
proof -
  have eq: "has_prefix str pre = Inr (take (min (length str) (length pre)) str = take (min (length str) (length pre)) pre)"
    by (simp add: has_prefix_def Let_def std_equal_eq)
  have take_eq: "take (length xs) ys = xs \<longleftrightarrow> prefix xs ys" for xs ys :: string
    by (metis prefix_def append_eq_conv_conj take_is_prefix)
  show ?thesis
  proof (cases "length str \<le> length pre")
    case True
    then have "prefix pre str \<Longrightarrow> prefix str pre"
      using prefix_length_le [of pre str] by (auto simp: prefix_def)
    with True take_eq [of str pre] show ?thesis by (auto simp: eq min_def)
  next
    case False
    then have "\<not> prefix str pre" using prefix_length_le by blast
    with False take_eq [of pre str] show ?thesis by (auto simp: eq min_def)
  qed
qed

section \<open>Properties\<close>

text \<open>
  \<open>has_affix\<close> tells whether the string ends with the affix. \<open>has_prefix\<close> compares only
  as many characters as both strings have: it is true when the string starts with the
  prefix, and also when it is itself a proper prefix of the prefix asked for. Neither reads
  outside its arguments.
\<close>

lemma string_ends:
  "has_affix str affix = Inr (suffix affix str) \<and> has_prefix str pre = Inr (prefix pre str \<or> prefix str pre)"
  by (simp add: has_affix_iff has_prefix_iff)

end
