(* ===== verification/Cpp_Double.thy ===== *)
theory Cpp_Double
  imports Complex_Main Cpp_Prelude
begin

text \<open>
  The \<open>double\<close> of the language, IEEE 754 binary64, as far as the sources compute with it: an
  operation on finite values is the exact one on \<open>rat\<close>, rounded to the nearest value with
  53 significant bits, ties to even; overflow gives an infinity. Signed zeros are not told
  apart, since no code here depends on the sign of a zero.
\<close>

section \<open>Rounding\<close>

datatype double = Fin rat | Inf_pos | Inf_neg | NaN

fun floor_log2 :: "nat \<Rightarrow> nat" where
  "floor_log2 n = (if n < 2 then 0 else Suc (floor_log2 (n div 2)))"

declare floor_log2.simps [simp del]

definition round_even :: "rat \<Rightarrow> int" where
  "round_even x =
     (let f = \<lfloor>x\<rfloor>; r = x - of_int f
      in if r < 1 / 2 then f else if r > 1 / 2 then f + 1 else if even f then f else f + 1)"

text \<open>The exponent \<open>e\<close> of a positive rational, with \<open>2^e \<le> x < 2^(e+1)\<close>.\<close>

definition rat_exponent :: "rat \<Rightarrow> int" where
  "rat_exponent x =
     (case quotient_of x of (a, b) \<Rightarrow>
        let e = int (floor_log2 (nat a)) - int (floor_log2 (nat b))
        in if 2 powi e \<le> x then e else e - 1)"

definition round_double :: "rat \<Rightarrow> rat" where
  "round_double x =
     (if x = 0 then 0
      else let e = max (rat_exponent \<bar>x\<bar>) (- 1022); ulp = 2 powi (e - 52)
           in of_int (round_even (x / ulp)) * ulp)"

definition to_double :: "rat \<Rightarrow> double" where
  "to_double x =
     (let r = round_double x
      in if \<bar>r\<bar> < 2 ^ 1024 then Fin r else if r > 0 then Inf_pos else Inf_neg)"

section \<open>Operations\<close>

definition of_uint64 :: "nat \<Rightarrow> double" where
  "of_uint64 n = to_double (of_nat n)"

fun dneg :: "double \<Rightarrow> double" where
  "dneg (Fin a) = Fin (- a)"
| "dneg Inf_pos = Inf_neg"
| "dneg Inf_neg = Inf_pos"
| "dneg NaN = NaN"

definition inf_of_sign :: "rat \<Rightarrow> double" where
  "inf_of_sign a = (if a = 0 then NaN else if 0 < a then Inf_pos else Inf_neg)"

fun dadd :: "double \<Rightarrow> double \<Rightarrow> double" where
  "dadd NaN b = NaN"
| "dadd a NaN = NaN"
| "dadd (Fin a) (Fin b) = to_double (a + b)"
| "dadd (Fin a) i = i"
| "dadd i (Fin b) = i"
| "dadd Inf_pos Inf_pos = Inf_pos"
| "dadd Inf_neg Inf_neg = Inf_neg"
| "dadd Inf_pos Inf_neg = NaN"
| "dadd Inf_neg Inf_pos = NaN"

definition dsub :: "double \<Rightarrow> double \<Rightarrow> double" where
  "dsub a b = dadd a (dneg b)"

text \<open>The sign of a value, which decides a product with an infinity.\<close>

fun dsign :: "double \<Rightarrow> rat" where
  "dsign (Fin a) = sgn a"
| "dsign Inf_pos = 1"
| "dsign Inf_neg = - 1"
| "dsign NaN = 0"

fun dmul :: "double \<Rightarrow> double \<Rightarrow> double" where
  "dmul NaN b = NaN"
| "dmul a NaN = NaN"
| "dmul (Fin a) (Fin b) = to_double (a * b)"
| "dmul a b = inf_of_sign (dsign a * dsign b)"

fun ddiv :: "double \<Rightarrow> double \<Rightarrow> double" where
  "ddiv NaN b = NaN"
| "ddiv a NaN = NaN"
| "ddiv (Fin a) (Fin b) = (if b = 0 then inf_of_sign a else to_double (a / b))"
| "ddiv (Fin a) i = Fin 0"
| "ddiv i (Fin b) = (if b = 0 then i else inf_of_sign (dsign i * sgn b))"
| "ddiv i j = NaN"

fun isfinite :: "double \<Rightarrow> bool" where
  "isfinite (Fin a) = True"
| "isfinite a = False"

fun dle :: "double \<Rightarrow> double \<Rightarrow> bool" where
  "dle NaN b = False"
| "dle a NaN = False"
| "dle Inf_neg b = True"
| "dle a Inf_pos = True"
| "dle (Fin a) (Fin b) = (a \<le> b)"
| "dle Inf_pos (Fin b) = False"
| "dle (Fin a) Inf_neg = False"
| "dle Inf_pos Inf_neg = False"

fun dless :: "double \<Rightarrow> double \<Rightarrow> bool" where
  "dless (Fin a) (Fin b) = (a < b)"
| "dless Inf_neg (Fin b) = True"
| "dless Inf_neg Inf_pos = True"
| "dless (Fin a) Inf_pos = True"
| "dless a b = False"

text \<open>A conversion to \<open>size_t\<close> cuts the fraction off; out of range it is undefined.\<close>

definition to_uint64 :: "double \<Rightarrow> nat res" where
  "to_uint64 d = (case d of Fin a \<Rightarrow>
       (if - 1 < a \<and> a < 2 ^ 64 then Inr (nat (if a < 0 then 0 else \<lfloor>a\<rfloor>)) else Inl Undefined)
     | _ \<Rightarrow> Inl Undefined)"

section \<open>Values that are exact\<close>

lemma floor_log2_bounds: "0 < n \<Longrightarrow> 2 ^ floor_log2 n \<le> n \<and> n < 2 ^ Suc (floor_log2 n)"
proof (induction n rule: floor_log2.induct)
  case (1 n)
  show ?case
  proof (cases "n < 2")
    case True
    with 1(2) show ?thesis by (simp add: floor_log2.simps)
  next
    case False
    with 1(1) have "2 ^ floor_log2 (n div 2) \<le> n div 2 \<and> n div 2 < 2 ^ Suc (floor_log2 (n div 2))" by auto
    with False show ?thesis by (subst (1 2) floor_log2.simps) auto
  qed
qed

lemma floor_log2_unique: "2 ^ k \<le> n \<Longrightarrow> n < 2 ^ Suc k \<Longrightarrow> floor_log2 n = k"
proof (induction k arbitrary: n)
  case 0
  then show ?case by (simp add: floor_log2.simps)
next
  case (Suc k)
  then have "floor_log2 (n div 2) = k" by (intro Suc.IH) auto
  moreover have "(1::nat) \<le> 2 ^ k" by simp
  then have "\<not> n < 2" using Suc.prems(1) unfolding power_Suc by linarith
  ultimately show ?case by (subst floor_log2.simps) simp
qed

lemma floor_log2_mono: "m \<le> n \<Longrightarrow> floor_log2 m \<le> floor_log2 n"
proof (induction m arbitrary: n rule: floor_log2.induct)
  case (1 m)
  show ?case
  proof (cases "m < 2")
    case True
    then show ?thesis by (simp add: floor_log2.simps [of m])
  next
    case False
    with 1(2) have "floor_log2 (m div 2) \<le> floor_log2 (n div 2)" by (intro 1(1)) (auto simp: div_le_mono)
    with False 1(2) show ?thesis by (subst (1 2) floor_log2.simps) auto
  qed
qed

lemma round_even_int [simp]: "round_even (of_int z) = z"
  by (simp add: round_even_def)

lemma rat_exponent_int: "0 < z \<Longrightarrow> rat_exponent (of_int z) = int (floor_log2 (nat z))"
proof -
  assume z: "0 < z"
  then have "2 ^ floor_log2 (nat z) \<le> nat z" using floor_log2_bounds [of "nat z"] by simp
  then have "(2::int) ^ floor_log2 (nat z) \<le> z" using z by (metis le_nat_iff less_imp_le nat_le_iff of_nat_numeral of_nat_power)
  then have "(2::rat) ^ floor_log2 (nat z) \<le> of_int z" by (metis of_int_le_iff of_int_numeral of_int_power)
  moreover have "floor_log2 1 = 0" by (simp add: floor_log2.simps)
  ultimately show ?thesis by (simp add: rat_exponent_def quotient_of_int power_int_def)
qed

text \<open>Every integer of absolute value at most \<open>2^53\<close> is a \<open>double\<close>.\<close>

lemma round_double_int:
  assumes "\<bar>z\<bar> \<le> 2 ^ 53"
  shows "round_double (of_int z) = of_int z"
proof (cases "z = 0")
  case True
  then show ?thesis by (simp add: round_double_def)
next
  case False
  define e where "e = floor_log2 (nat \<bar>z\<bar>)"
  have exp: "rat_exponent \<bar>of_int z\<bar> = int e"
    using rat_exponent_int [of "\<bar>z\<bar>"] False by (simp add: e_def)
  have bounds: "2 ^ e \<le> nat \<bar>z\<bar>" "nat \<bar>z\<bar> < 2 ^ Suc e"
    using floor_log2_bounds [of "nat \<bar>z\<bar>"] False by (simp_all add: e_def)
  have "nat \<bar>z\<bar> \<le> 2 ^ 53" using assms by simp
  with bounds(1) have "(2::nat) ^ e \<le> 2 ^ 53" by linarith
  then have e: "e \<le> 53" by (simp only: power_increasing_iff)
  have "\<exists>q. (of_int z :: rat) / 2 powi (int e - 52) = of_int q"
  proof (cases "e \<le> 52")
    case True
    then have "int e - 52 = - int (52 - e)" by simp
    then have "(of_int z :: rat) / 2 powi (int e - 52) = of_int (z * 2 ^ (52 - e))"
      by (simp only: power_int_minus power_int_of_nat) (simp add: divide_inverse)
    then show ?thesis by blast
  next
    case False
    with e have "e = 53" by simp
    with bounds(1) assms have "\<bar>z\<bar> = 2 ^ 53" by simp
    then have "z = 2 ^ 53 \<or> z = - (2 ^ 53)" by linarith
    then have "(of_int z :: rat) / 2 = of_int (z div 2)" by auto
    with \<open>e = 53\<close> show ?thesis by (intro exI [of _ "z div 2"]) simp
  qed
  then obtain q where q: "(of_int z :: rat) / 2 powi (int e - 52) = of_int q" by blast
  have "round_double (of_int z) = of_int q * 2 powi (int e - 52)"
    using False by (simp add: round_double_def exp Let_def q)
  also have "\<dots> = of_int z" unfolding q [symmetric] by simp
  finally show ?thesis .
qed

lemma to_double_int: "\<bar>z\<bar> \<le> 2 ^ 53 \<Longrightarrow> to_double (of_int z) = Fin (of_int z)"
proof -
  assume z: "\<bar>z\<bar> \<le> 2 ^ 53"
  then have "\<bar>of_int z :: rat\<bar> \<le> of_int (2 ^ 53)" by (metis of_int_abs of_int_le_iff)
  also have "\<dots> < (2::rat) ^ 1024" by simp
  finally have "\<bar>of_int z :: rat\<bar> < 2 ^ 1024" .
  with round_double_int [OF z] show ?thesis by (simp add: to_double_def)
qed

lemma to_double_nat: "n \<le> 2 ^ 53 \<Longrightarrow> to_double (of_nat n) = Fin (of_nat n)"
  using to_double_int [of "int n"] by simp

end
