(* ===== verification/Decimal.thy ===== *)
theory Decimal
  imports Cpp_Double "HOL-Library.Word"
begin

text \<open>
  The code of \<open>cppkg/numbers/decimal.h\<close> and \<open>decimal.cc\<close>: fractions with a \<open>double\<close>
  numerator and a \<open>uint64_t\<close> denominator. \<open>assert\<close> is active and aborts.
\<close>

section \<open>Bits\<close>

lemma unat_half: "unat (drop_bit 1 (v :: 64 word)) = unat v div 2"
  by (simp add: drop_bit_eq_div unat_div_distrib)

text \<open>\<open>while (val >>= 1) r++\<close>; the count is at most 63 and fits in the \<open>uint8_t\<close>.\<close>

function highest_loop :: "64 word \<Rightarrow> nat \<Rightarrow> nat" where
  "highest_loop val r = (let val' = drop_bit 1 val in if val' \<noteq> 0 then highest_loop val' (Suc r) else r)"
  by pat_completeness auto
termination
proof (relation "measure (unat \<circ> fst)", simp)
  fix val val' :: "64 word" and r :: nat
  assume v: "val' = drop_bit 1 val" "val' \<noteq> 0"
  note half = unat_half [of val]
  with v have "unat val div 2 \<noteq> 0" by (metis unat_eq_0)
  with half v show "((val', Suc r), val, r) \<in> measure (unat \<circ> fst)" by simp
qed

declare highest_loop.simps [simp del]

definition highest_1bit :: "64 word \<Rightarrow> nat" where
  "highest_1bit val = highest_loop val 0"

definition mul_is_safe :: "64 word \<Rightarrow> 64 word \<Rightarrow> bool" where
  "mul_is_safe a b = (highest_1bit a + highest_1bit b \<le> 64)"

section \<open>Fractions\<close>

record Fraction =
  num :: double
  denom :: "64 word"

definition fraction_default :: Fraction where
  "fraction_default = \<lparr>num = Fin 0, denom = 1\<rparr>"

definition fraction_of :: "double \<Rightarrow> 64 word \<Rightarrow> Fraction res" where
  "fraction_of numerator denominator =
     (if dle numerator (of_uint64 (unat denominator)) then Inr \<lparr>num = numerator, denom = denominator\<rparr>
      else Inl (Fatal ''assert''))"

definition fraction_double :: "Fraction \<Rightarrow> double" where
  "fraction_double f = ddiv (num f) (of_uint64 (unat (denom f)))"

text \<open>\<open>cisab::fmts::sprintf\<close> is third-party code and a parameter.\<close>

definition fraction_to_string :: "(string \<Rightarrow> double \<Rightarrow> double \<Rightarrow> 64 word \<Rightarrow> string) \<Rightarrow> Fraction \<Rightarrow> string" where
  "fraction_to_string sprintf f = sprintf ''[%lf](%lf/%u)'' (fraction_double f) (num f) (denom f)"

definition fraction_mul :: "Fraction \<Rightarrow> Fraction \<Rightarrow> Fraction res" where
  "fraction_mul l r =
     (let proj_num = dmul (num l) (num r);
          (n, d) = (if \<not> isfinite proj_num \<or> dless (Fin 1000000) proj_num \<or>
                       \<not> mul_is_safe (denom l) (denom r)
                    then (fraction_double l, denom r)
                    else (num l, denom l * denom r))
      in fraction_of (dmul n (num r)) d)"



definition fraction_reverse :: "Fraction \<Rightarrow> Fraction res" where
  "fraction_reverse f = fraction_of (dsub (of_uint64 (unat (denom f))) (num f)) (denom f)"

section \<open>The bit count is the logarithm\<close>

lemma highest_loop_eq: "highest_loop val r = r + floor_log2 (unat val)"
proof (induction val r rule: highest_loop.induct)
  case (1 val r)
  note half = unat_half [of val]
  then have zero: "drop_bit 1 val = 0 \<longleftrightarrow> unat val < 2" by (metis div_eq_0_iff unat_eq_zero zero_neq_numeral)
  show ?case
  proof (cases "unat val < 2")
    case True
    with zero show ?thesis by (subst highest_loop.simps) (simp add: floor_log2.simps)
  next
    case False
    with zero 1 [OF refl] half show ?thesis
      by (subst highest_loop.simps, subst floor_log2.simps) (simp add: Let_def)
  qed
qed

lemma highest_1bit_eq: "highest_1bit val = floor_log2 (unat val)"
  by (simp add: highest_1bit_def highest_loop_eq)

lemma floor_log2_less: "n < 2 ^ k \<Longrightarrow> 0 < k \<Longrightarrow> floor_log2 n < k"
proof (cases "n = 0")
  case False
  assume "n < 2 ^ k"
  moreover have "2 ^ floor_log2 n \<le> n" using floor_log2_bounds False by simp
  ultimately have "(2::nat) ^ floor_log2 n < 2 ^ k" by linarith
  then show ?thesis by (simp only: power_strict_increasing_iff)
qed (simp add: floor_log2.simps)

text \<open>Denominators whose product fits are accepted.\<close>

lemma mul_is_safe_fits:
  assumes "a * b < 2 ^ 64" and "a < 2 ^ 64" "b < 2 ^ 64"
  shows "mul_is_safe (word_of_nat a) (word_of_nat b)"
proof -
  have u: "unat (word_of_nat a :: 64 word) = a" "unat (word_of_nat b :: 64 word) = b"
    using assms(2,3) by (simp_all add: unsigned_of_nat take_bit_nat_eq_self)
  have "floor_log2 a + floor_log2 b \<le> 63"
  proof (cases "a = 0 \<or> b = 0")
    case True
    with floor_log2_less [OF assms(2)] floor_log2_less [OF assms(3)] show ?thesis
      by (auto simp: floor_log2.simps [of 0])
  next
    case False
    then have "2 ^ floor_log2 a * 2 ^ floor_log2 b \<le> a * b"
      using floor_log2_bounds [of a] floor_log2_bounds [of b] by (intro mult_le_mono) auto
    with assms(1) have "(2::nat) ^ (floor_log2 a + floor_log2 b) < 2 ^ 64" by (simp add: power_add)
    then have "floor_log2 a + floor_log2 b < 64" by (simp only: power_strict_increasing_iff)
    then show ?thesis by simp
  qed
  then show ?thesis by (simp add: mul_is_safe_def highest_1bit_eq u)
qed

text \<open>A bit sum of at most 62 would be enough for the product to fit.\<close>

lemma small_bits_fit:
  assumes "highest_1bit a + highest_1bit b \<le> 62"
  shows "unat (a * b) = unat a * unat b"
proof (cases "unat a = 0 \<or> unat b = 0")
  case False
  have "unat a * unat b < 2 ^ Suc (floor_log2 (unat a)) * 2 ^ Suc (floor_log2 (unat b))"
    using floor_log2_bounds [of "unat a"] floor_log2_bounds [of "unat b"] False
    by (intro mult_strict_mono) auto
  also have "\<dots> = 2 ^ (Suc (Suc (floor_log2 (unat a) + floor_log2 (unat b))))"
    by (simp add: power_add)
  also have "\<dots> \<le> 2 ^ 64" using assms by (intro power_increasing) (simp_all add: highest_1bit_eq)
  finally show ?thesis by (simp add: unat_word_ariths)
qed (auto simp: unat_word_ariths)

section \<open>Exact products\<close>








section \<open>A product that does not fit\<close>

lemma unat_power2:
  assumes "i < 64"
  shows "unat (2 ^ i :: 64 word) = 2 ^ i"
proof -
  have "unat (word_of_nat (2 ^ i) :: 64 word) = 2 ^ i"
    using assms by (simp only: unsigned_of_nat) (simp add: take_bit_nat_eq_self)
  then show ?thesis by simp
qed

lemma highest_1bit_power2: "i < 64 \<Longrightarrow> highest_1bit (2 ^ i) = i"
  by (simp add: highest_1bit_eq unat_power2 floor_log2_unique)

lemma power2_overflow: "0 < i \<Longrightarrow> i < 64 \<Longrightarrow> (2 ^ i * 2 ^ (64 - i) :: 64 word) = 0"
proof -
  assume "0 < i" "i < 64"
  then have "(2 ^ i * 2 ^ (64 - i) :: 64 word) = 2 ^ 64" by (simp add: power_add [symmetric])
  also have "\<dots> = 0" by simp
  finally show ?thesis .
qed

section \<open>Properties\<close>



text \<open>
  \<open>mul_is_safe\<close> counts a pair of denominators as safe when their bit positions add up to
  64, where the product of two powers of two is \<open>2^64\<close> and wraps around to 0: multiplying the
  fractions \<open>1/2^i\<close> and \<open>1/2^(64-i)\<close> fails the assertion, and with numerator 0 it yields
  the denominator 0.
\<close>

lemma mul_safe_overflows:
  assumes "0 < i" "i < 64"
  shows "mul_is_safe (2 ^ i) (2 ^ (64 - i)) \<and>
    fraction_mul \<lparr>num = Fin 1, denom = 2 ^ i\<rparr> \<lparr>num = Fin 1, denom = 2 ^ (64 - i)\<rparr> = Inl (Fatal ''assert'') \<and>
    fraction_mul \<lparr>num = Fin 0, denom = 2 ^ i\<rparr> \<lparr>num = Fin 1, denom = 2 ^ (64 - i)\<rparr> = Inr \<lparr>num = Fin 0, denom = 0\<rparr>"
proof -
  have safe: "mul_is_safe (2 ^ i) (2 ^ (64 - i))"
    using highest_1bit_power2 [of i] highest_1bit_power2 [of "64 - i"] assms by (simp add: mul_is_safe_def)
  have one: "to_double 1 = Fin 1" and zero: "to_double 0 = Fin 0" using to_double_int [of 1] to_double_int [of 0] by simp_all
  then show ?thesis
    using safe power2_overflow [OF assms] by (simp add: fraction_mul_def fraction_of_def of_uint64_def)
qed

text \<open>
  \<open>highest_1bit\<close> is the position of the highest bit set: at most 63, with the value
  between \<open>2^h\<close> and \<open>2^(h+1)\<close>. Products of denominators whose positions add up to at most 62
  are exact, and any pair whose product fits in 64 bits is accepted by \<open>mul_is_safe\<close>.
\<close>

lemma bit_bounds:
  assumes "a \<noteq> 0"
  shows "highest_1bit a \<le> 63 \<and> 2 ^ highest_1bit a \<le> unat a \<and> unat a < 2 ^ Suc (highest_1bit a) \<and>
    (highest_1bit a + highest_1bit b \<le> 62 \<longrightarrow> unat (a * b) = unat a * unat b) \<and>
    (unat a * unat b < 2 ^ 64 \<longrightarrow> mul_is_safe a b)"
proof -
  have pos: "0 < unat a" using assms by (simp add: unat_gt_0)
  have size: "unat a < 2 ^ 64" "unat b < 2 ^ 64" using unsigned_less [of a] unsigned_less [of b] by simp_all
  then have "highest_1bit a < 64" using floor_log2_less [of "unat a" 64] by (simp add: highest_1bit_eq)
  moreover have "mul_is_safe a b" if "unat a * unat b < 2 ^ 64"
    using mul_is_safe_fits [OF that size] by simp
  ultimately show ?thesis using floor_log2_bounds [OF pos] small_bits_fit [of a b] by (simp add: highest_1bit_eq)
qed

end
