(* ===== verification/Units.thy ===== *)
theory Units
  imports Cpp_Double
begin

text \<open>
  The code of \<open>cppkg/units\<close>: the choice of a unit and a value to print for an amount of
  memory (\<open>memory.h\<close>, \<open>memory.cc\<close>) and a time (\<open>time.h\<close>, \<open>time.cc\<close>). The third-party
  \<open>cisab::fmts::sprintf\<close> is a parameter, taking the format, the value and the unit.
\<close>

section \<open>Memory\<close>

definition KB :: "nat \<Rightarrow> nat res" where
  "KB m = to_uint64 (dmul (of_uint64 m) (Fin 1000))"

definition MB :: "nat \<Rightarrow> nat res" where
  "MB m = to_uint64 (dmul (of_uint64 m) (Fin 1000000))"

definition GB :: "nat \<Rightarrow> nat res" where
  "GB m = to_uint64 (dmul (of_uint64 m) (Fin 1000000000))"

text \<open>The constants are initialised by these calls, which succeed.\<close>

definition const_of :: "nat res \<Rightarrow> nat" where
  "const_of r = (case r of Inr m \<Rightarrow> m | Inl e \<Rightarrow> 0)"

definition MEM_1KB :: nat where "MEM_1KB = const_of (KB 1)"
definition MEM_1MB :: nat where "MEM_1MB = const_of (MB 1)"
definition MEM_1GB :: nat where "MEM_1GB = const_of (GB 1)"

definition human_readable_memory :: "(string \<Rightarrow> double \<Rightarrow> string \<Rightarrow> string) \<Rightarrow> nat \<Rightarrow> string" where
  "human_readable_memory sprintf m =
     (let (value, unit) =
        (if m < MEM_1KB then (of_uint64 m, ''Byte'')
         else if MEM_1GB \<le> m then (ddiv (of_uint64 m) (of_uint64 MEM_1GB), ''GB'')
         else if MEM_1MB \<le> m then (ddiv (of_uint64 m) (of_uint64 MEM_1MB), ''MB'')
         else (ddiv (of_uint64 m) (of_uint64 MEM_1KB), ''KB''))
      in sprintf ''%.3g %s'' value unit)"

section \<open>Time\<close>

datatype TimeUnit = NANO | MICRO | MILLI | CENTI | DECI | ONE

primrec unit_index :: "TimeUnit \<Rightarrow> nat" where
  "unit_index NANO = 0"
| "unit_index MICRO = 1"
| "unit_index MILLI = 2"
| "unit_index CENTI = 3"
| "unit_index DECI = 4"
| "unit_index ONE = 5"

text \<open>The second name is the UTF-8 encoding of a micro sign and an \<open>s\<close>.\<close>

definition time_unit_fmt :: "string list" where
  "time_unit_fmt = [''ns'', [char_of (206::nat), char_of (188::nat), CHR ''s''], ''ms'', ''cs'', ''ds'', ''s'']"

definition time_incr :: "nat list" where
  "time_incr = [1000, 1000, 10, 10, 10]"

text \<open>The loop over the units; \<open>_MAX_SUPPORTED - 1\<close> is 5, and \<open>denom\<close> stays below \<open>2^64\<close>.\<close>

function time_loop :: "nat \<Rightarrow> nat \<Rightarrow> nat \<Rightarrow> nat \<times> nat" where
  "time_loop time denom u =
     (if u < 5 \<and> time_incr ! u \<le> time div denom
      then time_loop time (denom * time_incr ! u) (Suc u) else (denom, u))"
  by pat_completeness auto
termination
  by (relation "measure (\<lambda>(time, denom, u). 5 - u)") auto

declare time_loop.simps [simp del]

text \<open>\<open>unsigned(...)\<close> keeps the low 32 bits.\<close>

definition time_value :: "nat \<Rightarrow> nat \<Rightarrow> double" where
  "time_value time denom =
     (if 10000 \<le> denom
      then ddiv (of_uint64 ((time div (denom div 10000)) mod 2 ^ 32)) (Fin 10000)
      else of_uint64 time)"

definition human_readable_time :: "(string \<Rightarrow> double \<Rightarrow> string \<Rightarrow> string) \<Rightarrow> nat \<Rightarrow> TimeUnit \<Rightarrow> string" where
  "human_readable_time sprintf time unit =
     (case time_loop time 1 (unit_index unit) of
        (denom, u) \<Rightarrow> sprintf ''%.5g%s'' (time_value time denom) (time_unit_fmt ! u))"

section \<open>The constants\<close>

lemma double_small [simp]: "n \<le> 2 ^ 53 \<Longrightarrow> of_uint64 n = Fin (of_nat n)"
  by (simp add: of_uint64_def to_double_nat)

lemma scale_exact:
  assumes "m * k \<le> 2 ^ 53" "0 < k"
  shows "to_uint64 (dmul (of_uint64 m) (Fin (of_nat k))) = Inr (m * k)"
proof -
  have "m \<le> m * k" using assms(2) by simp
  then have m: "m \<le> 2 ^ 53" using assms(1) by linarith
  have "to_double (of_nat m * of_nat k) = Fin (of_nat (m * k))"
    using to_double_nat [OF assms(1)] by simp
  moreover have "(of_nat (m * k) :: rat) \<le> of_nat (2 ^ 53)" using assms(1) by (simp only: of_nat_le_iff)
  then have "(of_nat (m * k) :: rat) < 2 ^ 64" by simp
  moreover have "- 1 < (of_nat (m * k) :: rat)"
    by (rule less_le_trans [of _ 0]) simp_all
  ultimately show ?thesis using m by (simp add: to_uint64_def del: of_nat_mult)
qed

lemma mem_constants [simp]: "MEM_1KB = 1000" "MEM_1MB = 1000000" "MEM_1GB = 1000000000"
  using scale_exact [of 1 1000] scale_exact [of 1 1000000] scale_exact [of 1 1000000000]
  by (simp_all add: MEM_1KB_def MEM_1MB_def MEM_1GB_def KB_def MB_def GB_def const_of_def)

section \<open>The loop\<close>

lemma time_incr_pos: "u < 5 \<Longrightarrow> 0 < time_incr ! u"
  by (auto simp: time_incr_def less_Suc_eq numeral_eq_Suc)

lemma time_loop_correct:
  assumes "u \<le> 5" "0 < denom" and "time_loop time denom u = (denom', u')"
  shows "u \<le> u' \<and> u' \<le> 5 \<and> denom' = denom * (\<Prod>i = u..<u'. time_incr ! i) \<and>
    (u' < 5 \<longrightarrow> time div denom' < time_incr ! u') \<and> (u < u' \<longrightarrow> denom' \<le> time)"
  using assms
proof (induction time denom u rule: time_loop.induct)
  case (1 time denom u)
  show ?case
  proof (cases "u < 5 \<and> time_incr ! u \<le> time div denom")
    case True
    with 1(4) have eq: "time_loop time (denom * time_incr ! u) (Suc u) = (denom', u')"
      by (subst (asm) time_loop.simps) simp
    from True 1(3) time_incr_pos have pos: "0 < denom * time_incr ! u" by simp
    from 1(1) [OF True _ pos eq] True have ih: "Suc u \<le> u'" "u' \<le> 5"
      "denom' = denom * time_incr ! u * (\<Prod>i = Suc u..<u'. time_incr ! i)"
      "u' < 5 \<longrightarrow> time div denom' < time_incr ! u'" "Suc u < u' \<longrightarrow> denom' \<le> time" by auto
    have "denom * time_incr ! u \<le> time"
      using True 1(3) by (metis less_eq_div_iff_mult_less_eq mult.commute)
    with ih(1,3,5) have "denom' \<le> time" by (cases "u' = Suc u") auto
    moreover have "(\<Prod>i = u..<u'. time_incr ! i) = time_incr ! u * (\<Prod>i = Suc u..<u'. time_incr ! i)"
      using ih(1) by (intro prod.atLeast_Suc_lessThan) simp
    ultimately show ?thesis using ih by simp
  next
    case False
    then show ?thesis using 1(2-4) by (subst (asm) time_loop.simps) auto
  qed
qed

text \<open>A product of 10000 or more is a multiple of 10000, and none exceeds \<open>10^9\<close>.\<close>

lemma incr_products:
  assumes "u \<le> u'" "u' \<le> 5" and "10000 \<le> (\<Prod>i = u..<u'. time_incr ! i)"
  shows "10000 dvd (\<Prod>i = u..<u'. time_incr ! i)"
proof -
  have prod: "(\<Prod>i = u..<u'. time_incr ! i) = prod_list (map ((!) time_incr) [u..<u'])"
    using prod.distinct_set_conv_list [of "[u..<u']" "(!) time_incr"] by simp
  have "u \<in> {0, 1, 2, 3, 4, 5}" "u' \<in> {0, 1, 2, 3, 4, 5}" using assms(1,2) by auto
  with assms(3) show ?thesis
    unfolding prod by (auto simp: time_incr_def upt_conv_Cons)
qed

section \<open>Properties\<close>

text \<open>
  \<open>human_readable_time\<close> chooses the unit so that the time is at least one of it, if it
  changes the unit at all, and less than one of the next unit. When the unit is ten thousand
  times the given one or more and the time is below \<open>2^32\<close> of its ten-thousandths, the
  printed value is the time in that unit, cut to four decimal places and rounded to a double.
\<close>

lemma time_scaled:
  assumes "time_loop time 1 (unit_index unit) = (denom, u)"
  shows "unit_index unit \<le> u \<and> u \<le> 5 \<and> denom = (\<Prod>i = unit_index unit..<u. time_incr ! i) \<and>
    (unit_index unit < u \<longrightarrow> denom \<le> time) \<and> (u < 5 \<longrightarrow> time div denom < time_incr ! u) \<and>
    (10000 \<le> denom \<and> time div (denom div 10000) < 2 ^ 32 \<longrightarrow>
      human_readable_time sprintf time unit =
        sprintf ''%.5g%s'' (to_double (of_nat (time * 10000 div denom) / 10000)) (time_unit_fmt ! u))"
proof -
  have "unit_index unit \<le> 5" by (cases unit) simp_all
  note loop = time_loop_correct [OF this _ assms, simplified]
  have "time_value time denom = to_double (of_nat (time * 10000 div denom) / 10000)"
    if d: "10000 \<le> denom" "time div (denom div 10000) < 2 ^ 32"
  proof -
    from incr_products loop d(1) obtain q where q: "denom = 10000 * q" by (metis dvdE)
    with d(1) have "time * 10000 div denom = time div q"
      by (metis div_mult_mult1 mult.commute zero_neq_numeral)
    with d q show ?thesis by (simp add: time_value_def)
  qed
  then have "human_readable_time sprintf time unit =
      sprintf ''%.5g%s'' (to_double (of_nat (time * 10000 div denom) / 10000)) (time_unit_fmt ! u)"
    if "10000 \<le> denom" "time div (denom div 10000) < 2 ^ 32"
    using that assms by (simp only: human_readable_time_def prod.case)
  with loop show ?thesis by blast
qed

text \<open>
  Where the chosen unit is only a thousand times the given one, the value is not divided:
  every time from 1000 to 999999 nanoseconds is printed as that many microseconds. And for
  a time in nanoseconds whose ten-thousandths of a second do not fit in 32 bits, as from
  five days on, the printed value is taken modulo \<open>2^32\<close> ten-thousandths.
\<close>

lemma time_not_scaled:
  "(1000 \<le> time \<and> time < 1000000 \<longrightarrow>
      human_readable_time sprintf time NANO = sprintf ''%.5g%s'' (Fin (of_nat time)) (time_unit_fmt ! 1)) \<and>
   (1000000000 \<le> time \<longrightarrow>
      human_readable_time sprintf time NANO =
        sprintf ''%.5g%s'' (to_double (of_nat (time div 100000 mod 2 ^ 32) / 10000)) ''s'')"
proof -
  have "time_loop time 1 0 = (1000, 1)" if "1000 \<le> time" "time < 1000000"
    using that by (simp add: time_loop.simps [of time] time_incr_def less_mult_imp_div_less)
  moreover have "time_loop time 1 0 = (1000000000, 5)" if t: "1000000000 \<le> time"
  proof -
    have "k \<le> time div d" if "k * d \<le> 1000000000" "0 < d" for k d
      using t that by (simp add: less_eq_div_iff_mult_less_eq)
    then show ?thesis using t by (simp add: time_loop.simps [of time] time_incr_def)
  qed
  ultimately show ?thesis
    by (auto simp: human_readable_time_def time_value_def time_unit_fmt_def)
qed

text \<open>
  \<open>KB\<close>, \<open>MB\<close> and \<open>GB\<close>, which multiply as doubles, are exact up to \<open>2^53\<close> bytes, and
  \<open>human_readable_memory\<close> prints an amount in the largest unit it has at least one of.
\<close>

lemma memory_units:
  "(m * 1000 \<le> 2 ^ 53 \<longrightarrow> KB m = Inr (m * 1000)) \<and> (m * 1000000 \<le> 2 ^ 53 \<longrightarrow> MB m = Inr (m * 1000000)) \<and>
   (m * 1000000000 \<le> 2 ^ 53 \<longrightarrow> GB m = Inr (m * 1000000000)) \<and>
   (m \<le> 2 ^ 53 \<longrightarrow> human_readable_memory sprintf m =
     (if 1000000000 \<le> m then sprintf ''%.3g %s'' (to_double (of_nat m / 1000000000)) ''GB''
      else if 1000000 \<le> m then sprintf ''%.3g %s'' (to_double (of_nat m / 1000000)) ''MB''
      else if 1000 \<le> m then sprintf ''%.3g %s'' (to_double (of_nat m / 1000)) ''KB''
      else sprintf ''%.3g %s'' (Fin (of_nat m)) ''Byte''))"
  using scale_exact [of m 1000] scale_exact [of m 1000000] scale_exact [of m 1000000000]
  by (simp add: KB_def MB_def GB_def human_readable_memory_def)

end
