(* ===== verification/Arrs.thy ===== *)
theory Arrs
  imports Cpp_Prelude
begin

text \<open>
  The code of \<open>cppkg/arrs\<close>: ranges of consecutive values and concatenation, for vectors
  (\<open>vecs.h\<close>), lists (\<open>list.h\<close>) and arrays (\<open>array.h\<close>). The values of a range are \<open>int\<close>s that
  do not overflow; \<open>ms\<close> is \<open>max_size()\<close> of the container.
\<close>

section \<open>The standard library\<close>

text \<open>A constructor of \<open>n\<close> elements, and \<open>std::iota\<close>.\<close>

definition sized :: "nat \<Rightarrow> nat \<Rightarrow> int list res" where
  "sized ms n = (if ms < n then Inl Length_error else Inr (replicate n 0))"

primrec iota :: "int list \<Rightarrow> int \<Rightarrow> int list" where
  "iota [] v = []"
| "iota (x # xs) v = v # iota xs (v + 1)"

text \<open>
  \<open>c.insert(position, first, last)\<close>. The range must not be one of the container itself:
  \<open>same\<close> tells whether it is, and then the behaviour is undefined.
\<close>

definition range_insert :: "bool \<Rightarrow> nat \<Rightarrow> 'a list \<Rightarrow> 'a list \<Rightarrow> 'a list res" where
  "range_insert same position c xs =
     (if same then Inl Undefined else Inr (take position c @ xs @ drop position c))"

section \<open>Vectors\<close>

definition vec_range :: "nat \<Rightarrow> int \<Rightarrow> int \<Rightarrow> int list res" where
  "vec_range ms start stop = bind_res (sized ms (u64 (stop - start))) (\<lambda>out. Inr (iota out start))"

definition vec_lconcat :: "bool \<Rightarrow> 'a list \<Rightarrow> 'a list \<Rightarrow> 'a list res" where
  "vec_lconcat same l r = range_insert same (length l) l r"

definition vec_rconcat :: "bool \<Rightarrow> 'a list \<Rightarrow> 'a list \<Rightarrow> 'a list res" where
  "vec_rconcat same l r = range_insert same 0 r l"

text \<open>\<open>out\<close> is a copy, and its own range never the one inserted.\<close>

definition vec_concat2 :: "'a list \<Rightarrow> 'a list \<Rightarrow> 'a list res" where
  "vec_concat2 l r = vec_lconcat False l r"

fun vec_concat_helper :: "'a list \<Rightarrow> 'a list \<Rightarrow> 'a list list \<Rightarrow> 'a list res" where
  "vec_concat_helper source r [] = vec_lconcat False source r"
| "vec_concat_helper source r (other # others) =
     (case vec_lconcat False source r of
        Inl e \<Rightarrow> Inl e | Inr source' \<Rightarrow> vec_concat_helper source' other others)"

definition vec_concat :: "'a list \<Rightarrow> 'a list \<Rightarrow> 'a list list \<Rightarrow> 'a list res" where
  "vec_concat l r other = vec_concat_helper l r other"

section \<open>Lists\<close>

definition list_range :: "nat \<Rightarrow> int \<Rightarrow> int \<Rightarrow> int list res" where
  "list_range ms start stop = bind_res (sized ms (u64 (stop - start))) (\<lambda>out. Inr (iota out start))"

definition list_lconcat :: "bool \<Rightarrow> 'a list \<Rightarrow> 'a list \<Rightarrow> 'a list res" where
  "list_lconcat same l r = range_insert same (length l) l r"

definition list_rconcat :: "bool \<Rightarrow> 'a list \<Rightarrow> 'a list \<Rightarrow> 'a list res" where
  "list_rconcat same l r = range_insert same 0 r l"

definition list_concat2 :: "'a list \<Rightarrow> 'a list \<Rightarrow> 'a list res" where
  "list_concat2 l r = list_lconcat False l r"

fun list_concat_helper :: "'a list \<Rightarrow> 'a list \<Rightarrow> 'a list list \<Rightarrow> 'a list res" where
  "list_concat_helper source r [] = list_lconcat False source r"
| "list_concat_helper source r (other # others) =
     (case list_lconcat False source r of
        Inl e \<Rightarrow> Inl e | Inr source' \<Rightarrow> list_concat_helper source' other others)"

definition list_concat :: "'a list \<Rightarrow> 'a list \<Rightarrow> 'a list list \<Rightarrow> 'a list res" where
  "list_concat l r other = list_concat_helper l r other"

section \<open>Arrays\<close>

definition array_range :: "nat \<Rightarrow> int \<Rightarrow> int list" where
  "array_range n start = iota (replicate n 0) start"

section \<open>Facts\<close>

lemma iota_eq: "iota xs v = map (\<lambda>i. v + int i) [0..<length xs]"
proof (induction xs arbitrary: v)
  case (Cons x xs)
  have "map (\<lambda>i. v + int i) [0..<length (x # xs)] = v # map (\<lambda>i. v + int (Suc i)) [0..<length xs]"
    by (simp add: upt_conv_Cons map_Suc_upt [symmetric] comp_def del: upt_Suc)
  then show ?case using Cons by (simp add: algebra_simps)
qed simp

lemma array_range_eq: "array_range n start = map (\<lambda>i. start + int i) [0..<n]"
  by (simp add: array_range_def iota_eq)

lemma vec_range_eq:
  assumes "start \<le> stop" "stop - start \<le> int ms" "ms < 2 ^ 63"
  shows "vec_range ms start stop = Inr (map (\<lambda>i. start + int i) [0..<nat (stop - start)])"
  using assms by (simp add: vec_range_def sized_def iota_eq u64_id nat_le_iff)

text \<open>A range whose end comes first asks for about \<open>2^64\<close> elements.\<close>

lemma vec_range_reversed:
  assumes "stop < start" "start - stop < 2 ^ 63" "ms < 2 ^ 63"
  shows "vec_range ms start stop = Inl Length_error"
proof -
  have "u64 (stop - start) = nat (stop - start + 2 ^ 64)" using assms by (simp add: u64_neg)
  moreover have "2 ^ 63 \<le> stop - start + 2 ^ 64" using assms(2) by simp
  ultimately have "2 ^ 63 \<le> u64 (stop - start)" by simp
  with assms(3) show ?thesis by (simp add: vec_range_def sized_def)
qed

lemma vec_concat_helper_eq: "vec_concat_helper source r others = Inr (source @ r @ concat others)"
  by (induction source r others rule: vec_concat_helper.induct) (simp_all add: vec_lconcat_def range_insert_def)

lemma list_concat_helper_eq: "list_concat_helper source r others = Inr (source @ r @ concat others)"
  by (induction source r others rule: list_concat_helper.induct) (simp_all add: list_lconcat_def range_insert_def)

lemma list_range_eq_vec: "list_range ms a b = vec_range ms a b"
  by (simp add: list_range_def vec_range_def)

section \<open>Properties\<close>

text \<open>
  \<open>concat\<close> of any number of vectors or lists returns their concatenation in order, even
  of a container with itself. \<open>range\<close> gives the values from the first up to but without the
  last one, for lists and vectors alike, and throws when the last comes before the first.
\<close>

lemma concat_and_range:
  assumes "ms < 2 ^ 63" "\<bar>stop - start\<bar> \<le> int ms"
  shows "vec_concat l r others = Inr (l @ r @ concat others) \<and>
    list_concat l r others = Inr (l @ r @ concat others) \<and>
    vec_range ms start stop = list_range ms start stop \<and>
    (start \<le> stop \<longrightarrow> vec_range ms start stop = Inr (map (\<lambda>i. start + int i) [0..<nat (stop - start)])) \<and>
    (stop < start \<longrightarrow> vec_range ms start stop = Inl Length_error)"
  using vec_range_eq [of start stop ms] vec_range_reversed [of stop start ms] assms
  by (auto simp: vec_concat_def vec_concat_helper_eq list_concat_def list_concat_helper_eq list_range_eq_vec)

end
