(* ===== verification/Flag_Set.thy ===== *)
theory Flag_Set
  imports Cpp_Prelude
begin

text \<open>
  The code of \<open>cppkg/flag\<close>: a set of options built on boost's \<open>program_options\<close>, and its
  usage message. Boost, \<open>cisab::fmts::sprintf\<close> and the logger are third-party code: what the
  code calls of them is a parameter.
\<close>

section \<open>The set of options\<close>

text \<open>
  Options are pairs of a name and a description. The positional options are the calls of
  \<open>add\<close> made so far.
\<close>

type_synonym option_desc = "string \<times> string"
type_synonym positional = "(string \<times> int) list"

record flag_set =
  flags_caption :: string
  flags :: "option_desc list"
  args_caption :: string
  args :: "option_desc list"
  pos :: positional

definition FlagSet :: "(string \<Rightarrow> string \<Rightarrow> string) \<Rightarrow> string \<Rightarrow> flag_set" where
  "FlagSet sprintf prog = \<lparr>flags_caption = sprintf ''%s flags'' prog, flags = [],
     args_caption = sprintf ''%s arguments'' prog, args = [], pos = []\<rparr>"

definition add_flag :: "option_desc \<Rightarrow> flag_set \<Rightarrow> flag_set" where
  "add_flag d fs = fs\<lparr>flags := flags fs @ [d]\<rparr>"

definition add_arg :: "string \<Rightarrow> string \<Rightarrow> int \<Rightarrow> flag_set \<Rightarrow> flag_set" where
  "add_arg name description maxcount fs =
     fs\<lparr>args := args fs @ [(name, description)], pos := pos fs @ [(name, maxcount)]\<rparr>"

section \<open>The usage message\<close>

definition max_unsigned :: nat where
  "max_unsigned = 4294967295"

text \<open>The loop that prints names until the unlimited one; \<open>name_at\<close> is \<open>name_for_position\<close>.\<close>

partial_function (option) usage_loop :: "(nat \<Rightarrow> string) \<Rightarrow> string \<Rightarrow> nat \<Rightarrow> string \<Rightarrow> string \<Rightarrow> (string \<times> string) run" where
  [code]: "usage_loop name_at final i arg usage =
     (if arg \<noteq> final then usage_loop name_at final (i + 1) (name_at i) (usage @ '' '' @ name_at i)
      else returns (arg, usage))"

definition make_usage_string ::
  "(positional \<Rightarrow> nat) \<Rightarrow> (positional \<Rightarrow> nat \<Rightarrow> string) \<Rightarrow> (string \<Rightarrow> option_desc list \<Rightarrow> string) \<Rightarrow> string \<Rightarrow> string
     \<Rightarrow> option_desc list \<Rightarrow> positional \<Rightarrow> string run" where
  "make_usage_string max_total name_for describe program_name caption options p =
     (let usage = ''usage: '' @ program_name @ '' '' @ (if length options > 0 then ''[flags]'' else []);
          n = max_total p
      in bind_run
           (if n = max_unsigned
            then bind_run (usage_loop (name_for p) (name_for p (max_unsigned - 1)) 0 [] usage)
                   (\<lambda>(arg, usage'). returns (usage' @ '' ['' @ arg @ ''...]''))
            else returns (foldl (\<lambda>u i. u @ '' '' @ name_for p i) usage [0..<n]))
           (\<lambda>usage'. returns (usage' @ [char_of (10::nat)] @ describe caption options)))"

section \<open>Parsing\<close>

datatype flag_log = Warn string | Error string

text \<open>
  What boost does in \<open>parse\<close>: \<open>store\<close> and \<open>notify\<close> give the message of the \<open>opt::error\<close> they
  throw, if any, and the variables they leave, \<open>counts\<close> is \<open>vars.count\<close>; \<open>stem\<close> cuts the program's path down to its name.
  The result has the value returned, the log, the set of options and the variables.
\<close>

definition parse ::
  "(option_desc list \<Rightarrow> positional \<Rightarrow> string list \<Rightarrow> 'v \<Rightarrow> string option \<times> 'v) \<Rightarrow> ('v \<Rightarrow> string option \<times> 'v) \<Rightarrow> ('v \<Rightarrow> string \<Rightarrow> nat) \<Rightarrow>
   (string \<Rightarrow> string) \<Rightarrow> (string \<Rightarrow> string \<Rightarrow> option_desc list \<Rightarrow> positional \<Rightarrow> string run) \<Rightarrow>
   string list \<Rightarrow> flag_set \<Rightarrow> 'v \<Rightarrow> (bool \<times> flag_log list \<times> flag_set \<times> 'v) run" where
  "parse store notify counts stem usage argv fs vars =
     (let fs' = add_flag (''help'', ''Display help message'') fs;
          all_options = flags fs' @ args fs'
      in case store all_options (pos fs') argv vars of
           (Some what, vars') \<Rightarrow> returns (False, [Error what], fs', vars')
         | (None, vars') \<Rightarrow>
             if counts vars' ''help'' \<noteq> 0
             then (case argv of
                     [] \<Rightarrow> fails Undefined
                   | program # _ \<Rightarrow>
                       bind_run (usage (stem program) (flags_caption fs') (flags fs') (pos fs'))
                         (\<lambda>u. returns (False, [Warn u], fs', vars')))
             else case notify vars' of
                    (Some what, vars'') \<Rightarrow> returns (False, [Error what], fs', vars'')
                  | (None, vars'') \<Rightarrow> returns (True, [], fs', vars''))"

text \<open>The overload without variables passes new ones and drops them.\<close>

definition parse_flags ::
  "(option_desc list \<Rightarrow> positional \<Rightarrow> string list \<Rightarrow> 'v \<Rightarrow> string option \<times> 'v) \<Rightarrow> ('v \<Rightarrow> string option \<times> 'v) \<Rightarrow> ('v \<Rightarrow> string \<Rightarrow> nat) \<Rightarrow>
   (string \<Rightarrow> string) \<Rightarrow> (string \<Rightarrow> string \<Rightarrow> option_desc list \<Rightarrow> positional \<Rightarrow> string run) \<Rightarrow>
   'v \<Rightarrow> string list \<Rightarrow> flag_set \<Rightarrow> (bool \<times> flag_log list \<times> flag_set) run" where
  "parse_flags store notify counts stem usage no_vars argv fs =
     bind_run (parse store notify counts stem usage argv fs no_vars) (\<lambda>(b, log, fs', vars). returns (b, log, fs'))"

text \<open>\<open>parse\<close> returns true without a log line, and false with exactly one.\<close>

lemma parse_result:
  assumes "parse store notify counts stem usage argv fs vars = returns (b, log, fs', vars')"
  shows "(b \<longrightarrow> log = []) \<and> (\<not> b \<longrightarrow> length log = 1) \<and> flags fs' = flags fs @ [(''help'', ''Display help message'')]"
  using assms
  by (auto simp: parse_def Let_def add_flag_def bind_run_def
      split: sum.splits if_splits option.splits prod.splits list.splits)

text \<open>
  Every call of \<open>parse\<close> adds the option \<open>help\<close> to the set, so \<open>k\<close> calls leave it there \<open>k\<close>
  times. Boost throws \<open>ambiguous_option\<close> for an option that is defined twice: with that, a
  second call of \<open>parse\<close> with \<open>--help\<close> logs an error and no usage message.
\<close>

lemma parse_adds_help_again:
  assumes "parse store notify counts stem usage argv fs vars = returns (b, log, fs1, vars1)"
    and "\<And>options p vars. 2 \<le> length (filter (\<lambda>d. fst d = ''help'') options) \<Longrightarrow>
      fst (store options p [''tool'', ''--help''] vars) = Some ''ambiguous''"
  shows "\<exists>fs2 vars'. parse store notify counts stem usage [''tool'', ''--help''] fs1 vars2 =
    returns (False, [Error ''ambiguous''], fs2, vars')"
proof -
  let ?all = "flags (add_flag (''help'', ''Display help message'') fs1) @ args fs1"
  have "2 \<le> length (filter (\<lambda>d. fst d = ''help'') ?all)"
    using parse_result [OF assms(1)] by (simp add: add_flag_def)
  from assms(2) [OF this] obtain vars' where
    "store ?all (pos (add_flag (''help'', ''Display help message'') fs1)) [''tool'', ''--help''] vars2 = (Some ''ambiguous'', vars')"
    by (metis prod.exhaust_sel)
  moreover have "args (add_flag d fs1) = args fs1" for d by (simp add: add_flag_def)
  ultimately show ?thesis by (simp add: parse_def Let_def)
qed

section \<open>Properties\<close>

lemma usage_loop_until:
  assumes "name_at k = final" "\<forall>j < k. name_at j \<noteq> final"
  shows "i \<le> k \<Longrightarrow> arg \<noteq> final \<Longrightarrow> usage_loop name_at final i arg usage =
    returns (final, usage @ concat (map (\<lambda>j. '' '' @ name_at j) [i..<Suc k]))"
proof (induction "k - i" arbitrary: i arg usage)
  case 0
  then have "i = k" by simp
  with assms(1) 0 show ?case by (subst usage_loop.simps, simp, subst usage_loop.simps, simp)
next
  case (Suc d)
  then have "i < k" by simp
  with assms(2) have "name_at i \<noteq> final" by blast
  with Suc \<open>i < k\<close> show ?case
    by (subst usage_loop.simps) (simp add: upt_conv_Cons del: upt_Suc)
qed

lemma usage_foldl: "foldl (\<lambda>u i. u @ CHR '' '' # f i) usage xs = usage @ concat (map (\<lambda>i. CHR '' '' # f i) xs)"
  by (induction xs arbitrary: usage) auto

text \<open>
  C39. The usage message ends and lists the positional arguments in order: each position when
  their number is bounded; otherwise the positions up to the first that has the name of the last
  possible position, and that name again in brackets. No position is listed if the last possible
  one has no name.
\<close>

theorem usage_lists_positions:
  shows "if max_total p \<noteq> max_unsigned
    then make_usage_string max_total name_for describe prog caption options p =
      returns (''usage: '' @ prog @ '' '' @ (if options \<noteq> [] then ''[flags]'' else []) @
        concat (map (\<lambda>j. '' '' @ name_for p j) [0..<max_total p]) @ [char_of (10::nat)] @ describe caption options)
    else \<exists>k < max_unsigned. name_for p k = name_for p (max_unsigned - 1) \<and>
      (\<forall>j < k. name_for p j \<noteq> name_for p (max_unsigned - 1)) \<and>
      make_usage_string max_total name_for describe prog caption options p =
        returns (''usage: '' @ prog @ '' '' @ (if options \<noteq> [] then ''[flags]'' else []) @
          (if name_for p k = [] then [] else concat (map (\<lambda>j. '' '' @ name_for p j) [0..<Suc k])) @
          '' ['' @ name_for p k @ ''...]'' @ [char_of (10::nat)] @ describe caption options)"
proof (cases "max_total p = max_unsigned")
  case True
  let ?last = "name_for p (max_unsigned - 1)"
  obtain k where k: "name_for p k = ?last" "\<forall>j < k. name_for p j \<noteq> ?last" "k \<le> max_unsigned - 1"
    using ex_least_nat_le [of "\<lambda>k. name_for p k = ?last" "max_unsigned - 1"] by auto
  have "usage_loop (name_for p) ?last 0 [] u =
      returns (name_for p k, u @ (if name_for p k = [] then [] else concat (map (\<lambda>j. '' '' @ name_for p j) [0..<Suc k])))" for u
    using usage_loop_until [of "name_for p" k ?last 0 "[]" u] k
    by (cases "?last = []") (simp_all add: usage_loop.simps [of _ "[]"] del: upt_Suc)
  with True k show ?thesis
    by (auto simp: make_usage_string_def Let_def max_unsigned_def simp del: upt_Suc intro!: exI [of _ k])
next
  case False
  then show ?thesis by (cases "options = []") (simp_all add: make_usage_string_def usage_foldl Let_def)
qed


theorem usage_lists_positions_witness:
  "make_usage_string (\<lambda>p. max_unsigned) (\<lambda>p i. if i = 0 then ''in'' else ''out'') (\<lambda>c os. c) ''tool'' ''flags'' [] [] =
      returns (''usage: tool  in out [out...]'' @ [char_of (10::nat)] @ ''flags'') \<and>
    make_usage_string length (\<lambda>p i. fst (p ! i)) (\<lambda>c os. c) ''tool'' ''flags'' [] [(''in'', 1), (''out'', 1)] =
      returns (''usage: tool  in out'' @ [char_of (10::nat)] @ ''flags'')"
proof
  let ?name = "\<lambda>(p :: positional) i. if i = (0 :: nat) then ''in'' else ''out''"
  obtain k where k: "?name [] k = ?name [] (max_unsigned - 1)" "\<forall>j < k. ?name [] j \<noteq> ?name [] (max_unsigned - 1)"
    "make_usage_string (\<lambda>p. max_unsigned) ?name (\<lambda>c os. c) ''tool'' ''flags'' [] [] =
      returns (''usage: '' @ ''tool'' @ '' '' @ (if ([] :: option_desc list) \<noteq> [] then ''[flags]'' else []) @
        (if ?name [] k = [] then [] else concat (map (\<lambda>j. '' '' @ ?name [] j) [0..<Suc k])) @
        '' ['' @ ?name [] k @ ''...]'' @ [char_of (10::nat)] @ ''flags'')"
    using usage_lists_positions [of "\<lambda>p. max_unsigned" "[]" ?name "\<lambda>c os. c" "''tool''" "''flags''" "[]"] by auto
  have "max_unsigned - 1 \<noteq> 0" by (simp add: max_unsigned_def)
  with k(1,2) have "k \<noteq> 0" "\<not> 1 < k" by (auto split: if_splits)
  then have "k = 1" by simp
  with k(3) show "make_usage_string (\<lambda>p. max_unsigned) ?name (\<lambda>c os. c) ''tool'' ''flags'' [] [] =
      returns (''usage: tool  in out [out...]'' @ [char_of (10::nat)] @ ''flags'')" by simp
  show "make_usage_string length (\<lambda>p i. fst (p ! i)) (\<lambda>c os. c) ''tool'' ''flags'' [] [(''in'', 1), (''out'', 1)] =
      returns (''usage: tool  in out'' @ [char_of (10::nat)] @ ''flags'')"
    using usage_lists_positions [of length "[(''in'', 1), (''out'', 1)]" "\<lambda>p i. fst (p ! i)" "\<lambda>c os. c" "''tool''" "''flags''" "[]"]
    by (simp add: max_unsigned_def upt_rec)
qed

end
