(* ===== verification/Error_Msg.thy ===== *)
theory Error_Msg
  imports Cpp_Prelude
begin

text \<open>
  The code of \<open>cppkg/error\<close>: error messages behind shared pointers. \<open>ErrMsg\<close> is the only
  class of the repository that implements \<open>iError\<close>; a pointer is \<open>None\<close> for \<open>nullptr\<close>. The
  third-party \<open>cisab::fmts::sprintf\<close> is a parameter.
\<close>

record ErrMsg =
  msg :: string

definition err_to_string :: "ErrMsg \<Rightarrow> string" where
  "err_to_string e = msg e"

definition ErrMsg_of :: "string \<Rightarrow> ErrMsg" where
  "ErrMsg_of m = \<lparr>msg = m\<rparr>"

definition ErrMsg_format :: "(string \<Rightarrow> 'a list \<Rightarrow> string) \<Rightarrow> string \<Rightarrow> 'a list \<Rightarrow> ErrMsg" where
  "ErrMsg_format sprintf format args = ErrMsg_of (sprintf format args)"

type_synonym errptr = "ErrMsg option"

definition error :: "string \<Rightarrow> errptr" where
  "error m = Some (ErrMsg_of m)"

definition errorf :: "(string \<Rightarrow> 'a list \<Rightarrow> string) \<Rightarrow> string \<Rightarrow> 'a list \<Rightarrow> errptr" where
  "errorf sprintf format args = Some (ErrMsg_format sprintf format args)"

lemma error_not_null [simp]: "error m \<noteq> None"
  by (simp add: error_def)

lemma error_inject [simp]: "error m = error m' \<longleftrightarrow> m = m'"
  by (simp add: error_def ErrMsg_of_def)

lemma error_message: "map_option err_to_string (error m) = Some m"
  by (simp add: error_def ErrMsg_of_def err_to_string_def)

end
