(* ===== verification/Async_Client.thy ===== *)
theory Async_Client
  imports Error_Msg
begin

text \<open>
  The client side of \<open>cppkg/egrpc\<close>: \<open>iclient.h\<close>, \<open>iclient_async.h\<close>, \<open>iclient_async.cc\<close>,
  \<open>client_async.h\<close> and \<open>client_async_stream.h\<close>. gRPC itself is third-party code: the model
  has the operations the handlers start on it (one outstanding operation per handler, known
  by the handler's tag) and takes the outcome of each, which gRPC delivers by calling
  \<open>handle\<close>, as an argument. Log lines are events without their text.
\<close>

section \<open>Configuration\<close>

record ClientConfig =
  request_duration :: int
  stream_duration :: int
  request_retry :: nat

definition default_config :: ClientConfig where
  "default_config = \<lparr>request_duration = 250, stream_duration = 10000, request_retry = 5\<rparr>"

text \<open>\<open>build_ctx\<close>: the deadline set on a context, in milliseconds from the time \<open>now\<close>.\<close>

definition build_ctx :: "ClientConfig \<Rightarrow> int \<Rightarrow> bool \<Rightarrow> int" where
  "build_ctx cfg now is_request = now + (if is_request then request_duration cfg else stream_duration cfg)"

section \<open>Promises\<close>

text \<open>
  The state of a \<open>std::promise\<close>: the value, once set. A second \<open>set_value\<close> throws, which
  inside a destructor terminates the program.
\<close>

datatype status = OK | Failed string

definition status_error :: "status \<Rightarrow> errptr" where
  "status_error s = (case s of OK \<Rightarrow> None | Failed m \<Rightarrow> error m)"

type_synonym promises = "errptr option list"

definition set_value :: "nat \<Rightarrow> errptr \<Rightarrow> promises \<Rightarrow> promises res" where
  "set_value p e ps =
     (if p < length ps \<and> ps ! p = None then Inr (ps[p := Some e]) else Inl (Fatal ''future_error''))"

text \<open>\<open>~iClientHandler\<close>\<close>

definition destroy_handler :: "nat option \<Rightarrow> errptr \<Rightarrow> promises \<Rightarrow> promises res" where
  "destroy_handler complete_promise e ps =
     (case complete_promise of Some p \<Rightarrow> set_value p e ps | None \<Rightarrow> Inr ps)"

section \<open>Unary calls\<close>

datatype log_level = Info | Error

datatype 'r event = Init nat | Log log_level | Callback 'r

record unary =
  complete_promise :: "nat option"
  nretries :: nat

text \<open>
  Handlers by tag (\<open>None\<close> once deleted), the tags of the outstanding calls, the promises and
  the events.
\<close>

record 'r client =
  handlers :: "unary option list"
  outstanding :: "nat list"
  promised :: promises
  events :: "'r event list"

definition no_calls :: "'r client" where
  "no_calls = \<lparr>handlers = [], outstanding = [], promised = [], events = []\<rparr>"

text \<open>The constructor; \<open>init_\<close> starts the call with the handler as its tag.\<close>

definition new_handler :: "nat option \<Rightarrow> nat \<Rightarrow> 'r client \<Rightarrow> 'r client" where
  "new_handler p n c =
     (let tag = length (handlers c)
      in c\<lparr>handlers := handlers c @ [Some \<lparr>complete_promise = p, nretries = n\<rparr>],
           outstanding := outstanding c @ [tag], events := events c @ [Init tag]\<rparr>)"

definition emit :: "'r event \<Rightarrow> 'r client \<Rightarrow> 'r client" where
  "emit e c = c\<lparr>events := events c @ [e]\<rparr>"

definition delete_handler :: "nat \<Rightarrow> nat option \<Rightarrow> errptr \<Rightarrow> 'r client \<Rightarrow> 'r client res" where
  "delete_handler tag p e c =
     bind_res (destroy_handler p e (promised c)) (\<lambda>ps.
     Inr (c\<lparr>handlers := (handlers c)[tag := None], promised := ps\<rparr>))"

text \<open>
  \<open>handle\<close>, called on the handler with this tag when its call has completed with a status
  and a reply. \<open>has_cb\<close> tells whether the callback is set.
\<close>

definition handle :: "bool \<Rightarrow> nat \<Rightarrow> status \<Rightarrow> 'r \<Rightarrow> 'r client \<Rightarrow> 'r client res" where
  "handle has_cb tag st reply c =
     (if tag < length (handlers c)
      then case handlers c ! tag of
             None \<Rightarrow> Inl Undefined
           | Some h \<Rightarrow>
               (case st of
                  OK \<Rightarrow>
                    let c1 = emit (Log Info) c;
                        c2 = (if has_cb then emit (Callback reply) c1 else c1)
                    in delete_handler tag (complete_promise h) None c2
                | Failed m \<Rightarrow>
                    if nretries h > 0
                    then let c1 = emit (Log Error) c;
                             c2 = new_handler (complete_promise h) (nretries h - 1) c1
                         in delete_handler tag None None c2
                    else delete_handler tag (complete_promise h) (error m) (emit (Log Error) c))
      else Inl Undefined)"

text \<open>A call of the client, with a new promise; and the delivery of an outcome by gRPC.\<close>

definition start_call :: "nat \<Rightarrow> 'r client \<Rightarrow> 'r client" where
  "start_call n c =
     new_handler (Some (length (promised c))) n (c\<lparr>promised := promised c @ [None]\<rparr>)"

definition deliver :: "bool \<Rightarrow> nat \<Rightarrow> status \<Rightarrow> 'r \<Rightarrow> 'r client \<Rightarrow> 'r client res" where
  "deliver has_cb tag st reply c =
     handle has_cb tag st reply (c\<lparr>outstanding := remove1 tag (outstanding c)\<rparr>)"

section \<open>Reachable states\<close>

text \<open>
  The client starts calls at any time, and gRPC completes the outstanding ones in any order
  and with any outcome.
\<close>

inductive client_step :: "bool \<Rightarrow> 'r client \<Rightarrow> 'r client res \<Rightarrow> bool" for has_cb where
  Start: "client_step has_cb c (Inr (start_call n c))"
| Complete: "tag \<in> set (outstanding c) \<Longrightarrow> client_step has_cb c (deliver has_cb tag st reply c)"

inductive_cases client_stepE: "client_step has_cb c r"

inductive client_reach :: "bool \<Rightarrow> 'r client res \<Rightarrow> bool" for has_cb where
  Begin: "client_reach has_cb (Inr no_calls)"
| Next: "client_reach has_cb (Inr c) \<Longrightarrow> client_step has_cb c r \<Longrightarrow> client_reach has_cb r"

text \<open>
  The invariant: the outstanding tags are those of the live handlers, each of which holds a
  promise that is not set; and every promise is either set or held by exactly one of them.
\<close>

definition holders :: "nat \<Rightarrow> 'r client \<Rightarrow> nat set" where
  "holders p c = {t. t < length (handlers c) \<and> (\<exists>h. handlers c ! t = Some h \<and> complete_promise h = Some p)}"

definition client_ok :: "'r client \<Rightarrow> bool" where
  "client_ok c \<longleftrightarrow> distinct (outstanding c) \<and>
     set (outstanding c) = {t. t < length (handlers c) \<and> handlers c ! t \<noteq> None} \<and>
     (\<forall>t h. t < length (handlers c) \<longrightarrow> handlers c ! t = Some h \<longrightarrow>
        (\<exists>p < length (promised c). complete_promise h = Some p)) \<and>
     (\<forall>p < length (promised c). if promised c ! p = None then \<exists>t. holders p c = {t} else holders p c = {})"

lemma client_okD:
  assumes "client_ok c"
  shows "distinct (outstanding c)"
    and "t \<in> set (outstanding c) \<longleftrightarrow> t < length (handlers c) \<and> handlers c ! t \<noteq> None"
    and "t < length (handlers c) \<Longrightarrow> handlers c ! t = Some h \<Longrightarrow>
      \<exists>p < length (promised c). complete_promise h = Some p"
    and "p < length (promised c) \<Longrightarrow> promised c ! p = None \<Longrightarrow> \<exists>t. holders p c = {t}"
    and "p < length (promised c) \<Longrightarrow> promised c ! p \<noteq> None \<Longrightarrow> holders p c = {}"
  using assms unfolding client_ok_def by (blast, blast, blast, metis, metis)

lemma client_okI:
  assumes "distinct (outstanding c)"
    and "\<And>t. t \<in> set (outstanding c) \<longleftrightarrow> t < length (handlers c) \<and> handlers c ! t \<noteq> None"
    and "\<And>t h. t < length (handlers c) \<Longrightarrow> handlers c ! t = Some h \<Longrightarrow>
      \<exists>p < length (promised c). complete_promise h = Some p"
    and "\<And>p. p < length (promised c) \<Longrightarrow> promised c ! p = None \<Longrightarrow> \<exists>t. holders p c = {t}"
    and "\<And>p. p < length (promised c) \<Longrightarrow> promised c ! p \<noteq> None \<Longrightarrow> holders p c = {}"
  shows "client_ok c"
  unfolding client_ok_def using assms(1) assms(2) assms(3) assms(4,5) by (intro conjI) (blast, blast, blast, metis)

lemma client_ok_start: "client_ok no_calls"
  by (simp add: client_ok_def no_calls_def)

lemma client_ok_handler:
  assumes "client_ok c" "tag \<in> set (outstanding c)"
  obtains h p where "tag < length (handlers c)" "handlers c ! tag = Some h" "complete_promise h = Some p"
    "p < length (promised c)" "promised c ! p = None" "holders p c = {tag}"
proof -
  note d = client_okD [OF assms(1)]
  from assms(2) d(2) obtain h where h: "tag < length (handlers c)" "handlers c ! tag = Some h" by auto
  from d(3) [OF h] obtain p where p: "p < length (promised c)" "complete_promise h = Some p" by blast
  have in_holders: "tag \<in> holders p c" using h p(2) by (simp add: holders_def)
  with d(5) [OF p(1)] have unset: "promised c ! p = None" by blast
  with d(4) [OF p(1)] in_holders have "holders p c = {tag}" by auto
  with h p unset that show thesis by blast
qed

lemma client_ok_finish:
  assumes ok: "client_ok c" and tag: "tag \<in> set (outstanding c)" "tag < length (handlers c)"
    and p: "p < length (promised c)" "holders p c = {tag}"
    and c': "handlers c' = (handlers c)[tag := None]" "outstanding c' = remove1 tag (outstanding c)"
      "promised c' = (promised c)[p := Some e]"
  shows "client_ok c'"
proof -
  have holders: "holders q c' = holders q c - {tag}" for q
    using tag(2) by (auto simp: holders_def c' nth_list_update split: if_splits)
  have "tag \<in> holders p c" using p(2) by simp
  then have other: "tag \<notin> holders q c" if "q \<noteq> p" for q
    using that by (auto simp: holders_def)
  note d = client_okD [OF ok]
  show ?thesis
  proof (rule client_okI)
    show "distinct (outstanding c')" using d(1) by (simp add: c')
    show "t \<in> set (outstanding c') \<longleftrightarrow> t < length (handlers c') \<and> handlers c' ! t \<noteq> None" for t
      using d(1,2) tag(2) by (simp add: c' nth_list_update)
    show "\<exists>p < length (promised c'). complete_promise h = Some p"
      if "t < length (handlers c')" "handlers c' ! t = Some h" for t h
      using that d(3) [of t h] tag(2) by (simp add: c' nth_list_update split: if_splits)
    show "\<exists>t. holders q c' = {t}" if "q < length (promised c')" "promised c' ! q = None" for q
      using that p d(4) [of q] other [of q] by (cases "q = p") (auto simp: c' holders)
    show "holders q c' = {}" if "q < length (promised c')" "promised c' ! q \<noteq> None" for q
      using that p d(5) [of q] by (cases "q = p") (simp_all add: c' holders)
  qed
qed

lemma client_ok_retry:
  assumes ok: "client_ok c" and tag: "tag \<in> set (outstanding c)" "tag < length (handlers c)"
    and p: "p < length (promised c)" "holders p c = {tag}"
    and c': "handlers c' = (handlers c)[tag := None] @ [Some \<lparr>complete_promise = Some p, nretries = n\<rparr>]"
      "outstanding c' = remove1 tag (outstanding c) @ [length (handlers c)]" "promised c' = promised c"
  shows "client_ok c'"
proof -
  let ?new = "length (handlers c)"
  have holders: "holders q c' = holders q c - {tag} \<union> (if q = p then {?new} else {})" for q
    using tag(2) by (auto simp: holders_def c' nth_append nth_list_update less_Suc_eq split: if_splits)
  have "tag \<in> holders p c" using p(2) by simp
  then have other: "tag \<notin> holders q c" if "q \<noteq> p" for q
    using that by (auto simp: holders_def)
  note d = client_okD [OF ok]
  have unset: "promised c ! p = None" using d(5) [OF p(1)] p(2) by blast
  show ?thesis
  proof (rule client_okI)
    show "distinct (outstanding c')" using d(1) d(2) [of ?new] by (simp add: c')
    show "t \<in> set (outstanding c') \<longleftrightarrow> t < length (handlers c') \<and> handlers c' ! t \<noteq> None" for t
      using d(1) d(2) [of t] tag(2) by (auto simp: c' nth_append nth_list_update less_Suc_eq)
    show "\<exists>p < length (promised c'). complete_promise h = Some p"
      if "t < length (handlers c')" "handlers c' ! t = Some h" for t h
      using that d(3) [of t h] tag(2) p(1)
      by (auto simp: c' nth_append nth_list_update less_Suc_eq split: if_splits)
    show "\<exists>t. holders q c' = {t}" if "q < length (promised c')" "promised c' ! q = None" for q
      using that p d(4) [of q] other [of q] by (cases "q = p") (auto simp: c' holders)
    show "holders q c' = {}" if "q < length (promised c')" "promised c' ! q \<noteq> None" for q
      using that unset d(5) [of q] by (cases "q = p") (simp_all add: c' holders)
  qed
qed

lemma client_ok_start_call: "client_ok c \<Longrightarrow> client_ok (start_call n c)"
proof -
  assume ok: "client_ok c"
  let ?c = "start_call n c" and ?p = "length (promised c)" and ?new = "length (handlers c)"
  have c': "handlers ?c = handlers c @ [Some \<lparr>complete_promise = Some ?p, nretries = n\<rparr>]"
    "outstanding ?c = outstanding c @ [?new]" "promised ?c = promised c @ [None]"
    by (simp_all add: start_call_def new_handler_def Let_def)
  note d = client_okD [OF ok]
  have none: "holders ?p c = {}" using d(3) by (fastforce simp: holders_def)
  then have holders: "holders q ?c = holders q c \<union> (if q = ?p then {?new} else {})" for q
    by (auto simp: holders_def c' nth_append less_Suc_eq split: if_splits)
  show ?thesis
  proof (rule client_okI)
    show "distinct (outstanding ?c)" using d(1) d(2) [of ?new] by (simp add: c')
    show "t \<in> set (outstanding ?c) \<longleftrightarrow> t < length (handlers ?c) \<and> handlers ?c ! t \<noteq> None" for t
      using d(2) [of t] by (auto simp: c' nth_append less_Suc_eq)
    show "\<exists>p < length (promised ?c). complete_promise h = Some p"
      if "t < length (handlers ?c)" "handlers ?c ! t = Some h" for t h
      using that d(3) [of t h] by (auto simp: c' nth_append less_Suc_eq split: if_splits)
    show "\<exists>t. holders q ?c = {t}" if "q < length (promised ?c)" "promised ?c ! q = None" for q
      using that none d(4) [of q] by (cases "q = ?p") (simp_all add: c' holders nth_append)
    show "holders q ?c = {}" if "q < length (promised ?c)" "promised ?c ! q \<noteq> None" for q
      using that d(5) [of q] by (cases "q = ?p") (simp_all add: c' holders nth_append)
  qed
qed

lemma deliver_ok:
  assumes "client_ok c" "tag \<in> set (outstanding c)"
  shows "\<exists>c'. deliver has_cb tag st reply c = Inr c' \<and> client_ok c'"
proof -
  from client_ok_handler [OF assms] obtain h p where
    h: "tag < length (handlers c)" "handlers c ! tag = Some h" "complete_promise h = Some p"
    and p: "p < length (promised c)" "promised c ! p = None" "holders p c = {tag}" .
  note finish = client_ok_finish [OF assms h(1) p(1,3)]
  show ?thesis
  proof (cases "\<exists>m. st = Failed m \<and> nretries h > 0")
    case True
    then show ?thesis
      using h by (auto simp: deliver_def handle_def emit_def new_handler_def delete_handler_def
          destroy_handler_def Let_def list_update_append1 intro!: client_ok_retry [OF assms h(1) p(1,3)])
  next
    case False
    then show ?thesis
      using h p by (cases st) (auto simp: deliver_def handle_def emit_def delete_handler_def destroy_handler_def
          set_value_def Let_def intro!: finish)
  qed
qed

lemma client_reach_ok: "client_reach has_cb r \<Longrightarrow> \<exists>c. r = Inr c \<and> client_ok c"
proof (induction rule: client_reach.induct)
  case Begin
  then show ?case using client_ok_start by blast
next
  case (Next c r)
  then have ok: "client_ok c" by simp
  from Next(2) show ?case
  proof cases
    case (Start n)
    with client_ok_start_call [OF ok] show ?thesis by simp
  next
    case (Complete tag st reply)
    with deliver_ok [OF ok, of tag has_cb st reply] show ?thesis by auto
  qed
qed

section \<open>One call and its retries\<close>

text \<open>The outcomes of the successive attempts of a call, delivered in order.\<close>

fun run_call :: "bool \<Rightarrow> (status \<times> 'r) list \<Rightarrow> 'r client \<Rightarrow> 'r client res" where
  "run_call has_cb [] c = Inr c"
| "run_call has_cb ((st, reply) # os) c =
     (case outstanding c of
        [] \<Rightarrow> Inr c
      | tag # tags \<Rightarrow>
          (case deliver has_cb tag st reply c of Inl e \<Rightarrow> Inl e | Inr c' \<Rightarrow> run_call has_cb os c'))"

text \<open>What a call with \<open>n\<close> retries reports: its error and the replies passed on.\<close>

fun call_result :: "nat \<Rightarrow> (status \<times> 'r) list \<Rightarrow> (errptr \<times> 'r list) option" where
  "call_result n [] = None"
| "call_result n ((OK, reply) # os) = Some (None, [reply])"
| "call_result n ((Failed m, reply) # os) = (if n = 0 then Some (error m, []) else call_result (n - 1) os)"

definition callbacks :: "'r event list \<Rightarrow> 'r list" where
  "callbacks es = concat (map (\<lambda>e. case e of Callback r \<Rightarrow> [r] | _ \<Rightarrow> []) es)"

definition inits :: "'r event list \<Rightarrow> nat" where
  "inits es = length (filter (\<lambda>e. case e of Init t \<Rightarrow> True | _ \<Rightarrow> False) es)"

lemma event_views [simp]:
  "callbacks [] = []" "callbacks (es @ fs) = callbacks es @ callbacks fs" "callbacks (Init t # es) = callbacks es"
  "callbacks (Log l # es) = callbacks es" "callbacks (Callback r # es) = r # callbacks es"
  "inits [] = 0" "inits (es @ fs) = inits es + inits fs" "inits (Init t # es) = Suc (inits es)"
  "inits (Log l # es) = inits es" "inits (Callback r # es) = inits es"
  by (simp_all add: callbacks_def inits_def)

lemma run_call_idle: "outstanding c = [] \<Longrightarrow> run_call has_cb os c = Inr c"
  by (cases "(has_cb, os, c)" rule: run_call.cases) simp_all

text \<open>
  The completion of the one call that is outstanding: another attempt, or the end of the call
  with the promise set.
\<close>

lemma deliver_single:
  assumes "outstanding c = [tag]" "tag < length (handlers c)"
    and "handlers c ! tag = Some \<lparr>complete_promise = Some p, nretries = n\<rparr>"
    and "p < length (promised c)" "promised c ! p = None"
  obtains (retry) c' where "st \<noteq> OK" "0 < n" "deliver True tag st reply c = Inr c'"
      "outstanding c' = [length (handlers c)]" "length (handlers c') = Suc (length (handlers c))"
      "handlers c' ! length (handlers c) = Some \<lparr>complete_promise = Some p, nretries = n - 1\<rparr>"
      "promised c' = promised c" "callbacks (events c') = callbacks (events c)"
      "inits (events c') = Suc (inits (events c))"
    | (final) c' where "st = OK \<or> n = 0" "deliver True tag st reply c = Inr c'" "outstanding c' = []"
      "promised c' = (promised c)[p := Some (status_error st)]"
      "callbacks (events c') = callbacks (events c) @ (if st = OK then [reply] else [])"
      "inits (events c') = inits (events c)"
proof (cases "st \<noteq> OK \<and> 0 < n")
  case True
  let ?c = "c\<lparr>handlers := (handlers c)[tag := None] @ [Some \<lparr>complete_promise = Some p, nretries = n - 1\<rparr>],
      outstanding := [length (handlers c)], events := events c @ [Log Error] @ [Init (length (handlers c))]\<rparr>"
  have "deliver True tag st reply c = Inr ?c"
    using True assms by (cases st) (simp_all add: deliver_def handle_def emit_def new_handler_def
        delete_handler_def destroy_handler_def Let_def list_update_append1)
  from retry [OF _ _ this] True show thesis by (simp add: nth_append)
next
  case False
  let ?c = "c\<lparr>handlers := (handlers c)[tag := None], outstanding := [],
      promised := (promised c)[p := Some (status_error st)],
      events := events c @ [Log (if st = OK then Info else Error)] @ (if st = OK then [Callback reply] else [])\<rparr>"
  have "deliver True tag st reply c = Inr ?c"
    using False assms by (cases st) (simp_all add: deliver_def handle_def emit_def delete_handler_def
        destroy_handler_def set_value_def status_error_def Let_def)
  from final [OF _ this] False show thesis by simp
qed

lemma call_result_final: "st = OK \<or> n = 0 \<Longrightarrow> call_result n ((st, reply) # os) = Some (status_error st, if st = OK then [reply] else [])"
  by (cases st) (simp_all add: status_error_def)

lemma call_result_retry: "st \<noteq> OK \<Longrightarrow> 0 < n \<Longrightarrow> call_result n ((st, reply) # os) = call_result (n - 1) os"
  by (cases st) simp_all

lemma run_call_correct:
  assumes "outstanding c = [tag]" "tag < length (handlers c)"
    and "handlers c ! tag = Some \<lparr>complete_promise = Some p, nretries = n\<rparr>"
    and "p < length (promised c)" "promised c ! p = None"
  shows "\<exists>c'. run_call True os c = Inr c' \<and>
    promised c' = (promised c)[p := map_option fst (call_result n os)] \<and>
    callbacks (events c') = callbacks (events c) @ (case call_result n os of None \<Rightarrow> [] | Some r \<Rightarrow> snd r) \<and>
    inits (events c') \<le> inits (events c) + n"
  using assms
proof (induction os arbitrary: c tag n)
  case Nil
  have "(promised c)[p := None] = promised c" using Nil by (metis list_update_id)
  with Nil show ?case by simp
next
  case (Cons x os)
  obtain st reply where x: "x = (st, reply)" by (cases x)
  from Cons.prems show ?case
  proof (cases rule: deliver_single [where st = st and reply = reply, case_names retry final])
    case (retry c')
    with Cons.IH [of c' "length (handlers c)" "n - 1"] Cons.prems show ?thesis
      by (auto simp: x call_result_retry)
  next
    case (final c')
    with Cons.prems(1) show ?thesis by (auto simp: x call_result_final run_call_idle)
  qed
qed

section \<open>Properties\<close>

text \<open>
  C8. However calls are started and completed, no handler is used after it was deleted and
  no promise is set twice: each promise is either set, and then no handler holds it, or held
  by exactly one live handler, whose call is outstanding.
\<close>

theorem client_promises:
  assumes "client_reach has_cb r"
  shows "\<exists>c. r = Inr c \<and> (\<forall>p < length (promised c).
    if promised c ! p = None then \<exists>t \<in> set (outstanding c). holders p c = {t} else holders p c = {})"
proof -
  from client_reach_ok [OF assms] obtain c where c: "r = Inr c" "client_ok c" by blast
  note d = client_okD [OF c(2)]
  have "\<exists>t \<in> set (outstanding c). holders p c = {t}" if p: "p < length (promised c)" "promised c ! p = None" for p
  proof -
    from d(4) [OF p] obtain t where t: "holders p c = {t}" by blast
    then have "t \<in> holders p c" by simp
    then have "t \<in> set (outstanding c)" using d(2) [of t] by (auto simp: holders_def)
    with t show ?thesis by blast
  qed
  with c(1) d(5) show ?thesis by auto
qed

theorem client_promises_witness:
  "\<exists>c. (Inr (start_call 2 no_calls) :: nat client res) = Inr c \<and> (\<forall>p < length (promised c).
    if promised c ! p = None then \<exists>t \<in> set (outstanding c). holders p c = {t} else holders p c = {})"
  by (rule client_promises [where has_cb = True], rule client_reach.Next [OF client_reach.Begin client_step.Start])

text \<open>
  C9. A call with \<open>n\<close> retries makes at most \<open>n + 1\<close> attempts. The first attempt that succeeds
  sets the promise without an error and passes its reply, and only that one, to the callback;
  when \<open>n + 1\<close> attempts have failed the promise gets the message of the last of them.
\<close>

theorem client_retries:
  "\<exists>c'. run_call True os (start_call n no_calls) = Inr c' \<and>
    promised c' = [map_option fst (call_result n os)] \<and>
    callbacks (events c') = (case call_result n os of None \<Rightarrow> [] | Some r \<Rightarrow> snd r) \<and>
    inits (events c') \<le> n + 1"
  using run_call_correct [of "start_call n no_calls" 0 0 n os]
  by (simp add: start_call_def new_handler_def no_calls_def Let_def)

end
