(* ===== verification/Async_Stream.thy ===== *)
theory Async_Stream
  imports Async_Client
begin

text \<open>
  The streaming client of \<open>client_async_stream.h\<close> and the waiting functions of
  \<open>iclient_async.cc\<close>.
\<close>

section \<open>The stream handler\<close>

datatype call_status = STARTUP | PROCESS | FINISH

text \<open>The states in the order of their enumerators.\<close>

primrec status_index :: "call_status \<Rightarrow> nat" where
  "status_index STARTUP = 0"
| "status_index PROCESS = 1"
| "status_index FINISH = 2"

instantiation call_status :: linorder
begin

definition less_eq_call_status :: "call_status \<Rightarrow> call_status \<Rightarrow> bool" where
  "less_eq_call_status s t = (status_index s \<le> status_index t)"

definition less_call_status :: "call_status \<Rightarrow> call_status \<Rightarrow> bool" where
  "less_call_status s t = (status_index s < status_index t)"

instance
proof
  fix s t :: call_status
  show "s \<le> t \<Longrightarrow> t \<le> s \<Longrightarrow> s = t"
    by (cases s; cases t) (simp_all add: less_eq_call_status_def)
qed (auto simp: less_eq_call_status_def less_call_status_def)

end

lemma call_status_le [simp]: "STARTUP \<le> s" "s \<le> FINISH" "(PROCESS :: call_status) \<le> s \<longleftrightarrow> s \<noteq> STARTUP"
  by (cases s; simp add: less_eq_call_status_def)+

text \<open>
  The operation outstanding on the reader, whose completion gRPC delivers to the handler:
  starting the call, reading a message, finishing. gRPC allows one at a time.
\<close>

datatype reader_op = Start_op | Read_op | Finish_op

text \<open>
  \<open>has_promise\<close> is whether \<open>complete_promise_\<close> points to a promise, and \<open>stream_promise\<close> what that
  was set to.
\<close>

record 'd stream =
  live :: bool
  reader_set :: bool
  call_status :: call_status
  pending_op :: "reader_op option"
  has_promise :: bool
  stream_promise :: "errptr option"
  handled :: "'d list"

definition issue :: "reader_op \<Rightarrow> 'd stream \<Rightarrow> 'd stream res" where
  "issue x h = (if pending_op h = None then Inr (h\<lparr>pending_op := Some x\<rparr>) else Inl Undefined)"

text \<open>
  \<open>handle\<close>: \<open>reply\<close> is what gRPC has put into \<open>reply_\<close>, and \<open>st\<close> into \<open>status_\<close>.
\<close>

definition stream_handle :: "bool \<Rightarrow> 'd \<Rightarrow> status \<Rightarrow> 'd stream \<Rightarrow> 'd stream res" where
  "stream_handle event_status reply st h =
     (if \<not> live h then Inl Undefined
      else if \<not> reader_set h then Inl (Fatal ''assert'')
      else case call_status h of
        STARTUP \<Rightarrow>
          if event_status then issue Read_op (h\<lparr>call_status := PROCESS\<rparr>)
          else issue Finish_op (h\<lparr>call_status := FINISH\<rparr>)
      | PROCESS \<Rightarrow>
          if event_status then issue Read_op (h\<lparr>handled := handled h @ [reply]\<rparr>)
          else issue Finish_op (h\<lparr>call_status := FINISH\<rparr>)
      | FINISH \<Rightarrow>
          if \<not> has_promise h then Inr (h\<lparr>live := False\<rparr>)
          else if stream_promise h = None
          then Inr (h\<lparr>live := False, stream_promise := Some (status_error st)\<rparr>)
          else Inl (Fatal ''future_error''))"

text \<open>The state of a handler never goes back.\<close>

lemma stream_handle_forward: "stream_handle ok reply st h = Inr h' \<Longrightarrow> call_status h \<le> call_status h'"
  by (auto simp: stream_handle_def issue_def split: if_splits call_status.splits)

text \<open>A new handler on which the call has been started, and the completions in order.\<close>

definition new_stream :: "'d stream" where
  "new_stream = \<lparr>live = True, reader_set = True, call_status = STARTUP, pending_op = Some Start_op,
     has_promise = True, stream_promise = None, handled = []\<rparr>"

type_synonym 'd completion = "bool \<times> 'd \<times> status"

fun run_stream :: "'d completion list \<Rightarrow> 'd stream \<Rightarrow> 'd stream res" where
  "run_stream [] h = Inr h"
| "run_stream ((ok, reply, st) # cs) h =
     (if pending_op h = None then Inr h
      else case stream_handle ok reply st (h\<lparr>pending_op := None\<rparr>) of
             Inl e \<Rightarrow> Inl e
           | Inr h' \<Rightarrow> run_stream cs h')"

text \<open>
  What the completions mean: after a successful start, the messages up to the first failed
  read; then one more completion, of \<open>Finish\<close>, with the status of the call.
\<close>

fun finish_status :: "'d completion list \<Rightarrow> status option" where
  "finish_status (x # (ok, reply, st) # cs) = Some st"
| "finish_status cs = None"

definition stream_data :: "'d completion list \<Rightarrow> 'd list" where
  "stream_data cs = (case cs of [] \<Rightarrow> []
     | c # cs' \<Rightarrow> if fst c then map (fst \<circ> snd) (takeWhile fst cs') else [])"

definition stream_end :: "'d completion list \<Rightarrow> status option" where
  "stream_end cs = (case cs of [] \<Rightarrow> None
     | c # cs' \<Rightarrow> if fst c then finish_status (dropWhile fst cs') else finish_status cs)"

definition at_status :: "call_status \<Rightarrow> reader_op \<Rightarrow> 'd list \<Rightarrow> 'd stream" where
  "at_status s x ds = \<lparr>live = True, reader_set = True, call_status = s, pending_op = Some x,
     has_promise = True, stream_promise = None, handled = ds\<rparr>"

definition ended :: "status \<Rightarrow> 'd list \<Rightarrow> 'd stream" where
  "ended st ds = \<lparr>live = False, reader_set = True, call_status = FINISH, pending_op = None,
     has_promise = True, stream_promise = Some (status_error st), handled = ds\<rparr>"

lemma run_ended: "run_stream cs (ended st ds) = Inr (ended st ds)"
  by (cases "(cs, ended st ds)" rule: run_stream.cases) (auto simp: ended_def)

lemma step_finish: "run_stream (c # cs) (at_status FINISH x ds) = Inr (ended (snd (snd c)) ds)"
proof -
  obtain ok reply st where c: "c = (ok, reply, st)" by (cases c) auto
  have "stream_handle ok reply st (at_status FINISH x ds\<lparr>pending_op := None\<rparr>) = Inr (ended st ds)"
    by (simp add: stream_handle_def at_status_def ended_def)
  then show ?thesis by (simp add: c at_status_def run_ended)
qed

lemma step_process:
  "run_stream ((ok, reply, st) # cs) (at_status PROCESS x ds) =
     (if ok then run_stream cs (at_status PROCESS Read_op (ds @ [reply]))
      else run_stream cs (at_status FINISH Finish_op ds))"
  by (simp add: stream_handle_def at_status_def issue_def)

lemma step_startup:
  "run_stream ((ok, reply, st) # cs) (at_status STARTUP x ds) =
     (if ok then run_stream cs (at_status PROCESS Read_op ds)
      else run_stream cs (at_status FINISH Finish_op ds))"
  by (simp add: stream_handle_def at_status_def issue_def)

text \<open>The state after the completions, from the data passed on and the status of the end.\<close>

definition stream_view :: "'d stream \<Rightarrow> 'd list \<Rightarrow> status option \<Rightarrow> bool" where
  "stream_view h ds e \<longleftrightarrow> handled h = ds \<and> stream_promise h = map_option status_error e \<and>
     (live h \<longleftrightarrow> e = None) \<and> (pending_op h \<noteq> None \<longleftrightarrow> e = None)"

lemma run_finish: "\<exists>h. run_stream cs (at_status FINISH x ds) = Inr h \<and> stream_view h ds (finish_status (c # cs))"
proof (cases cs)
  case Nil
  then show ?thesis by (simp add: stream_view_def at_status_def)
next
  case (Cons c' cs')
  then show ?thesis by (cases c') (simp add: step_finish stream_view_def ended_def del: run_stream.simps)
qed

lemma run_process: "\<exists>h. run_stream cs (at_status PROCESS x ds) = Inr h \<and>
    stream_view h (ds @ map (fst \<circ> snd) (takeWhile fst cs)) (finish_status (dropWhile fst cs))"
proof (induction cs arbitrary: x ds)
  case Nil
  then show ?case by (simp add: stream_view_def at_status_def)
next
  case (Cons c cs)
  obtain ok reply st where c: "c = (ok, reply, st)" by (cases c) auto
  show ?case
  proof (cases ok)
    case True
    with Cons.IH [of Read_op "ds @ [reply]"] show ?thesis
      unfolding c step_process by simp
  next
    case False
    with run_finish [of cs Finish_op ds c] show ?thesis
      unfolding c step_process by simp
  qed
qed

lemma run_new_stream:
  "\<exists>h. run_stream cs new_stream = Inr h \<and> stream_view h (stream_data cs) (stream_end cs)"
proof (cases cs)
  case Nil
  then show ?thesis by (simp add: new_stream_def stream_data_def stream_end_def stream_view_def)
next
  case (Cons c cs')
  obtain ok reply st where c: "c = (ok, reply, st)" by (cases c) auto
  have start: "new_stream = at_status STARTUP Start_op []" by (simp add: new_stream_def at_status_def)
  show ?thesis
    unfolding Cons c start step_startup
    using run_process [of cs' Read_op "[]"] run_finish [of cs' Finish_op "[]" "(False, reply, st)"]
    by (simp add: stream_data_def stream_end_def c)
qed

section \<open>Waiting for promises\<close>

text \<open>
  A promise as \<open>wait_for\<close> meets it: whether its future was already taken, at which of the
  successive polls it is ready, and the value it gets.
\<close>

record promise_state =
  retrieved :: bool
  ready_at :: "nat \<Rightarrow> bool"
  result :: errptr

partial_function (option) poll :: "(nat \<Rightarrow> bool) \<Rightarrow> nat \<Rightarrow> nat run" where
  [code]: "poll ready t = (if ready t then returns t else poll ready (t + 1))"

text \<open>The result is the list of errors passed to the handler, if one is given.\<close>

definition wait_for :: "promise_state \<Rightarrow> bool \<Rightarrow> errptr list run" where
  "wait_for promise err_handle =
     (if retrieved promise then fails (Fatal ''future_error'')
      else bind_run (poll (ready_at promise) 0) (\<lambda>t.
           returns (if result promise \<noteq> None \<and> err_handle then [result promise] else [])))"

fun wait_for_all :: "promise_state list \<Rightarrow> bool \<Rightarrow> errptr list run" where
  "wait_for_all [] err_handle = returns []"
| "wait_for_all (p # ps) err_handle =
     (case wait_for p err_handle of
        None \<Rightarrow> None
      | Some (Inl e) \<Rightarrow> fails e
      | Some (Inr es) \<Rightarrow> bind_run (wait_for_all ps err_handle) (\<lambda>es'. returns (es @ es')))"

lemma poll_returns: "ready (t + k) \<Longrightarrow> \<exists>t'. poll ready t = returns t'"
  by (induction k arbitrary: t) (subst poll.simps, simp)+

lemma poll_some: "poll ready t = Some y \<Longrightarrow> \<exists>k \<ge> t. ready k"
proof (rule poll.raw_induct [where P = "\<lambda>ready t y. \<exists>k \<ge> t. ready k"])
  fix f :: "(nat \<Rightarrow> bool) \<Rightarrow> nat \<Rightarrow> nat run" and ready t y
  assume IH: "\<And>ready t y. f ready t = Some y \<Longrightarrow> \<exists>k \<ge> t. ready k"
    and eq: "(if ready t then returns t else f ready (t + 1)) = Some y"
  show "\<exists>k \<ge> t. ready k"
  proof (cases "ready t")
    case False
    with eq IH [of ready "t + 1" y] show ?thesis by (auto intro: Suc_leD)
  qed auto
qed

lemma poll_diverges: "(\<And>k. \<not> ready k) \<Longrightarrow> poll ready t = None"
  using poll_some [of ready t] by (cases "poll ready t") auto

section \<open>Properties\<close>

text \<open>
  C31. Whatever completions gRPC delivers, the stream handler has exactly one operation
  outstanding until it is deleted; it passes on the messages read before the first failed
  read, in order; and it sets its promise once, when \<open>Finish\<close> has completed, to the error of
  the call's status.
\<close>

theorem stream_client_runs:
  "\<exists>h. run_stream cs new_stream = Inr h \<and> handled h = stream_data cs \<and>
    stream_promise h = map_option status_error (stream_end cs) \<and>
    (live h \<longleftrightarrow> stream_end cs = None) \<and> (pending_op h \<noteq> None \<longleftrightarrow> stream_end cs = None)"
  using run_new_stream [of cs] by (auto simp: stream_view_def)

text \<open>
  \<open>wait_for\<close> on a list of promises whose futures are free and that all get set returns,
  with the errors that were set passed to the handler in the order of the list; if a promise
  is never set it does not return, and if a future was taken before it throws.
\<close>

lemma wait_for_collects:
  assumes "\<forall>p \<in> set ps. \<not> retrieved p \<and> (\<exists>t. ready_at p t)"
  shows "wait_for_all ps True = returns (filter (\<lambda>e. e \<noteq> None) (map result ps)) \<and>
    wait_for_all ps False = returns [] \<and>
    (\<not> retrieved q \<and> (\<forall>t. \<not> ready_at q t) \<longrightarrow> wait_for_all (ps @ [q]) err = None) \<and>
    (retrieved q \<longrightarrow> wait_for_all (ps @ [q]) err = fails (Fatal ''future_error''))"
  using assms
proof (induction ps)
  case Nil
  then show ?case using poll_diverges [of "ready_at q" 0] by (simp add: wait_for_def)
next
  case (Cons p ps)
  then obtain t where "ready_at p t" by auto
  then obtain t' where "poll (ready_at p) 0 = returns t'" using poll_returns [of "ready_at p" 0 t] by auto
  with Cons have "wait_for p e = returns (if result p \<noteq> None \<and> e then [result p] else [])" for e
    by (simp add: wait_for_def)
  with Cons show ?case by auto
qed

end

