(* ===== verification/Grpc_Interfaces.thy ===== *)
theory Grpc_Interfaces
  imports Async_Stream
begin

text \<open>
  The interfaces that the servers of \<open>cppkg/egrpc\<close> use, \<open>icqueue.h\<close> and \<open>iserver_async.h\<close>, and
  the classes that implement them with gRPC objects. An interface is a record of functions on
  the state they work on. The operations of gRPC are parameters.
\<close>

section \<open>The interfaces\<close>

text \<open>\<open>next\<close> gives what it returns and what it stores through \<open>ptr\<close> and \<open>ok\<close>.\<close>

type_synonym cq_event = "bool \<times> nat \<times> bool"

record ('s, 'g) iCQueue =
  cq_next :: "'s \<Rightarrow> (cq_event \<times> 's) res"
  cq_shutdown :: "'s \<Rightarrow> 's res"
  get_cq :: "'s \<Rightarrow> 'g option"

text \<open>The tags, \<open>void*\<close>, have a type of their own: in the state of one call there is one tag only.\<close>

record ('r, 't, 's) iResponder =
  r_finish :: "'r \<Rightarrow> status \<Rightarrow> 't \<Rightarrow> 's \<Rightarrow> 's"
  r_finish_with_error :: "status \<Rightarrow> 't \<Rightarrow> 's \<Rightarrow> 's"

record ('r, 't, 's) iWriter =
  w_write :: "'r \<Rightarrow> 't \<Rightarrow> 's \<Rightarrow> 's"
  w_finish :: "status \<Rightarrow> 't \<Rightarrow> 's \<Rightarrow> 's"

section \<open>The classes over gRPC objects\<close>

definition GrpcCQueue :: "('g \<Rightarrow> cq_event \<times> 'g) \<Rightarrow> ('g \<Rightarrow> 'g) \<Rightarrow> ('g, 'g) iCQueue" where
  "GrpcCQueue Next Shutdown =
     \<lparr>cq_next = \<lambda>cq. Inr (Next cq), cq_shutdown = \<lambda>cq. Inr (Shutdown cq), get_cq = \<lambda>cq. Some cq\<rparr>"

text \<open>\<open>cq_\<close> is a \<open>std::unique_ptr\<close>, which may be null.\<close>

definition GrpcServerCQueue :: "('g \<Rightarrow> cq_event \<times> 'g) \<Rightarrow> ('g \<Rightarrow> 'g) \<Rightarrow> ('g option, 'g) iCQueue" where
  "GrpcServerCQueue Next Shutdown =
     \<lparr>cq_next = \<lambda>p. (case p of None \<Rightarrow> Inl Undefined
        | Some cq \<Rightarrow> (case Next cq of (ev, cq') \<Rightarrow> Inr (ev, Some cq'))),
      cq_shutdown = \<lambda>p. (case p of None \<Rightarrow> Inl Undefined | Some cq \<Rightarrow> Inr (Some (Shutdown cq))),
      get_cq = \<lambda>p. p\<rparr>"

definition GrpcResponder ::
  "('r \<Rightarrow> status \<Rightarrow> 't \<Rightarrow> 's \<Rightarrow> 's) \<Rightarrow> (status \<Rightarrow> 't \<Rightarrow> 's \<Rightarrow> 's) \<Rightarrow> ('r, 't, 's) iResponder" where
  "GrpcResponder Finish FinishWithError =
     \<lparr>r_finish = \<lambda>res st tag. Finish res st tag, r_finish_with_error = \<lambda>st tag. FinishWithError st tag\<rparr>"

definition GrpcWriter ::
  "('r \<Rightarrow> 't \<Rightarrow> 's \<Rightarrow> 's) \<Rightarrow> (status \<Rightarrow> 't \<Rightarrow> 's \<Rightarrow> 's) \<Rightarrow> ('r, 't, 's) iWriter" where
  "GrpcWriter Write Finish = \<lparr>w_write = \<lambda>res tag. Write res tag, w_finish = \<lambda>st tag. Finish st tag\<rparr>"

section \<open>What the users of a queue rely on\<close>

text \<open>
  \<open>usable\<close> holds of the states in which the queue may be used, and \<open>view\<close> is the gRPC queue
  behind it. The contract: the interface acts on that queue as gRPC does.
\<close>

locale completion_queue =
  fixes q :: "('s, 'g) iCQueue" and usable :: "'s \<Rightarrow> bool" and view :: "'s \<Rightarrow> 'g"
    and Next :: "'g \<Rightarrow> cq_event \<times> 'g" and Shutdown :: "'g \<Rightarrow> 'g"
  assumes next_view: "usable s \<Longrightarrow> \<exists>s'. cq_next q s = Inr (fst (Next (view s)), s') \<and> usable s' \<and>
      view s' = snd (Next (view s))"
    and shutdown_view: "usable s \<Longrightarrow> \<exists>s'. cq_shutdown q s = Inr s' \<and> usable s' \<and> view s' = Shutdown (view s)"
    and get_view: "usable s \<Longrightarrow> get_cq q s = Some (view s)"

text \<open>The events of a loop around a queue, until \<open>next\<close> returns false, at most \<open>k\<close> of them.\<close>

primrec poll_queue :: "('s, 'g) iCQueue \<Rightarrow> nat \<Rightarrow> 's \<Rightarrow> (nat list \<times> 's) res" where
  "poll_queue q 0 s = Inr ([], s)"
| "poll_queue q (Suc k) s =
     bind_res (cq_next q s) (\<lambda>((got, tag, ok), s').
     if got then bind_res (poll_queue q k s') (\<lambda>(tags, s''). Inr (tag # tags, s'')) else Inr ([], s'))"

context completion_queue
begin

text \<open>Such a loop sees the same events whichever class it polls.\<close>

lemma poll_view:
  "usable s \<Longrightarrow> \<exists>tags s' g'. poll_queue q k s = Inr (tags, s') \<and> usable s' \<and>
     poll_queue (GrpcCQueue Next Shutdown) k (view s) = Inr (tags, view s')"
proof (induction k arbitrary: s)
  case 0
  then show ?case by simp
next
  case (Suc k)
  obtain got tag ok g where ev: "Next (view s) = ((got, tag, ok), g)" by (metis prod_cases4 prod.exhaust)
  from next_view [OF Suc.prems] ev obtain s' where
    s': "cq_next q s = Inr ((got, tag, ok), s')" "usable s'" "view s' = g" by auto
  show ?case
  proof (cases got)
    case True
    from Suc.IH [OF s'(2)] obtain tags s'' where "poll_queue q k s' = Inr (tags, s'')" "usable s''"
      "poll_queue (GrpcCQueue Next Shutdown) k (view s') = Inr (tags, view s'')" by blast
    with True s' ev show ?thesis by (simp add: GrpcCQueue_def)
  next
    case False
    with s' ev show ?thesis by (simp add: GrpcCQueue_def)
  qed
qed

end

interpretation client_cq: completion_queue "GrpcCQueue Next Shutdown" "\<lambda>_. True" "\<lambda>g. g" Next Shutdown
  for Next :: "'g \<Rightarrow> cq_event \<times> 'g" and Shutdown
  by unfold_locales (simp_all add: GrpcCQueue_def)

interpretation server_cq: completion_queue "GrpcServerCQueue Next Shutdown" "\<lambda>p. p \<noteq> None" the Next Shutdown
  for Next :: "'g \<Rightarrow> cq_event \<times> 'g" and Shutdown
  by unfold_locales (auto simp: GrpcServerCQueue_def split: prod.splits)

text \<open>
  The two classes differ in the null pointer only: a loop around a server's queue sees what
  the same loop around a client's queue would see, and is undefined for a null pointer.
\<close>

lemma server_queue_polls:
  "(\<exists>tags g'. poll_queue (GrpcServerCQueue Next Shutdown) k (Some g) = Inr (tags, Some g') \<and>
     poll_queue (GrpcCQueue Next Shutdown) k g = Inr (tags, g')) \<and>
   poll_queue (GrpcServerCQueue Next Shutdown) (Suc k) None = Inl Undefined"
proof -
  from server_cq.poll_view [of "Some g" Next Shutdown k] obtain tags s' where
    s': "poll_queue (GrpcServerCQueue Next Shutdown) k (Some g) = Inr (tags, s')" "s' \<noteq> None"
    "poll_queue (GrpcCQueue Next Shutdown) k g = Inr (tags, the s')" by auto
  moreover from s'(2) obtain g' where "s' = Some g'" by auto
  ultimately show ?thesis by (auto simp: GrpcServerCQueue_def)
qed

end
