(* ===== verification/Async_Server.thy ===== *)
theory Async_Server
  imports Grpc_Interfaces
begin

text \<open>
  The unary calls of \<open>cppkg/egrpc/server_async.h\<close>. gRPC is third-party code; its completion
  queue hands back the tag of an operation a call has started, and the loop around the queue
  calls \<open>serve\<close> on it. The functions the application supplies are parameters.
\<close>

section \<open>Unary calls\<close>

text \<open>
  Calls by tag, with the flag \<open>done_\<close> (\<open>None\<close> once deleted); the tags waiting for a request,
  started by \<open>req_call_\<close>; those whose response is being sent; and the responses given to the
  responder, of which \<open>finish\<close> takes reply and status and \<open>finish_with_error\<close> the status only.
\<close>

datatype 's response = Finish 's status | Finish_with_error status

record 's server =
  calls :: "bool option list"
  listening :: "nat list"
  sending :: "nat list"
  responses :: "(nat \<times> 's response) list"

text \<open>The constructor.\<close>

definition new_call :: "'s server \<Rightarrow> 's server" where
  "new_call s =
     (let tag = length (calls s)
      in s\<lparr>calls := calls s @ [Some False], listening := listening s @ [tag]\<rparr>)"

definition shutdown_call :: "nat \<Rightarrow> 's server \<Rightarrow> 's server" where
  "shutdown_call tag s = s\<lparr>calls := (calls s)[tag := None]\<rparr>"

definition respond :: "nat \<Rightarrow> 's response \<Rightarrow> 's server \<Rightarrow> 's server" where
  "respond tag x s = s\<lparr>sending := sending s @ [tag], responses := responses s @ [(tag, x)]\<rparr>"

text \<open>
  The application may build the responder of a call, which is known by its tag; a null pointer
  is dereferenced in the constructor.
\<close>

type_synonym 's build_responder = "nat \<Rightarrow> ('s, nat, 's server) iResponder option"

definition construct_call :: "'s build_responder \<Rightarrow> 's server \<Rightarrow> 's server res" where
  "construct_call make_responder s =
     (case make_responder (length (calls s)) of
        None \<Rightarrow> Inl Undefined
      | Some responder \<Rightarrow> Inr (new_call s))"

text \<open>\<open>serve\<close>; \<open>req\<close> is what gRPC has put into \<open>req_\<close>.\<close>

definition serve_call_by ::
  "'s build_responder \<Rightarrow> ('q \<Rightarrow> status \<times> 's) \<Rightarrow> nat \<Rightarrow> 'q \<Rightarrow> 's server \<Rightarrow> 's server res" where
  "serve_call_by make_responder write_call tag req s =
     (if tag < length (calls s)
      then case calls s ! tag of
             None \<Rightarrow> Inl Undefined
           | Some fin \<Rightarrow>
               if fin then Inr (shutdown_call tag s)
               else bind_res (construct_call make_responder s) (\<lambda>s1.
                    let s2 = s1\<lparr>calls := (calls s1)[tag := Some True]\<rparr>
                    in case make_responder tag of
                         None \<Rightarrow> Inl Undefined
                       | Some responder \<Rightarrow>
                           (case write_call req of
                              (st, reply) \<Rightarrow>
                                if st = OK then Inr (r_finish responder reply st tag s2)
                                else Inr (r_finish_with_error responder st tag s2)))
      else Inl Undefined)"

text \<open>The default \<open>make_responder\<close>: gRPC sends the response and then hands the tag back.\<close>

definition grpc_responder :: "'s build_responder" where
  "grpc_responder ctx =
     Some (GrpcResponder (\<lambda>res st tag. respond tag (Finish res st)) (\<lambda>st tag. respond tag (Finish_with_error st)))"

abbreviation serve_call :: "('q \<Rightarrow> status \<times> 's) \<Rightarrow> nat \<Rightarrow> 'q \<Rightarrow> 's server \<Rightarrow> 's server res" where
  "serve_call \<equiv> serve_call_by grpc_responder"

text \<open>The response that a status and a reply become.\<close>

definition response_of :: "status \<times> 's \<Rightarrow> 's response" where
  "response_of r = (case r of (st, reply) \<Rightarrow> if st = OK then Finish reply st else Finish_with_error st)"

lemma serve_call_def: "serve_call write_call tag req s =
     (if tag < length (calls s)
      then case calls s ! tag of
             None \<Rightarrow> Inl Undefined
           | Some fin \<Rightarrow>
               if fin then Inr (shutdown_call tag s)
               else let s1 = new_call s;
                        s2 = s1\<lparr>calls := (calls s1)[tag := Some True]\<rparr>
                    in Inr (respond tag (response_of (write_call req)) s2)
      else Inl Undefined)"
  by (simp add: serve_call_by_def construct_call_def grpc_responder_def GrpcResponder_def response_of_def Let_def
      split: option.split prod.split)

text \<open>A builder that fails for the next call: the request at hand is not answered either.\<close>

lemma null_responder:
  assumes "make_responder (length (calls s)) = None" and "tag < length (calls s)" and "calls s ! tag = Some False"
  shows "serve_call_by make_responder write_call tag req s = Inl Undefined"
  using assms by (simp add: serve_call_by_def construct_call_def)

text \<open>A server that has made its first call.\<close>

definition server_start :: "'s server" where
  "server_start = new_call \<lparr>calls = [], listening = [], sending = [], responses = []\<rparr>"

text \<open>
  The states a server can get into, with the requests that have arrived so far: a request
  arrives for a waiting call, or a response has been sent.
\<close>

inductive server_reach :: "('q \<Rightarrow> status \<times> 's) \<Rightarrow> 'q list \<Rightarrow> 's server res \<Rightarrow> bool" for write_call where
  Begin: "server_reach write_call [] (Inr server_start)"
| Arrive: "server_reach write_call reqs (Inr s) \<Longrightarrow> tag \<in> set (listening s) \<Longrightarrow>
    server_reach write_call (reqs @ [req])
      (serve_call write_call tag req (s\<lparr>listening := remove1 tag (listening s)\<rparr>))"
| Sent: "server_reach write_call reqs (Inr s) \<Longrightarrow> tag \<in> set (sending s) \<Longrightarrow>
    server_reach write_call reqs
      (serve_call write_call tag req (s\<lparr>sending := remove1 tag (sending s)\<rparr>))"

definition server_ok :: "'q list \<Rightarrow> ('q \<Rightarrow> status \<times> 's) \<Rightarrow> 's server \<Rightarrow> bool" where
  "server_ok reqs write_call s \<longleftrightarrow>
     (\<exists>t. listening s = [t] \<and> t < length (calls s) \<and> calls s ! t = Some False \<and> t \<notin> fst ` set (responses s)) \<and>
     distinct (sending s) \<and> (\<forall>t \<in> set (sending s). t < length (calls s) \<and> calls s ! t = Some True) \<and>
     (\<forall>t < length (calls s). calls s ! t \<noteq> None \<longrightarrow> t \<in> set (listening s) \<union> set (sending s)) \<and>
     distinct (map fst (responses s)) \<and> (\<forall>t \<in> fst ` set (responses s). t < length (calls s)) \<and>
     map snd (responses s) = map (response_of \<circ> write_call) reqs"

lemma server_ok_start: "server_ok [] w server_start"
  by (simp add: server_ok_def server_start_def new_call_def)

lemma server_ok_arrive:
  assumes ok: "server_ok reqs w s" and tag: "tag \<in> set (listening s)"
  shows "\<exists>s'. serve_call w tag req (s\<lparr>listening := remove1 tag (listening s)\<rparr>) = Inr s' \<and>
    server_ok (reqs @ [req]) w s'"
proof -
  from ok obtain t0 where t0: "listening s = [t0]" "t0 < length (calls s)" "calls s ! t0 = Some False"
    "t0 \<notin> fst ` set (responses s)" unfolding server_ok_def by blast
  with tag have t: "listening s = [tag]" "tag < length (calls s)" "calls s ! tag = Some False"
    "tag \<notin> fst ` set (responses s)" by simp_all
  let ?n = "length (calls s)"
  let ?s = "\<lparr>calls = (calls s @ [Some False])[tag := Some True], listening = [?n],
    sending = sending s @ [tag], responses = responses s @ [(tag, response_of (w req))]\<rparr>"
  have eq: "serve_call w tag req (s\<lparr>listening := remove1 tag (listening s)\<rparr>) = Inr ?s"
    using t by (simp add: serve_call_def new_call_def respond_def Let_def)
  have snd: "tag \<notin> set (sending s)" "\<forall>t \<in> set (sending s). t < ?n \<and> calls s ! t = Some True"
    using ok t(3) by (auto simp: server_ok_def)
  have "\<forall>t \<in> set (sending s @ [tag]). t < Suc ?n \<and> (calls s @ [Some False])[tag := Some True] ! t = Some True"
    using snd t(2) by (auto simp: nth_append nth_list_update)
  moreover have "\<forall>t < Suc ?n. (calls s @ [Some False])[tag := Some True] ! t \<noteq> None \<longrightarrow>
      t \<in> {?n} \<union> set (sending s @ [tag])"
    using ok t(1) by (auto simp: server_ok_def nth_append nth_list_update less_Suc_eq)
  moreover have "?n \<notin> fst ` set (responses s @ [(tag, response_of (w req))])"
    using ok t(2) unfolding server_ok_def by force
  moreover have "\<forall>x. (tag, x) \<notin> set (responses s)" using t(4) by force
  ultimately have "server_ok (reqs @ [req]) w ?s"
    using ok t snd(1) by (auto simp: server_ok_def nth_append nth_list_update)
  with eq show ?thesis by blast
qed

lemma server_ok_sent:
  assumes ok: "server_ok reqs w s" and tag: "tag \<in> set (sending s)"
  shows "\<exists>s'. serve_call w tag req (s\<lparr>sending := remove1 tag (sending s)\<rparr>) = Inr s' \<and> server_ok reqs w s'"
proof -
  from ok tag have t: "tag < length (calls s)" "calls s ! tag = Some True" by (auto simp: server_ok_def)
  let ?s = "s\<lparr>sending := remove1 tag (sending s), calls := (calls s)[tag := None]\<rparr>"
  have "serve_call w tag req (s\<lparr>sending := remove1 tag (sending s)\<rparr>) = Inr ?s"
    using t by (simp add: serve_call_def shutdown_call_def)
  moreover obtain t' where t': "listening s = [t']" "calls s ! t' = Some False"
    using ok by (auto simp: server_ok_def)
  then have "tag \<noteq> t'" using t(2) by auto
  with ok t t' have "server_ok reqs w ?s" unfolding server_ok_def by (auto simp: nth_list_update)
  ultimately show ?thesis by blast
qed

lemma server_reach_ok: "server_reach w reqs r \<Longrightarrow> \<exists>s. r = Inr s \<and> server_ok reqs w s"
proof (induction rule: server_reach.induct)
  case Begin
  then show ?case using server_ok_start by blast
next
  case (Arrive reqs s tag req)
  then show ?case using server_ok_arrive [of reqs w s tag req] by simp
next
  case (Sent reqs s tag req)
  then show ?case using server_ok_sent [of reqs w s tag req] by simp
qed

section \<open>Properties\<close>

text \<open>
  C11. However requests arrive and responses get sent, no call is used after it was deleted,
  exactly one call waits for the next request, a call that is alive is waiting or sending,
  and every request so far has been answered exactly once, in the order of arrival, each by
  a call of its own.
\<close>

theorem server_answers_each:
  assumes "server_reach write_call reqs r"
  shows "\<exists>s. r = Inr s \<and> length (listening s) = 1 \<and>
    (\<forall>t < length (calls s). calls s ! t \<noteq> None \<longrightarrow> t \<in> set (listening s) \<union> set (sending s)) \<and>
    distinct (map fst (responses s)) \<and> map snd (responses s) = map (response_of \<circ> write_call) reqs"
proof -
  from server_reach_ok [OF assms] obtain s where s: "r = Inr s" "server_ok reqs write_call s" by blast
  then have "length (listening s) = 1" by (auto simp: server_ok_def)
  with s show ?thesis unfolding server_ok_def by blast
qed

theorem server_answers_each_witness:
  "\<exists>s. serve_call (\<lambda>q. (OK, q + 1)) 0 41 (server_start\<lparr>listening := []\<rparr>) = Inr s \<and>
    length (listening s) = 1 \<and>
    (\<forall>t < length (calls s). calls s ! t \<noteq> None \<longrightarrow> t \<in> set (listening s) \<union> set (sending s)) \<and>
    distinct (map fst (responses s)) \<and>
    map snd (responses s) = map (response_of \<circ> (\<lambda>q. (OK, q + 1))) ([] @ [41 :: nat])"
proof (rule server_answers_each)
  have "server_start\<lparr>listening := []\<rparr> = server_start\<lparr>listening := remove1 0 (listening server_start)\<rparr>"
    by (simp add: server_start_def new_call_def)
  then show "server_reach (\<lambda>q. (OK, q + 1)) ([] @ [41 :: nat])
      (serve_call (\<lambda>q. (OK, q + 1)) 0 41 (server_start\<lparr>listening := []\<rparr>))"
    using server_reach.Arrive [OF server_reach.Begin, of 0 "\<lambda>q. (OK, q + 1)" "41 :: nat"]
    by (simp add: server_start_def new_call_def)
qed

end
