(* ===== verification/Stream_Server.thy ===== *)
theory Stream_Server
  imports Async_Server
begin

text \<open>
  The streaming call of \<open>cppkg/egrpc/server_async_stream.h\<close>. The application's functions are
  parameters: \<open>init_call\<close> gives the status and the range to send for a request, and
  \<open>write_call\<close> gets the request, the range, the position of the iterator and the reply so
  far, and gives whether to write, the position it leaves the iterator at, and the reply.
\<close>

section \<open>The call\<close>

datatype writer_op = Await_request | Await_write | Await_finish

text \<open>
  A call, as the object and what gRPC knows of it: whether it is alive, its state, its range, the position in it, the operations that
  gRPC will hand its tag back for, and what it gave to the writer. \<open>successors\<close> counts the
  calls it has created to wait for the next request.
\<close>

record ('e, 'r) scall =
  salive :: bool
  sstatus :: call_status
  ranges :: "'e list"
  it :: nat
  pending :: "writer_op list"
  written :: "'r list"
  finished :: "status list"
  successors :: nat

definition new_scall :: "('e, 'r) scall" where
  "new_scall = \<lparr>salive = True, sstatus = STARTUP, ranges = [], it = 0, pending = [Await_request],
     written = [], finished = [], successors = 0\<rparr>"

definition finish :: "status \<Rightarrow> ('e, 'r) scall \<Rightarrow> ('e, 'r) scall" where
  "finish st s = s\<lparr>pending := pending s @ [Await_finish], finished := finished s @ [st]\<rparr>"

definition write_reply :: "'r \<Rightarrow> ('e, 'r) scall \<Rightarrow> ('e, 'r) scall" where
  "write_reply reply s = s\<lparr>pending := pending s @ [Await_write], written := written s @ [reply]\<rparr>"

text \<open>The default \<open>make_writer\<close>: what gRPC's writer is given, it sends, and hands the tag back.\<close>

definition grpc_writer :: "('r, unit, ('e, 'r) scall) iWriter" where
  "grpc_writer = GrpcWriter (\<lambda>res tag. write_reply res) (\<lambda>st tag. finish st)"

text \<open>
  The application may build the writer of a call from its context. The constructor asserts that
  there is one; then it starts to wait for a request.
\<close>

type_synonym ('c, 'e, 'r) build_writer = "'c \<Rightarrow> ('r, unit, ('e, 'r) scall) iWriter option"

definition construct_scall :: "('c, 'e, 'r) build_writer \<Rightarrow> 'c \<Rightarrow> ('e, 'r) scall run" where
  "construct_scall make_writer ctx =
     (case make_writer ctx of
        None \<Rightarrow> fails (Fatal ''assert'')
      | Some writer \<Rightarrow> returns new_scall)"

text \<open>\<open>grpc::Status::CANCELLED\<close> has an empty message.\<close>

definition sshutdown_by :: "('r, unit, ('e, 'r) scall) iWriter \<Rightarrow> ('e, 'r) scall \<Rightarrow> ('e, 'r) scall" where
  "sshutdown_by writer s =
     (let s' = (if sstatus s = PROCESS then w_finish writer (Failed []) () s else s)
      in s'\<lparr>salive := False\<rparr>)"

text \<open>The inner loop; \<open>++it_\<close> on the end of the range is undefined.\<close>

partial_function (option) write_loop ::
  "(nat \<Rightarrow> 'r \<Rightarrow> bool \<times> nat \<times> 'r) \<Rightarrow> nat \<Rightarrow> nat \<Rightarrow> 'r \<Rightarrow> (bool \<times> nat \<times> 'r) run" where
  [code]: "write_loop write_call n i reply =
     (if i \<noteq> n
      then case write_call i reply of
             (wrote, i', reply') \<Rightarrow>
               if i' < n then (if wrote then returns (True, i' + 1, reply') else write_loop write_call n (i' + 1) reply')
               else fails Undefined
      else returns (False, i, reply))"

definition process_by ::
  "('r, unit, ('e, 'r) scall) iWriter \<Rightarrow> ('q \<Rightarrow> 'e list \<Rightarrow> nat \<Rightarrow> 'r \<Rightarrow> bool \<times> nat \<times> 'r) \<Rightarrow> 'r \<Rightarrow> 'q
     \<Rightarrow> ('e, 'r) scall \<Rightarrow> ('e, 'r) scall run" where
  "process_by writer write_call blank req s =
     (let s1 = s\<lparr>sstatus := PROCESS\<rparr>; n = length (ranges s)
      in bind_run (write_loop (write_call req (ranges s)) n (it s) blank) (\<lambda>(wrote, i, reply).
         let s2 = s1\<lparr>it := i\<rparr>
         in if wrote then returns (w_write writer reply () s2)
            else if i = n then returns (w_finish writer OK () (s2\<lparr>sstatus := FINISH\<rparr>))
            else returns s2))"

text \<open>
  \<open>serve\<close> of a call with context \<open>ctx\<close>; the call it creates for the next request has the
  context \<open>ctx'\<close>. What the builder gave for \<open>ctx\<close> is the call's writer.
\<close>

definition sserve_by ::
  "('c, 'e, 'r) build_writer \<Rightarrow> 'c \<Rightarrow> 'c \<Rightarrow> ('q \<Rightarrow> status \<times> 'e list)
     \<Rightarrow> ('q \<Rightarrow> 'e list \<Rightarrow> nat \<Rightarrow> 'r \<Rightarrow> bool \<times> nat \<times> 'r) \<Rightarrow> 'r \<Rightarrow> 'q
     \<Rightarrow> ('e, 'r) scall \<Rightarrow> ('e, 'r) scall run" where
  "sserve_by make_writer ctx ctx' init_call write_call blank req s =
     (case (if salive s then make_writer ctx else None) of
        None \<Rightarrow> fails Undefined
      | Some writer \<Rightarrow>
          (case sstatus s of
             STARTUP \<Rightarrow>
               bind_run (construct_scall make_writer ctx') (\<lambda>next_call.
               let s1 = s\<lparr>successors := Suc (successors s)\<rparr>
               in case init_call req of
                    (st, rng) \<Rightarrow>
                      if st \<noteq> OK then returns (w_finish writer st () (s1\<lparr>ranges := rng, sstatus := FINISH\<rparr>))
                      else process_by writer write_call blank req (s1\<lparr>ranges := rng, it := 0\<rparr>))
           | PROCESS \<Rightarrow> process_by writer write_call blank req s
           | FINISH \<Rightarrow> returns (sshutdown_by writer s)))"

text \<open>The operations with the default \<open>make_writer\<close>.\<close>

definition default_writer :: "(unit, 'e, 'r) build_writer" where
  "default_writer ctx = Some grpc_writer"

abbreviation sshutdown :: "('e, 'r) scall \<Rightarrow> ('e, 'r) scall" where
  "sshutdown \<equiv> sshutdown_by grpc_writer"

abbreviation process ::
  "('q \<Rightarrow> 'e list \<Rightarrow> nat \<Rightarrow> 'r \<Rightarrow> bool \<times> nat \<times> 'r) \<Rightarrow> 'r \<Rightarrow> 'q \<Rightarrow> ('e, 'r) scall \<Rightarrow> ('e, 'r) scall run" where
  "process \<equiv> process_by grpc_writer"

abbreviation sserve ::
  "('q \<Rightarrow> status \<times> 'e list) \<Rightarrow> ('q \<Rightarrow> 'e list \<Rightarrow> nat \<Rightarrow> 'r \<Rightarrow> bool \<times> nat \<times> 'r) \<Rightarrow> 'r \<Rightarrow> 'q
     \<Rightarrow> ('e, 'r) scall \<Rightarrow> ('e, 'r) scall run" where
  "sserve \<equiv> sserve_by default_writer () ()"

lemmas sshutdown_def = sshutdown_by_def [of grpc_writer]
lemmas process_def = process_by_def [of grpc_writer]

lemma sserve_def:
  "sserve init_call write_call blank req s =
     (if \<not> salive s then fails Undefined
      else case sstatus s of
        STARTUP \<Rightarrow>
          (let s1 = s\<lparr>successors := Suc (successors s)\<rparr>
           in case init_call req of
                (st, rng) \<Rightarrow>
                  if st \<noteq> OK then returns (w_finish grpc_writer st () (s1\<lparr>ranges := rng, sstatus := FINISH\<rparr>))
                  else process write_call blank req (s1\<lparr>ranges := rng, it := 0\<rparr>))
      | PROCESS \<Rightarrow> process write_call blank req s
      | FINISH \<Rightarrow> returns (sshutdown s))"
  by (cases "sstatus s") (simp_all add: sserve_by_def default_writer_def construct_scall_def)

text \<open>The queue hands the tag back for the operations in the order they were started.\<close>

primrec run_scall ::
  "('q \<Rightarrow> status \<times> 'e list) \<Rightarrow> ('q \<Rightarrow> 'e list \<Rightarrow> nat \<Rightarrow> 'r \<Rightarrow> bool \<times> nat \<times> 'r) \<Rightarrow> 'r \<Rightarrow> 'q \<Rightarrow> nat
     \<Rightarrow> ('e, 'r) scall \<Rightarrow> ('e, 'r) scall run" where
  "run_scall ic wc blank req 0 s = returns s"
| "run_scall ic wc blank req (Suc k) s =
     (if pending s = [] then returns s
      else case sserve ic wc blank req (s\<lparr>pending := tl (pending s)\<rparr>) of
             None \<Rightarrow> None
           | Some (Inl e) \<Rightarrow> fails e
           | Some (Inr s') \<Rightarrow> run_scall ic wc blank req k s')"

lemma grpc_writer_sends [simp]:
  "w_write grpc_writer reply tag s = write_reply reply s"
  "w_finish grpc_writer st tag s = finish st s"
  by (simp_all add: grpc_writer_def GrpcWriter_def)

section \<open>Other writers\<close>

text \<open>
  A builder that gives no writer for the next call stops the server before the request at
  hand is looked at.
\<close>

lemma null_writer:
  assumes "make_writer ctx = Some writer" and "make_writer ctx' = None" and "salive s" and "sstatus s = STARTUP"
  shows "sserve_by make_writer ctx ctx' init_call write_call blank req s = fails (Fatal ''assert'')"
  using assms by (simp add: sserve_by_def construct_scall_def)

text \<open>
  A writer does its work with gRPC and leaves the members of the call alone; then these go
  through the same values as with the default writer.
\<close>

definition same_members :: "('e, 'r) scall \<Rightarrow> ('e, 'r) scall \<Rightarrow> bool" where
  "same_members s s' \<longleftrightarrow> salive s' = salive s \<and> sstatus s' = sstatus s \<and> ranges s' = ranges s \<and> it s' = it s \<and>
     successors s' = successors s"

definition leaves_members :: "('r, unit, ('e, 'r) scall) iWriter \<Rightarrow> bool" where
  "leaves_members writer \<longleftrightarrow> (\<forall>res st s. same_members s (w_write writer res () s) \<and> same_members s (w_finish writer st () s))"

lemma leaves_membersD:
  assumes "leaves_members writer"
  shows "salive (w_write writer res () s) = salive s" "salive (w_finish writer st () s) = salive s"
    "sstatus (w_write writer res () s) = sstatus s" "sstatus (w_finish writer st () s) = sstatus s"
    "ranges (w_write writer res () s) = ranges s" "ranges (w_finish writer st () s) = ranges s"
    "it (w_write writer res () s) = it s" "it (w_finish writer st () s) = it s"
    "successors (w_write writer res () s) = successors s" "successors (w_finish writer st () s) = successors s"
  using assms by (simp_all add: leaves_members_def same_members_def)

lemma grpc_writer_leaves: "leaves_members grpc_writer"
  by (simp add: leaves_members_def same_members_def write_reply_def finish_def)

lemma process_by_members:
  assumes "leaves_members writer" and "same_members s t"
  shows "rel_option (rel_sum (=) same_members) (process wc blank req s) (process_by writer wc blank req t)"
proof -
  from assms(2) have eq: "ranges t = ranges s" "it t = it s" by (simp_all add: same_members_def)
  show ?thesis
  proof (cases "write_loop (wc req (ranges s)) (length (ranges s)) (it s) blank")
    case (Some r)
    then show ?thesis
      using assms(2) leaves_membersD [OF assms(1)]
      by (cases r) (auto simp: process_by_def eq same_members_def write_reply_def finish_def Let_def)
  qed (simp add: process_by_def eq)
qed

lemma sserve_by_members:
  assumes writer: "leaves_members writer" "make_writer ctx = Some writer" "make_writer ctx' \<noteq> None"
    and same: "same_members s t"
  shows "rel_option (rel_sum (=) same_members) (sserve ic wc blank req s) (sserve_by make_writer ctx ctx' ic wc blank req t)"
proof -
  note keep = leaves_membersD [OF writer(1)]
  have same': "same_members (s\<lparr>successors := Suc (successors s), ranges := rng, it := 0\<rparr>)
      (t\<lparr>successors := Suc (successors t), ranges := rng, it := 0\<rparr>)" for rng
    using same by (simp add: same_members_def)
  have eq: "salive t = salive s" "sstatus t = sstatus s" using same by (simp_all add: same_members_def)
  obtain st rng where init: "ic req = (st, rng)" by (cases "ic req")
  show ?thesis
  proof (cases "salive s")
    case True
    then show ?thesis
    proof (cases "sstatus s")
      case STARTUP
      with True init process_by_members [OF writer(1) same', of wc blank req rng] writer(2,3) same keep show ?thesis
        by (auto simp: sserve_by_def default_writer_def eq construct_scall_def same_members_def finish_def Let_def split: option.split)
    next
      case PROCESS
      with True writer(2) process_by_members [OF writer(1) same] show ?thesis
        by (simp add: sserve_by_def default_writer_def eq)
    next
      case FINISH
      with True writer(2) same show ?thesis
        by (simp add: sserve_by_def default_writer_def eq sshutdown_by_def same_members_def Let_def)
    qed
  qed (simp add: sserve_by_def default_writer_def eq)
qed

section \<open>The loop finds the next element to write\<close>

text \<open>
  A \<open>write_call\<close> that leaves the iterator where it is, writes the elements that \<open>sel\<close> holds
  for and makes the reply \<open>out\<close> of each.
\<close>

definition selects :: "(nat \<Rightarrow> 'r \<Rightarrow> bool \<times> nat \<times> 'r) \<Rightarrow> ('e \<Rightarrow> bool) \<Rightarrow> ('e \<Rightarrow> 'r) \<Rightarrow> 'e list \<Rightarrow> bool" where
  "selects wc sel out rng \<longleftrightarrow> (\<forall>i < length rng. \<forall>reply. case wc i reply of
     (wrote, i', reply') \<Rightarrow> wrote = sel (rng ! i) \<and> i' = i \<and> (wrote \<longrightarrow> reply' = out (rng ! i)))"

lemma write_loop_correct:
  assumes "selects wc sel out rng" and "i \<le> length rng"
  shows "case dropWhile (\<lambda>e. \<not> sel e) (drop i rng) of
      [] \<Rightarrow> \<exists>reply'. write_loop wc (length rng) i reply = returns (False, length rng, reply')
    | e # es \<Rightarrow> \<exists>i'. write_loop wc (length rng) i reply = returns (True, i', out e) \<and>
        i' \<le> length rng \<and> drop i' rng = es"
  using assms(2)
proof (induction "length rng - i" arbitrary: i reply)
  case 0
  then have "i = length rng" by simp
  then show ?case by (simp add: write_loop.simps)
next
  case (Suc d)
  then have i: "i < length rng" by simp
  obtain wrote i' reply' where wc: "wc i reply = (wrote, i', reply')" by (cases "wc i reply") auto
  have "case wc i reply of
      (wrote, i', reply') \<Rightarrow> wrote = sel (rng ! i) \<and> i' = i \<and> (wrote \<longrightarrow> reply' = out (rng ! i))"
    using assms(1) i by (simp only: selects_def)
  with wc have step: "wrote = sel (rng ! i)" "i' = i" "wrote \<longrightarrow> reply' = out (rng ! i)" by simp_all
  have cons: "drop i rng = rng ! i # drop (Suc i) rng" using i by (rule Cons_nth_drop_Suc [symmetric])
  show ?case
  proof (cases wrote)
    case True
    with step wc i have "write_loop wc (length rng) i reply = returns (True, Suc i, out (rng ! i))"
      by (subst write_loop.simps) simp
    with True step i show ?thesis by (simp add: cons)
  next
    case False
    with step wc i have eq: "write_loop wc (length rng) i reply = write_loop wc (length rng) (Suc i) reply'"
      by (subst write_loop.simps) simp
    have "d = length rng - Suc i" using Suc(2) by simp
    from Suc(1) [OF this, of reply'] False step i show ?thesis unfolding cons eq by simp
  qed
qed

section \<open>The state never goes back\<close>

lemma process_forward: "process wc blank req s = returns s' \<Longrightarrow> PROCESS \<le> sstatus s'"
  by (auto simp: process_def Let_def bind_run_def write_reply_def finish_def split: option.splits sum.splits if_splits)

lemma sserve_forward: "sserve ic wc blank req s = returns s' \<Longrightarrow> sstatus s \<le> sstatus s'"
  by (auto simp: sserve_def sshutdown_def finish_def Let_def dest: process_forward
      split: if_splits call_status.splits prod.splits)

section \<open>A whole stream\<close>

lemma process_any_status: "process wc blank req (s\<lparr>sstatus := x\<rparr>) = process wc blank req s"
  by (simp add: process_def)

lemma filter_dropWhile_not: "filter P (dropWhile (\<lambda>x. \<not> P x) xs) = filter P xs"
  by (induction xs) auto

lemma dropWhile_not_Nil: "dropWhile (\<lambda>x. \<not> P x) xs = [] \<Longrightarrow> filter P xs = []"
  by (simp add: filter_empty_conv dropWhile_eq_Nil_conv)

lemma dropWhile_not_Cons: "dropWhile (\<lambda>x. \<not> P x) xs = y # ys \<Longrightarrow> filter P xs = y # filter P ys"
  by (metis dropWhile_eq_Cons_conv filter.simps(2) filter_dropWhile_not)

text \<open>From the delivery of a write on: the rest of the range is written, then the end.\<close>

lemma run_scall_process:
  assumes "selects (wc req rng) sel out rng"
  shows "i \<le> length rng \<Longrightarrow> k = length (filter sel (drop i rng)) + 2 \<Longrightarrow>
    s = \<lparr>salive = True, sstatus = PROCESS, ranges = rng, it = i, pending = [x], written = ws,
      finished = [], successors = n\<rparr> \<Longrightarrow>
    run_scall ic wc blank req k s =
      returns \<lparr>salive = False, sstatus = FINISH, ranges = rng, it = length rng, pending = [],
        written = ws @ map out (filter sel (drop i rng)), finished = [OK], successors = n\<rparr>"
proof (induction "length (filter sel (drop i rng))" arbitrary: i k s x ws)
  case (0 i k s x ws)
  then have "dropWhile (\<lambda>e. \<not> sel e) (drop i rng) = []" by (simp add: filter_empty_conv dropWhile_eq_Nil_conv)
  with write_loop_correct [OF assms 0(2), of blank] obtain reply' where
    "write_loop (wc req rng) (length rng) i blank = returns (False, length rng, reply')" by auto
  with 0 show ?case
    by (simp add: numeral_2_eq_2 sserve_def process_def finish_def sshutdown_def Let_def)
next
  case (Suc d i k s x ws)
  then have "dropWhile (\<lambda>e. \<not> sel e) (drop i rng) \<noteq> []" using dropWhile_not_Nil by force
  then obtain e es where es: "dropWhile (\<lambda>e. \<not> sel e) (drop i rng) = e # es" by (cases "dropWhile (\<lambda>e. \<not> sel e) (drop i rng)") auto
  with write_loop_correct [OF assms Suc(3), of blank] obtain i' where
    loop: "write_loop (wc req rng) (length rng) i blank = returns (True, i', out e)" "i' \<le> length rng" "drop i' rng = es"
    by auto
  have sel: "filter sel (drop i rng) = e # filter sel es" by (rule dropWhile_not_Cons [OF es])
  let ?s = "\<lparr>salive = True, sstatus = PROCESS, ranges = rng, it = i', pending = [Await_write], written = ws @ [out e],
      finished = [], successors = n\<rparr>"
  have "run_scall ic wc blank req k s = run_scall ic wc blank req (length (filter sel es) + 2) ?s"
    using Suc(4,5) loop(1) sel by (simp add: sserve_def process_def write_reply_def Let_def)
  also have "\<dots> = returns \<lparr>salive = False, sstatus = FINISH, ranges = rng, it = length rng, pending = [],
        written = (ws @ [out e]) @ map out (filter sel (drop i' rng)), finished = [OK], successors = n\<rparr>"
    using Suc(2) sel loop(2,3) by (intro Suc(1)) simp_all
  finally show ?case using sel loop(3) by simp
qed

lemma stream_server_ok:
  assumes "selects (write_call req rng) sel out rng" and init: "init_call req = (OK, rng)"
  shows "run_scall init_call write_call blank req (length (filter sel rng) + 2) new_scall =
    returns \<lparr>salive = False, sstatus = FINISH, ranges = rng, it = length rng, pending = [],
      written = map out (filter sel rng), finished = [OK], successors = 1\<rparr>"
proof -
  let ?s = "\<lparr>salive = True, sstatus = PROCESS, ranges = rng, it = 0, pending = [Await_request], written = [],
      finished = [], successors = 1\<rparr>"
  let ?i = "new_scall\<lparr>pending := [], successors := 1, ranges := rng, it := 0\<rparr>"
  have "sserve init_call write_call blank req (new_scall\<lparr>pending := []\<rparr>) = process write_call blank req ?i"
    using init by (simp add: sserve_def new_scall_def Let_def)
  also have "\<dots> = process write_call blank req (?i\<lparr>sstatus := PROCESS\<rparr>)" by (simp only: process_any_status)
  also have "\<dots> = sserve init_call write_call blank req (?s\<lparr>pending := []\<rparr>)"
    by (simp add: sserve_def new_scall_def)
  finally have "sserve init_call write_call blank req (new_scall\<lparr>pending := []\<rparr>) =
      sserve init_call write_call blank req (?s\<lparr>pending := []\<rparr>)" .
  then have "run_scall init_call write_call blank req (length (filter sel rng) + 2) new_scall =
      run_scall init_call write_call blank req (length (filter sel rng) + 2) ?s"
    by (simp add: new_scall_def)
  also have "\<dots> = returns \<lparr>salive = False, sstatus = FINISH, ranges = rng, it = length rng, pending = [],
        written = [] @ map out (filter sel (drop 0 rng)), finished = [OK], successors = 1\<rparr>"
    by (rule run_scall_process [where wc = write_call and req = req and rng = rng and sel = sel and out = out, OF assms(1)]) simp_all
  finally show ?thesis by simp
qed

section \<open>Properties\<close>

text \<open>
  C10. A streaming call whose \<open>init_call\<close> succeeds and whose \<open>write_call\<close> selects elements
  without moving the iterator sends the replies of exactly the selected elements, in order,
  finishes once with OK and is deleted with nothing outstanding, after as many deliveries as
  there are replies and two more; it has made one successor for the next request. If
  \<open>init_call\<close> fails, it finishes with that status and writes nothing.
\<close>

theorem stream_server_runs:
  assumes "selects (write_call req rng) sel out rng"
  shows "(init_call req = (OK, rng) \<longrightarrow>
      run_scall init_call write_call blank req (length (filter sel rng) + 2) new_scall =
        returns \<lparr>salive = False, sstatus = FINISH, ranges = rng, it = length rng, pending = [],
          written = map out (filter sel rng), finished = [OK], successors = 1\<rparr>) \<and>
    (init_call req = (Failed m, rng) \<longrightarrow>
      run_scall init_call write_call blank req 2 new_scall =
        returns \<lparr>salive = False, sstatus = FINISH, ranges = rng, it = 0, pending = [],
          written = [], finished = [Failed m], successors = 1\<rparr>)"
  using stream_server_ok [where write_call = write_call and req = req and rng = rng and sel = sel and out = out, OF assms]
  by (simp add: numeral_2_eq_2 sserve_def new_scall_def finish_def sshutdown_def Let_def)

theorem stream_server_runs_witness:
  "run_scall (\<lambda>q :: nat. (OK, [q, 7])) (\<lambda>q rng i r. (even (rng ! i), i, rng ! i * 10)) 0 4 (length (filter even [4 :: nat, 7]) + 2) new_scall =
    returns \<lparr>salive = False, sstatus = FINISH, ranges = [4, 7], it = length [4 :: nat, 7],
      pending = [], written = map (\<lambda>e. e * 10) (filter even [4, 7]), finished = [OK], successors = 1\<rparr>"
proof -
  have "selects (\<lambda>i (r :: nat). (even ([4 :: nat, 7] ! i), i, [4 :: nat, 7] ! i * 10)) even (\<lambda>e. e * 10) [4 :: nat, 7]"
    by (simp add: selects_def)
  then show ?thesis
    using stream_server_runs [where write_call = "\<lambda>q rng i r. (even (rng ! i), i, rng ! i * 10)" and rng = "[4, 7]"
        and req = "4 :: nat" and sel = even and out = "\<lambda>e. e * 10 :: nat" and blank = 0
        and init_call = "\<lambda>q. (OK, [q, 7])"]
    by blast
qed

text \<open>
  \<open>shutdown\<close> of a call that is in the middle of its stream starts a \<open>Finish\<close> with the
  call as its tag and then deletes the call: the queue hands back the tags of that operation
  and of the write in progress, and serving either is a use after free.
\<close>

lemma shutdown_leaves_tags:
  assumes "sstatus s = PROCESS"
  shows "pending (sshutdown s) = pending s @ [Await_finish] \<and> finished (sshutdown s) = finished s @ [Failed []] \<and>
    sserve init_call write_call blank req ((sshutdown s)\<lparr>pending := tl (pending (sshutdown s))\<rparr>) = fails Undefined"
  using assms by (simp add: sshutdown_def finish_def sserve_def Let_def)

end
