(* ===== verification/Step_Systems.thy ===== *)
theory Step_Systems
  imports Main
begin

text \<open>
  The interface of the components that are step relations: an initial state, the steps and an
  invariant that they keep; and, on top of it, an abstraction whose steps they simulate. The
  components interpret the locales on their own states and steps.
\<close>

locale safe_system =
  fixes init :: 's
    and step :: "'s \<Rightarrow> 's \<Rightarrow> bool"
    and inv :: "'s \<Rightarrow> bool"
  assumes inv_init: "inv init"
    and inv_step: "inv s \<Longrightarrow> step s s' \<Longrightarrow> inv s'"
begin

lemma inv_steps: "rtranclp step s s' \<Longrightarrow> inv s \<Longrightarrow> inv s'"
  by (induction rule: rtranclp_induct) (auto intro: inv_step)

lemma safe: "rtranclp step init s \<Longrightarrow> inv s"
  by (erule inv_steps) (rule inv_init)

text \<open>Facts that hold in every state with the invariant and are kept by its steps.\<close>

lemma safe_with:
  assumes "rtranclp step init s" and "P init"
    and "\<And>t t'. inv t \<Longrightarrow> P t \<Longrightarrow> step t t' \<Longrightarrow> P t'"
  shows "P s"
proof -
  from assms(1) have "rtranclp step init s \<and> P s"
  proof (induction rule: rtranclp_induct)
    case base
    show ?case using assms(2) by simp
  next
    case (step t t')
    then show ?case using assms(3) [of t t'] safe by (auto intro: rtranclp.rtrancl_into_rtrancl)
  qed
  then show ?thesis ..
qed

end

locale simulation = safe_system init step inv
  for init :: 's and step and inv +
  fixes ainit :: 'a
    and astep :: "'a \<Rightarrow> 'a \<Rightarrow> bool"
    and abs_state :: "'s \<Rightarrow> 'a"
  assumes abs_init: "abs_state init = ainit"
    and abs_step: "inv s \<Longrightarrow> step s s' \<Longrightarrow> abs_state s' = abs_state s \<or> astep (abs_state s) (abs_state s')"
begin

lemma simulates_from: "rtranclp step s s' \<Longrightarrow> inv s \<Longrightarrow> rtranclp astep (abs_state s) (abs_state s')"
proof (induction rule: rtranclp_induct)
  case (step t t')
  then have "inv t" by (auto intro: inv_steps)
  with step abs_step [of t t'] show ?case
    by (metis rtranclp.rtrancl_into_rtrancl)
qed simp

lemma simulates: "rtranclp step init s \<Longrightarrow> rtranclp astep ainit (abs_state s)"
  using simulates_from [of init s] inv_init abs_init by simp

text \<open>What the abstraction keeps invariant holds of the abstraction of every state.\<close>

lemma transfer:
  assumes "rtranclp step init s" and "P ainit" and "\<And>a a'. P a \<Longrightarrow> astep a a' \<Longrightarrow> P a'"
  shows "P (abs_state s)"
proof -
  from simulates [OF assms(1)] show ?thesis
    by (induction rule: rtranclp_induct) (auto intro: assms(2,3))
qed

end

end
