(* ===== verification/Client_Calls.thy ===== *)
theory Client_Calls
  imports Async_Stream Step_Systems
begin

text \<open>
  A call as its caller sees it: a handler to which gRPC delivers completions, and a promise
  that \<open>wait_for\<close> polls meanwhile. The locale states what a caller relies on; the unary and
  the streaming handler provide it. The second part shows that the promises of all calls of
  a client behave like a table of values that are set once.
\<close>

section \<open>Handlers with a promise\<close>

fun run_deliveries :: "('o \<Rightarrow> 's \<Rightarrow> 's res) \<Rightarrow> 'o list \<Rightarrow> 's \<Rightarrow> 's res" where
  "run_deliveries complete [] s = Inr s"
| "run_deliveries complete (x # xs) s = bind_res (complete x s) (run_deliveries complete xs)"

text \<open>
  The promise of a handler whose completions are \<open>xs\<close>, as the successive polls find it, when
  \<open>sched t\<close> of them have been delivered by the poll \<open>t\<close>.
\<close>

definition outcome_after :: "('o \<Rightarrow> 's \<Rightarrow> 's res) \<Rightarrow> ('s \<Rightarrow> errptr option) \<Rightarrow> 'o list \<Rightarrow> 's \<Rightarrow> errptr option" where
  "outcome_after complete outcome xs s = (case run_deliveries complete xs s of Inl e \<Rightarrow> None | Inr s' \<Rightarrow> outcome s')"

definition promise_of ::
  "('o \<Rightarrow> 's \<Rightarrow> 's res) \<Rightarrow> ('s \<Rightarrow> errptr option) \<Rightarrow> (nat \<Rightarrow> nat) \<Rightarrow> 'o list \<Rightarrow> 's \<Rightarrow> promise_state" where
  "promise_of complete outcome sched xs s =
     \<lparr>retrieved = False,
      ready_at = (\<lambda>t. outcome_after complete outcome (take (sched t) xs) s \<noteq> None),
      result = (case outcome_after complete outcome xs s of None \<Rightarrow> None | Some e \<Rightarrow> e)\<rparr>"

locale client_handler =
  fixes good :: "'s \<Rightarrow> bool"
    and complete :: "'o \<Rightarrow> 's \<Rightarrow> 's res"
    and outcome :: "'s \<Rightarrow> errptr option"
  assumes complete_good: "good s \<Longrightarrow> \<exists>s'. complete x s = Inr s' \<and> good s'"
    and outcome_kept: "good s \<Longrightarrow> complete x s = Inr s' \<Longrightarrow> outcome s = Some e \<Longrightarrow> outcome s' = Some e"
begin

lemma deliveries_good: "good s \<Longrightarrow> \<exists>s'. run_deliveries complete xs s = Inr s' \<and> good s'"
proof (induction xs arbitrary: s)
  case (Cons x xs)
  from complete_good [OF Cons(2), of x] Cons(1) show ?case by auto
qed simp

lemma deliveries_kept: "good s \<Longrightarrow> run_deliveries complete xs s = Inr s' \<Longrightarrow> outcome s = Some e \<Longrightarrow> outcome s' = Some e"
proof (induction xs arbitrary: s)
  case (Cons x xs)
  from complete_good [OF Cons(2), of x] obtain s1 where s1: "complete x s = Inr s1" "good s1" by blast
  with outcome_kept [OF Cons(2) s1(1) Cons(4)] Cons(1) [OF s1(2)] Cons(3) show ?case by simp
qed simp

lemma run_deliveries_append:
  "run_deliveries complete (xs @ ys) s = bind_res (run_deliveries complete xs s) (run_deliveries complete ys)"
  by (induction xs arbitrary: s) (simp_all add: bind_res_def split: sum.split)

lemma outcome_after_append:
  assumes "good s" and "outcome_after complete outcome xs s = Some e"
  shows "outcome_after complete outcome (xs @ ys) s = Some e"
proof -
  from deliveries_good [OF assms(1), of xs] obtain s1 where s1: "run_deliveries complete xs s = Inr s1" "good s1" by blast
  from deliveries_good [OF s1(2), of ys] obtain s2 where s2: "run_deliveries complete ys s1 = Inr s2" by blast
  from assms(2) s1(1) have "outcome s1 = Some e" by (simp add: outcome_after_def)
  from deliveries_kept [OF s1(2) s2 this] s1(1) s2 show ?thesis
    by (simp add: outcome_after_def run_deliveries_append)
qed

text \<open>Waiting for the promise returns its error, if the completions lead to one, and else never.\<close>

lemma wait_for_outcome:
  assumes good: "good s" and sched: "\<exists>t. length xs \<le> sched t"
  shows "wait_for (promise_of complete outcome sched xs s) has_handler =
    (case outcome_after complete outcome xs s of None \<Rightarrow> None
     | Some e \<Rightarrow> returns (if e \<noteq> None \<and> has_handler then [e] else []))"
proof (cases "outcome_after complete outcome xs s")
  case None
  have "outcome_after complete outcome (take n xs) s = None" for n
    using outcome_after_append [OF good, of "take n xs" _ "drop n xs"] None
    by (cases "outcome_after complete outcome (take n xs) s") simp_all
  then have "poll (ready_at (promise_of complete outcome sched xs s)) 0 = None"
    by (intro poll_diverges) (simp add: promise_of_def)
  then show ?thesis by (simp add: wait_for_def None) (simp add: promise_of_def)
next
  case (Some e)
  from sched obtain t where "length xs \<le> sched t" by blast
  with Some have "ready_at (promise_of complete outcome sched xs s) (0 + t)" by (simp add: promise_of_def)
  from poll_returns [of "ready_at (promise_of complete outcome sched xs s)" 0 t] this obtain t' where "poll (ready_at (promise_of complete outcome sched xs s)) 0 = returns t'"
    by blast
  then show ?thesis by (simp add: wait_for_def Some) (simp add: promise_of_def Some)
qed

end

section \<open>The unary handler\<close>

definition unary_deliver :: "status \<times> 'r \<Rightarrow> 'r client \<Rightarrow> 'r client res" where
  "unary_deliver x c = run_call True [x] c"

definition unary_outcome :: "'r client \<Rightarrow> errptr option" where
  "unary_outcome c = (if promised c = [] then None else promised c ! 0)"

lemma run_deliveries_unary: "run_deliveries unary_deliver xs c = run_call True xs c"
proof (induction xs arbitrary: c)
  case (Cons x xs)
  then show ?case
    by (cases x; cases "outstanding c") (auto simp: unary_deliver_def bind_res_def run_call_idle split: sum.split)
qed simp

text \<open>
  The completion of a call sets its promise if it is the last: it succeeded, or no retry is left.
\<close>

lemma deliver_sets:
  assumes "client_ok c" and "tag \<in> set (outstanding c)"
  obtains h p c' where "handlers c ! tag = Some h" "complete_promise h = Some p"
    "p < length (promised c)" "promised c ! p = None" "deliver has_cb tag st reply c = Inr c'"
    "promised c' = (if st = OK \<or> nretries h = 0 then (promised c)[p := Some (status_error st)] else promised c)"
proof -
  from client_ok_handler [OF assms] obtain h p where
    h: "tag < length (handlers c)" "handlers c ! tag = Some h" "complete_promise h = Some p"
    and p: "p < length (promised c)" "promised c ! p = None" .
  from deliver_ok [OF assms] obtain c' where c': "deliver has_cb tag st reply c = Inr c'" by blast
  with h p have "promised c' = (if st = OK \<or> nretries h = 0 then (promised c)[p := Some (status_error st)] else promised c)"
    by (cases st) (auto simp: deliver_def handle_def emit_def new_handler_def delete_handler_def destroy_handler_def
        set_value_def status_error_def Let_def split: if_splits)
  with h p c' that show thesis by blast
qed

lemma deliver_promised:
  assumes "client_ok c" and "tag \<in> set (outstanding c)" and "deliver has_cb tag st reply c = Inr c'"
  shows "promised c' = promised c \<or>
    (\<exists>p e. p < length (promised c) \<and> promised c ! p = None \<and> promised c' = (promised c)[p := Some e])"
  using deliver_sets [OF assms(1,2), of has_cb st reply] assms(3) by (metis sum.inject(2))

interpretation uh: client_handler "client_ok :: 'r client \<Rightarrow> bool" unary_deliver unary_outcome
proof
  fix c :: "'r client" and x :: "status \<times> 'r"
  assume ok: "client_ok c"
  then show "\<exists>c'. unary_deliver x c = Inr c' \<and> client_ok c'"
    using deliver_ok [OF ok, of _ True "fst x" "snd x"]
    by (cases x; cases "outstanding c") (fastforce simp: unary_deliver_def)+
next
  fix c c' :: "'r client" and x :: "status \<times> 'r" and e
  assume ok: "client_ok c" and step: "unary_deliver x c = Inr c'" and e: "unary_outcome c = Some e"
  show "unary_outcome c' = Some e"
  proof (cases "outstanding c")
    case Nil
    with step e show ?thesis by (cases x) (simp add: unary_deliver_def)
  next
    case (Cons tag tags)
    with step have "deliver True tag (fst x) (snd x) c = Inr c'"
      by (cases x) (auto simp: unary_deliver_def split: sum.splits)
    from deliver_promised [OF ok _ this] Cons have "promised c' = promised c \<or>
        (\<exists>p e. p < length (promised c) \<and> promised c ! p = None \<and> promised c' = (promised c)[p := Some e])" by simp
    moreover have "promised c \<noteq> []" "promised c ! 0 = Some e"
      using e by (auto simp: unary_outcome_def split: if_splits)
    ultimately have "promised c' \<noteq> []" "promised c' ! 0 = Some e" by (auto simp: nth_list_update)
    then show ?thesis by (simp add: unary_outcome_def)
  qed
qed

section \<open>The streaming handler\<close>

definition stream_deliver :: "'d completion \<Rightarrow> 'd stream \<Rightarrow> 'd stream res" where
  "stream_deliver x h = run_stream [x] h"

text \<open>A handler that waits for a completion, or has been deleted.\<close>

definition stream_good :: "'d stream \<Rightarrow> bool" where
  "stream_good h \<longleftrightarrow> (live h \<and> reader_set h \<and> pending_op h \<noteq> None \<and> has_promise h \<and> stream_promise h = None) \<or>
     (\<not> live h \<and> pending_op h = None \<and> stream_promise h \<noteq> None)"

lemma run_deliveries_stream: "run_deliveries stream_deliver xs h = run_stream xs h"
proof (induction xs arbitrary: h)
  case (Cons x xs)
  have idle: "run_stream xs h = Inr h" if "pending_op h = None"
    using that by (cases "(xs, h)" rule: run_stream.cases) simp_all
  with Cons show ?case
    by (cases x; cases "pending_op h") (auto simp: stream_deliver_def bind_res_def split: sum.split)
qed simp

interpretation sh: client_handler stream_good stream_deliver stream_promise
proof
  fix h :: "'d stream" and x :: "'d completion"
  assume good: "stream_good h"
  then show "\<exists>h'. stream_deliver x h = Inr h' \<and> stream_good h'"
    by (cases x; cases "call_status h")
      (auto simp: stream_deliver_def stream_good_def stream_handle_def issue_def)
next
  fix h h' :: "'d stream" and x :: "'d completion" and e
  assume "stream_good h" "stream_deliver x h = Inr h'" "stream_promise h = Some e"
  then show "stream_promise h' = Some e"
    by (cases x) (auto simp: stream_deliver_def stream_good_def)
qed

section \<open>All promises of a client\<close>

text \<open>The table of values set once: an entry is added without a value, and gets one.\<close>

inductive table_step :: "promises \<Rightarrow> promises \<Rightarrow> bool" where
  New: "table_step ps (ps @ [None])"
| Set: "p < length ps \<Longrightarrow> ps ! p = None \<Longrightarrow> table_step ps (ps[p := Some e])"

lemma table_kept: "rtranclp table_step ps ps' \<Longrightarrow> p < length ps \<Longrightarrow> ps ! p = Some e \<Longrightarrow> p < length ps' \<and> ps' ! p = Some e"
proof (induction rule: rtranclp_induct)
  case (step qs rs)
  from step(2) step(3) [OF step(4,5)] show ?case
    by cases (auto simp: nth_append nth_list_update)
qed simp

definition client_run :: "bool \<Rightarrow> 'r client res \<Rightarrow> 'r client res \<Rightarrow> bool" where
  "client_run has_cb r r' \<longleftrightarrow> (\<exists>c. r = Inr c \<and> client_step has_cb c r')"

lemma client_reach_run: "client_reach has_cb r \<longleftrightarrow> rtranclp (client_run has_cb) (Inr no_calls) r"
proof
  assume "client_reach has_cb r"
  then show "rtranclp (client_run has_cb) (Inr no_calls) r"
    by induction (auto simp: client_run_def intro: rtranclp.rtrancl_into_rtrancl)
next
  assume "rtranclp (client_run has_cb) (Inr no_calls) r"
  then show "client_reach has_cb r"
    by induction (auto simp: client_run_def intro: client_reach.intros)
qed

definition running_well :: "'r client res \<Rightarrow> bool" where
  "running_well r \<longleftrightarrow> (\<exists>c. r = Inr c \<and> client_ok c)"

definition promises_of :: "'r client res \<Rightarrow> promises" where
  "promises_of r = (case r of Inl e \<Rightarrow> [] | Inr c \<Rightarrow> promised c)"

interpretation ct: simulation "Inr no_calls" "client_run has_cb" running_well "[]" table_step promises_of for has_cb
proof
  show "running_well (Inr no_calls)" by (simp add: running_well_def client_ok_start)
  show "promises_of (Inr no_calls) = []" by (simp add: promises_of_def no_calls_def)
next
  fix r r' :: "'r client res"
  assume "running_well r" and "client_run has_cb r r'"
  then obtain c where c: "r = Inr c" "client_ok c" "client_step has_cb c r'"
    by (auto simp: running_well_def client_run_def)
  from c(3) show "running_well r'"
  proof cases
    case (Start n)
    with client_ok_start_call [OF c(2)] show ?thesis by (simp add: running_well_def)
  next
    case (Complete tag st reply)
    with deliver_ok [OF c(2), of tag has_cb st reply] show ?thesis by (auto simp: running_well_def)
  qed
  from c(3) show "promises_of r' = promises_of r \<or> table_step (promises_of r) (promises_of r')"
  proof cases
    case (Start n)
    then have "promises_of r' = promises_of r @ [None]"
      by (simp add: promises_of_def c(1) start_call_def new_handler_def Let_def)
    then show ?thesis by (simp add: table_step.New)
  next
    case (Complete tag st reply)
    with deliver_ok [OF c(2), of tag has_cb st reply] obtain c' where c': "r' = Inr c'" by auto
    have "promised c' = promised c \<or>
        (\<exists>p e. p < length (promised c) \<and> promised c ! p = None \<and> promised c' = (promised c)[p := Some e])"
      using Complete c' by (intro deliver_promised [OF c(2)]) auto
    then show ?thesis by (auto simp: promises_of_def c(1) c' intro: table_step.Set)
  qed
qed

text \<open>
  Waiting for a streaming call returns, with the error of the final status if there is one,
  exactly if the completions lead to the end of the stream.
\<close>

lemma stream_waits:
  assumes "\<exists>t. length cs \<le> sched t"
  shows "wait_for (promise_of stream_deliver stream_promise sched cs new_stream) True =
    (case stream_end cs of None \<Rightarrow> None
     | Some st \<Rightarrow> returns (if status_error st = None then [] else [status_error st]))"
proof -
  have good: "stream_good new_stream" by (simp add: stream_good_def new_stream_def)
  have "outcome_after stream_deliver stream_promise cs new_stream = map_option status_error (stream_end cs)"
    using run_new_stream [of cs] by (auto simp: outcome_after_def run_deliveries_stream stream_view_def)
  with sh.wait_for_outcome [OF good, of cs sched True] assms show ?thesis
    by (auto split: option.splits)
qed

section \<open>Properties\<close>

text \<open>
  C22. However calls are started and completed, a client never fails: no promise is set twice, in
  particular. Its promises behave like a table in which every entry is set at most once, and an
  error once reported stays. The completion of a call sets the entry of that call, which has no
  value before, if the call succeeded or has no retry left, and leaves the table alone otherwise.
\<close>

theorem promises_refine_table:
  fixes st :: status
  assumes "client_reach has_cb (Inr c)" and "rtranclp (client_run has_cb) (Inr c) r"
  shows "\<exists>c'. r = Inr c' \<and> rtranclp table_step [] (promised c) \<and> rtranclp table_step (promised c) (promised c') \<and>
    (\<forall>p < length (promised c). \<forall>e. promised c ! p = Some e \<longrightarrow> promised c' ! p = Some e) \<and>
    (\<forall>tag \<in> set (outstanding c'). \<exists>h p c''. handlers c' ! tag = Some h \<and> complete_promise h = Some p \<and>
      p < length (promised c') \<and> promised c' ! p = None \<and> deliver has_cb tag st reply c' = Inr c'' \<and>
      promised c'' = (if st = OK \<or> nretries h = 0 then (promised c')[p := Some (status_error st)] else promised c'))"
proof -
  have "rtranclp table_step [] (promised c)"
    using ct.simulates assms(1) unfolding client_reach_run by (fastforce simp: promises_of_def)
  moreover have well: "running_well (Inr c)" using client_reach_ok [OF assms(1)] by (simp add: running_well_def)
  from ct.inv_steps [OF assms(2) well] obtain c' where c': "r = Inr c'" "client_ok c'"
    by (auto simp: running_well_def)
  moreover have steps: "rtranclp table_step (promised c) (promised c')"
    using ct.simulates_from [OF assms(2) well] by (simp add: promises_of_def c'(1))
  moreover have "\<exists>h p c''. handlers c' ! tag = Some h \<and> complete_promise h = Some p \<and>
      p < length (promised c') \<and> promised c' ! p = None \<and> deliver has_cb tag st reply c' = Inr c'' \<and>
      promised c'' = (if st = OK \<or> nretries h = 0 then (promised c')[p := Some (status_error st)] else promised c')"
    if "tag \<in> set (outstanding c')" for tag
    by (rule deliver_sets [OF c'(2) that, of has_cb st reply]) blast
  ultimately show ?thesis using table_kept [OF steps] by blast
qed

theorem promises_refine_table_witness:
  "\<exists>c''. deliver True 0 (Failed ''down'') 7 (start_call 0 no_calls :: nat client) = Inr c'' \<and>
    promised c'' = [Some (status_error (Failed ''down''))]"
proof -
  let ?c = "start_call 0 no_calls :: nat client"
  have "client_reach True (Inr ?c)" by (rule client_reach.Next [OF client_reach.Begin client_step.Start])
  from promises_refine_table [OF this rtranclp.rtrancl_refl, of "Failed ''down''" 7]
  have "\<forall>tag \<in> set (outstanding ?c). \<exists>h p c''. handlers ?c ! tag = Some h \<and> complete_promise h = Some p \<and>
      p < length (promised ?c) \<and> promised ?c ! p = None \<and> deliver True tag (Failed ''down'') 7 ?c = Inr c'' \<and>
      promised c'' = (if Failed ''down'' = OK \<or> nretries h = 0 then (promised ?c)[p := Some (status_error (Failed ''down''))] else promised ?c)"
    by auto
  then show ?thesis by (auto simp: start_call_def new_handler_def no_calls_def Let_def)
qed

text \<open>
  Waiting for a unary call: if the attempts delivered meanwhile lead to a result, \<open>wait_for\<close>
  returns and the handler gets the error of the result, if there is one; if the attempts
  never lead to a result, it does not return.
\<close>

lemma unary_call_and_wait:
  assumes "\<exists>t. length os \<le> sched t"
  shows "wait_for (promise_of unary_deliver unary_outcome sched os (start_call n no_calls)) True =
    (case call_result n os of None \<Rightarrow> None
     | Some (e, replies) \<Rightarrow> returns (if e = None then [] else [e]))"
proof -
  have ok: "client_ok (start_call n no_calls)" by (intro client_ok_start_call client_ok_start)
  have "outcome_after unary_deliver unary_outcome os (start_call n no_calls) = map_option fst (call_result n os)"
    using run_call_correct [of "start_call n no_calls" 0 0 n os]
    by (auto simp: outcome_after_def run_deliveries_unary unary_outcome_def start_call_def new_handler_def
        no_calls_def Let_def)
  with uh.wait_for_outcome [OF ok, of os sched True] assms show ?thesis
    by (auto split: option.splits)
qed

end
