(* ===== verification/Stream_Rpc.thy ===== *)
theory Stream_Rpc
  imports Stream_Server Client_Calls
begin

text \<open>
  A streaming call from end to end: the server's call of \<open>server_async_stream.h\<close>, the client's
  handler of \<open>client_async_stream.h\<close> and the caller's \<open>wait_for\<close>, with gRPC in between. What
  gRPC does is a hypothesis: it delivers the messages written, in order, and then the status.
\<close>

text \<open>
  \<open>delivers cs ws st\<close>: the completions \<open>cs\<close> of a client handler are those of a call on which
  the server has written the messages \<open>ws\<close> and finished with \<open>st\<close>: the start, one successful
  read for each message, a failed read, and the end with the status.
\<close>

definition delivers :: "'d completion list \<Rightarrow> 'd list \<Rightarrow> status \<Rightarrow> bool" where
  "delivers cs ws st \<longleftrightarrow>
     (case cs of [] \<Rightarrow> False
      | c # cs' \<Rightarrow> fst c \<and> map (\<lambda>x. (fst x, fst (snd x))) (take (length ws) cs') = map (Pair True) ws \<and>
          (case drop (length ws) cs' of [d, e] \<Rightarrow> \<not> fst d \<and> snd (snd e) = st | _ \<Rightarrow> False))"

lemma finish_status_pair: "finish_status [d, e] = Some (snd (snd e))"
  by (cases e) simp

lemma delivers_reads:
  assumes "delivers cs ws st"
  shows "stream_data cs = ws" and "stream_end cs = Some st"
proof -
  from assms obtain c cs' d e where cs: "cs = c # cs'" "fst c"
    and reads: "map (\<lambda>x. (fst x, fst (snd x))) (take (length ws) cs') = map (Pair True) ws"
    and rest: "drop (length ws) cs' = [d, e]" "\<not> fst d" "snd (snd e) = st"
    by (auto simp: delivers_def split: list.splits)
  have split: "cs' = take (length ws) cs' @ [d, e]" using rest(1) by (metis append_take_drop_id)
  have all: "\<forall>x \<in> set (take (length ws) cs'). fst x"
    using arg_cong [OF reads, of "map fst"] by (auto simp: comp_def) (metis (no_types, lifting) fst_conv image_iff map_eq_conv set_map)
  have data: "map (fst \<circ> snd) (take (length ws) cs') = ws"
    using arg_cong [OF reads, of "map snd"] by (simp add: comp_def)
  have "takeWhile fst cs' = take (length ws) cs'" "dropWhile fst cs' = [d, e]"
    using all rest(2) by (subst split, simp add: takeWhile_append2 dropWhile_append2)+
  with cs data rest(3) show "stream_data cs = ws" "stream_end cs = Some st"
    by (simp_all add: stream_data_def stream_end_def finish_status_pair)
qed

text \<open>The server's run, with the same number of deliveries whether \<open>init_call\<close> succeeds or not.\<close>

lemma run_scall_idle: "pending s = [] \<Longrightarrow> run_scall ic wc blank req k s = returns s"
  by (cases k) simp_all

definition served :: "status \<Rightarrow> 'e list \<Rightarrow> 'r list \<Rightarrow> ('e, 'r) scall" where
  "served st rng replies =
     \<lparr>salive = False, sstatus = FINISH, ranges = rng, it = (if st = OK then length rng else 0), pending = [],
      written = (if st = OK then replies else []), finished = [st], successors = 1\<rparr>"

lemma run_served:
  assumes "selects (write_call req rng) sel out rng" and "init_call req = (st, rng)"
  shows "run_scall init_call write_call blank req (length (filter sel rng) + 2) new_scall =
    returns (served st rng (map out (filter sel rng)))"
proof (cases st)
  case OK
  with stream_server_ok [where write_call = write_call and req = req and rng = rng and sel = sel and out = out, OF assms(1)] assms(2) show ?thesis by (simp add: served_def)
next
  case (Failed m)
  with assms(2) show ?thesis
    by (simp add: numeral_2_eq_2 sserve_def new_scall_def finish_def sshutdown_def Let_def run_scall_idle served_def)
qed

section \<open>Properties\<close>

text \<open>
  The state machines on both sides only go forward, from STARTUP over PROCESS to FINISH,
  whatever gRPC delivers and whatever the application's functions do; and a handler or a call
  that has been deleted is not served again.
\<close>

lemma status_forward:
  "(stream_handle ok reply st h = Inr h' \<longrightarrow> call_status h \<le> call_status h' \<and> live h) \<and>
   (sserve init_call write_call blank req s = returns s' \<longrightarrow> sstatus s \<le> sstatus s' \<and> salive s)"
proof -
  have "stream_handle ok reply st h = Inr h' \<Longrightarrow> live h" by (simp add: stream_handle_def split: if_splits)
  moreover have "sserve init_call write_call blank req s = returns s' \<Longrightarrow> salive s"
    by (simp add: sserve_def split: if_splits)
  ultimately show ?thesis by (intro conjI impI stream_handle_forward sserve_forward)
qed

text \<open>
  C14. From end to end: the client's handler gets exactly the replies of the elements the
  server selects, in order, its promise reports the status of \<open>init_call\<close>, \<open>wait_for\<close> returns
  and passes on that status' error, and both sides are deleted.
\<close>

theorem stream_end_to_end:
  assumes "selects (write_call req rng) sel out rng" and "init_call req = (st, rng)"
    and "\<And>s. run_scall init_call write_call blank req (length (filter sel rng) + 2) new_scall = returns s \<Longrightarrow>
      delivers cs (written s) (hd (finished s))"
    and "\<exists>t. length cs \<le> sched t"
  shows "\<exists>h. run_stream cs new_stream = Inr h \<and> \<not> live h \<and>
    handled h = (if st = OK then map out (filter sel rng) else []) \<and> stream_promise h = Some (status_error st) \<and>
    wait_for (promise_of stream_deliver stream_promise sched cs new_stream) True =
      returns (if status_error st = None then [] else [status_error st])"
proof -
  have "delivers cs (if st = OK then map out (filter sel rng) else []) st"
    using assms(3) [OF run_served [where write_call = write_call and req = req and rng = rng and sel = sel and out = out and init_call = init_call and st = st, OF assms(1,2)]] by (simp add: served_def)
  note reads = delivers_reads [OF this]
  obtain h where h: "run_stream cs new_stream = Inr h" "stream_view h (stream_data cs) (stream_end cs)"
    using run_new_stream [of cs] by blast
  have "wait_for (promise_of stream_deliver stream_promise sched cs new_stream) True =
      returns (if status_error st = None then [] else [status_error st])"
    using stream_waits [of cs sched] assms(4) reads(2) by simp
  with h reads show ?thesis by (auto simp: stream_view_def)
qed

theorem stream_end_to_end_witness:
  "\<exists>h. run_stream [(True, 0, OK), (True, 40, OK), (False, 0, OK), (True, 0, OK)] new_stream = Inr h \<and>
    handled h = map (\<lambda>e. e * 10) (filter even [4 :: nat, 7])"
proof -
  have sel: "selects (\<lambda>i (r :: nat). (even ([4 :: nat, 7] ! i), i, [4 :: nat, 7] ! i * 10)) even (\<lambda>e. e * 10) [4 :: nat, 7]"
    by (simp add: selects_def)
  have run: "run_scall (\<lambda>q. (OK, [q, 7])) (\<lambda>q rng i r. (even (rng ! i), i, rng ! i * 10)) 0 4
      (length (filter even [4 :: nat, 7]) + 2) new_scall = returns (served OK [4, 7] [40 :: nat])"
    using run_served [where write_call = "\<lambda>q rng i r. (even (rng ! i), i, rng ! i * 10)" and rng = "[4, 7]"
        and req = "4 :: nat" and sel = even and out = "\<lambda>e. e * 10 :: nat" and blank = 0
        and init_call = "\<lambda>q. (OK, [q, 7])" and st = OK] sel by simp
  have cs: "delivers [(True, 0, OK), (True, 40, OK), (False, 0, OK), (True, 0, OK)] (written s) (hd (finished s))"
    if "run_scall (\<lambda>q. (OK, [q, 7])) (\<lambda>q rng i r. (even (rng ! i), i, rng ! i * 10)) 0 4
      (length (filter even [4 :: nat, 7]) + 2) new_scall = returns s" for s :: "(nat, nat) scall"
    using that unfolding run by (auto simp: served_def delivers_def)
  have "\<exists>t. length [(True, 0 :: nat, OK), (True, 40, OK), (False, 0, OK), (True, 0, OK)] \<le> id t"
    by (intro exI [of _ 4]) simp
  from stream_end_to_end [where write_call = "\<lambda>q rng i r. (even (rng ! i), i, rng ! i * 10)" and rng = "[4, 7]"
        and req = "4 :: nat" and sel = even and out = "\<lambda>e. e * 10 :: nat" and blank = 0
        and init_call = "\<lambda>q. (OK, [q, 7])" and st = OK and sched = id, OF sel refl cs this]
  obtain h where "run_stream [(True, 0, OK), (True, 40, OK), (False, 0, OK), (True, 0, OK)] new_stream = Inr h"
    and "handled h = (if OK = OK then map (\<lambda>e. e * 10) (filter even [4 :: nat, 7]) else [])" by blast
  then show ?thesis by (intro exI [of _ h]) (simp only: if_True simp_thms)
qed

end
