(* ===== verification/Unary_Rpc.thy ===== *)
theory Unary_Rpc
  imports Async_Server Client_Calls
begin

text \<open>
  A unary call from end to end: the client's handler of \<open>client_async.h\<close> with its retries, the
  server's calls of \<open>server_async.h\<close> and the caller's \<open>wait_for\<close>, with gRPC in between. Each
  attempt has its own fate, which is gRPC's choice.
\<close>

section \<open>Attempts\<close>

text \<open>
  An attempt fails before it reaches the server, or after the server has answered (its deadline
  passes, or the connection is lost), or the answer arrives.
\<close>

datatype fate = Unreached string | Reply_lost string | Answered

text \<open>The server is handed the request, answers it, and is handed the tag back once more.\<close>

definition server_answers :: "('q \<Rightarrow> status \<times> 's) \<Rightarrow> 'q \<Rightarrow> 's server \<Rightarrow> ('s response \<times> 's server) res" where
  "server_answers w req s =
     (case listening s of
        [] \<Rightarrow> Inl Undefined
      | tag # tags \<Rightarrow>
          bind_res (serve_call w tag req (s\<lparr>listening := tags\<rparr>)) (\<lambda>s1.
          bind_res (serve_call w tag req (s1\<lparr>sending := remove1 tag (sending s1)\<rparr>)) (\<lambda>s2.
          Inr (snd (last (responses s1)), s2))))"

text \<open>What the client gets; \<open>blank\<close> is its reply before gRPC stores one.\<close>

definition received :: "'s \<Rightarrow> 's response \<Rightarrow> status \<times> 's" where
  "received blank x = (case x of Finish reply st \<Rightarrow> (st, reply) | Finish_with_error st \<Rightarrow> (st, blank))"

definition attempt ::
  "('q \<Rightarrow> status \<times> 's) \<Rightarrow> 's \<Rightarrow> 'q \<Rightarrow> fate \<Rightarrow> 's server \<Rightarrow> ((status \<times> 's) \<times> 's server) res" where
  "attempt w blank req f s =
     (case f of
        Unreached m \<Rightarrow> Inr ((Failed m, blank), s)
      | Reply_lost m \<Rightarrow> bind_res (server_answers w req s) (\<lambda>(x, s'). Inr ((Failed m, blank), s'))
      | Answered \<Rightarrow> bind_res (server_answers w req s) (\<lambda>(x, s'). Inr (received blank x, s')))"

primrec run_rpc ::
  "('q \<Rightarrow> status \<times> 's) \<Rightarrow> 's \<Rightarrow> 'q \<Rightarrow> fate list \<Rightarrow> 's client \<Rightarrow> 's server \<Rightarrow> ('s client \<times> 's server) res" where
  "run_rpc w blank req [] c s = Inr (c, s)"
| "run_rpc w blank req (f # fs) c s =
     (case outstanding c of
        [] \<Rightarrow> Inr (c, s)
      | tag # tags \<Rightarrow>
          bind_res (attempt w blank req f s) (\<lambda>((st, reply), s').
          bind_res (deliver True tag st reply c) (\<lambda>c'. run_rpc w blank req fs c' s')))"

section \<open>What an attempt does\<close>

text \<open>The outcome that the client sees, and how often the server has executed the request.\<close>

definition outcome_of :: "('q \<Rightarrow> status \<times> 's) \<Rightarrow> 's \<Rightarrow> 'q \<Rightarrow> fate \<Rightarrow> status \<times> 's" where
  "outcome_of w blank req f =
     (case f of Answered \<Rightarrow> if fst (w req) = OK then w req else (fst (w req), blank)
      | Unreached m \<Rightarrow> (Failed m, blank) | Reply_lost m \<Rightarrow> (Failed m, blank))"

definition reaches :: "fate \<Rightarrow> bool" where
  "reaches f = (case f of Unreached m \<Rightarrow> False | _ \<Rightarrow> True)"

text \<open>The attempts that a call with \<open>n\<close> retries makes: up to the first success.\<close>

primrec attempts_made :: "('q \<Rightarrow> status \<times> 's) \<Rightarrow> 'q \<Rightarrow> nat \<Rightarrow> fate list \<Rightarrow> fate list" where
  "attempts_made w req n [] = []"
| "attempts_made w req n (f # fs) =
     f # (if f = Answered \<and> fst (w req) = OK \<or> n = 0 then [] else attempts_made w req (n - 1) fs)"

lemma attempts_made_le: "length (attempts_made w req n fs) \<le> n + 1"
proof (induction fs arbitrary: n)
  case (Cons f fs)
  from Cons [of "n - 1"] show ?case by (cases n) auto
qed simp

lemma outcome_final: "fst (outcome_of w blank req f) = OK \<longleftrightarrow> f = Answered \<and> fst (w req) = OK"
  by (cases f) (auto simp: outcome_of_def)

lemma server_answers_ok:
  assumes ok: "server_ok reqs w s"
  shows "\<exists>s'. server_answers w req s = Inr (response_of (w req), s') \<and> server_ok (reqs @ [req]) w s'"
proof -
  from ok obtain tag where tag: "listening s = [tag]" "tag \<notin> fst ` set (responses s)"
    by (auto simp: server_ok_def)
  from server_ok_arrive [OF ok, of tag req] tag obtain s1 where
    s1: "serve_call w tag req (s\<lparr>listening := []\<rparr>) = Inr s1" "server_ok (reqs @ [req]) w s1" by auto
  from ok tag have "tag < length (calls s)" "calls s ! tag = Some False" by (auto simp: server_ok_def)
  with s1(1) have last: "sending s1 = sending s @ [tag]" "last (responses s1) = (tag, response_of (w req))"
    by (auto simp: serve_call_def new_call_def respond_def response_of_def Let_def split: prod.splits if_splits)
  from server_ok_sent [OF s1(2), of tag req] last(1) obtain s2 where
    s2: "serve_call w tag req (s1\<lparr>sending := remove1 tag (sending s1)\<rparr>) = Inr s2" "server_ok (reqs @ [req]) w s2"
    by auto
  with tag(1) s1(1) last(2) show ?thesis by (simp add: server_answers_def)
qed

lemma attempt_ok:
  assumes "server_ok reqs w s"
  shows "\<exists>s'. attempt w blank req f s = Inr (outcome_of w blank req f, s') \<and>
    server_ok (reqs @ replicate (if reaches f then 1 else 0) req) w s'"
  using server_answers_ok [OF assms, of req] assms
  by (cases f) (auto simp: attempt_def outcome_of_def reaches_def received_def response_of_def split: prod.split)

lemma run_rpc_idle: "outstanding c = [] \<Longrightarrow> run_rpc w blank req fs c s = Inr (c, s)"
  by (cases fs) simp_all

text \<open>
  A call in flight: the client ends as if it had been given the outcomes, and the server has
  executed the request once for each attempt made that reached it.
\<close>

lemma run_rpc_correct:
  assumes "outstanding c = [tag]" "tag < length (handlers c)"
    and "handlers c ! tag = Some \<lparr>complete_promise = Some p, nretries = n\<rparr>"
    and "p < length (promised c)" "promised c ! p = None" and "server_ok reqs w s"
  shows "\<exists>c' s'. run_rpc w blank req fs c s = Inr (c', s') \<and>
    run_call True (map (outcome_of w blank req) fs) c = Inr c' \<and>
    server_ok (reqs @ replicate (length (filter reaches (attempts_made w req n fs))) req) w s'"
  using assms
proof (induction fs arbitrary: c tag n reqs s)
  case (Cons f fs)
  obtain st reply where o: "outcome_of w blank req f = (st, reply)" by (cases "outcome_of w blank req f")
  let ?k = "if reaches f then 1 else 0 :: nat"
  from attempt_ok [OF Cons.prems(6), of blank req f] o obtain s1 where
    s1: "attempt w blank req f s = Inr ((st, reply), s1)" "server_ok (reqs @ replicate ?k req) w s1" by auto
  note final_iff = outcome_final [of w blank req f, unfolded o, simplified]
  from Cons.prems(1-5) show ?case
  proof (cases rule: deliver_single [where st = st and reply = reply, case_names retry final])
    case (retry c')
    from Cons.IH [OF retry(4) _ _ _ _ s1(2), of "n - 1"] retry Cons.prems obtain c'' s' where
      "run_rpc w blank req fs c' s1 = Inr (c'', s')"
      "run_call True (map (outcome_of w blank req) fs) c' = Inr c''"
      "server_ok ((reqs @ replicate ?k req) @
        replicate (length (filter reaches (attempts_made w req (n - 1) fs))) req) w s'" by auto
    then show ?thesis using retry Cons.prems(1) s1(1) o final_iff by (auto simp: replicate_append_same)
  next
    case (final c')
    then show ?thesis
      using Cons.prems(1) s1 o final_iff by (auto simp: run_call_idle run_rpc_idle)
  qed
qed auto

section \<open>Properties\<close>

text \<open>
  C15. From end to end: a call with \<open>n\<close> retries to a server that is waiting ends; its promise
  and its callback get the first answer with status OK, or the error of attempt \<open>n + 1\<close>;
  \<open>wait_for\<close> returns with that error if the attempts lead to one; and the server has executed
  the request once for each of the at most \<open>n + 1\<close> attempts made that reached it, also for
  those whose answer was an error or was lost.
\<close>

theorem unary_end_to_end:
  assumes "server_reach write_call reqs (Inr s)" and "\<exists>t. length fates \<le> sched t"
  shows "\<exists>c' s' k. run_rpc write_call blank req fates (start_call n no_calls) s = Inr (c', s') \<and>
    promised c' = [map_option fst (call_result n (map (outcome_of write_call blank req) fates))] \<and>
    callbacks (events c') =
      (case call_result n (map (outcome_of write_call blank req) fates) of None \<Rightarrow> [] | Some r \<Rightarrow> snd r) \<and>
    wait_for (promise_of unary_deliver unary_outcome sched (map (outcome_of write_call blank req) fates)
        (start_call n no_calls)) True =
      (case call_result n (map (outcome_of write_call blank req) fates) of None \<Rightarrow> None
       | Some (e, _) \<Rightarrow> returns (if e \<noteq> None then [e] else [])) \<and>
    map snd (responses s') = map snd (responses s) @ replicate k (response_of (write_call req)) \<and>
    k = length (filter reaches (attempts_made write_call req n fates)) \<and> k \<le> n + 1"
proof -
  let ?os = "map (outcome_of write_call blank req) fates" and ?c = "start_call n (no_calls :: 'b client)"
  let ?k = "length (filter reaches (attempts_made write_call req n fates))"
  from server_reach_ok [OF assms(1)] have ok: "server_ok reqs write_call s" by simp
  have c: "outstanding ?c = [0]" "0 < length (handlers ?c)"
    "handlers ?c ! 0 = Some \<lparr>complete_promise = Some 0, nretries = n\<rparr>" "0 < length (promised ?c)" "promised ?c ! 0 = None"
    "promised ?c = [None]" "callbacks (events ?c) = []"
    by (simp_all add: start_call_def new_handler_def no_calls_def Let_def)
  from run_rpc_correct [OF c(1-5) ok, of blank req fates] obtain c' s' where
    run: "run_rpc write_call blank req fates ?c s = Inr (c', s')" "run_call True ?os ?c = Inr c'"
      "server_ok (reqs @ replicate ?k req) write_call s'" by blast
  from run_call_correct [OF c(1-5), of ?os] run(2) c(6,7)
  have client: "promised c' = [map_option fst (call_result n ?os)]"
    "callbacks (events c') = (case call_result n ?os of None \<Rightarrow> [] | Some r \<Rightarrow> snd r)" by auto
  have "outcome_after unary_deliver unary_outcome ?os ?c = map_option fst (call_result n ?os)"
    using run(2) client(1) by (simp add: outcome_after_def run_deliveries_unary unary_outcome_def)
  moreover have "\<exists>t. length ?os \<le> sched t" using assms(2) by simp
  ultimately have "wait_for (promise_of unary_deliver unary_outcome sched ?os ?c) True =
      (case call_result n ?os of None \<Rightarrow> None | Some (e, _) \<Rightarrow> returns (if e \<noteq> None then [e] else []))"
    using uh.wait_for_outcome [OF client_ok_start_call [OF client_ok_start], of ?os sched n True]
    by (auto split: option.split)
  moreover have "map snd (responses s') = map snd (responses s) @ replicate ?k (response_of (write_call req))"
    using ok run(3) by (simp add: server_ok_def)
  moreover have "?k \<le> n + 1"
    using attempts_made_le [of write_call req n fates] length_filter_le [of reaches] le_trans by blast
  ultimately show ?thesis using run(1) client by blast
qed

text \<open>A request that the application refuses is executed again for every retry, six times by default.\<close>

lemma refused_request_repeated:
  assumes "write_call req = (Failed m, reply)"
  shows "length (filter reaches (attempts_made write_call req n (replicate (n + 1) Answered))) = n + 1"
proof (induction n)
  case (Suc n)
  then show ?case using assms by (simp add: reaches_def)
qed (simp add: reaches_def)

theorem unary_end_to_end_witness:
  "\<exists>c' s'. run_rpc (\<lambda>q. (OK, q + 1)) 0 41 [Unreached ''down'', Reply_lost ''late'', Answered] (start_call 5 no_calls)
      server_start = Inr (c', s') \<and>
    promised c' = [Some None] \<and> callbacks (events c') = [42] \<and>
    map snd (responses s') = [Finish (42 :: nat) OK, Finish 42 OK]"
proof -
  have "server_reach (\<lambda>q :: nat. (OK, q + 1)) [] (Inr server_start)" by (rule server_reach.Begin)
  moreover have "\<exists>t. length [Unreached ''down'', Reply_lost ''late'', Answered] \<le> id t"
    by (intro exI [of _ 3]) simp
  ultimately obtain c' s' k where
    "run_rpc (\<lambda>q :: nat. (OK, q + 1)) 0 41 [Unreached ''down'', Reply_lost ''late'', Answered] (start_call 5 no_calls)
      server_start = Inr (c', s')"
    "promised c' = [map_option fst (call_result 5 (map (outcome_of (\<lambda>q. (OK, q + 1)) 0 (41 :: nat))
        [Unreached ''down'', Reply_lost ''late'', Answered]))]"
    "callbacks (events c') = (case call_result 5 (map (outcome_of (\<lambda>q. (OK, q + 1)) 0 (41 :: nat))
        [Unreached ''down'', Reply_lost ''late'', Answered]) of None \<Rightarrow> [] | Some r \<Rightarrow> snd r)"
    "map snd (responses s') = map snd (responses server_start) @ replicate k (response_of ((\<lambda>q. (OK, q + 1)) 41))"
    "k = length (filter reaches (attempts_made (\<lambda>q. (OK, q + 1)) (41 :: nat) 5
        [Unreached ''down'', Reply_lost ''late'', Answered]))"
    using unary_end_to_end [of "\<lambda>q. (OK, q + 1)" "[]" server_start "[Unreached ''down'', Reply_lost ''late'', Answered]" id
        0 41 5] by blast
  then show ?thesis
    by (intro exI [of _ c'] exI [of _ s'])
      (simp add: outcome_of_def reaches_def response_of_def server_start_def new_call_def numeral_2_eq_2)
qed

end
