(* ===== verification/Stream_Calls.thy ===== *)
theory Stream_Calls
  imports Stream_Server Step_Systems
begin

text \<open>
  Many streaming calls of \<open>cppkg/egrpc/server_async_stream.h\<close> on one completion queue: every
  call that is served for the first time creates the call for the next request, and the queue
  hands back the tags of the calls in any order.
\<close>

section \<open>The calls on a queue\<close>

definition serve_at ::
  "('q \<Rightarrow> status \<times> 'e list) \<Rightarrow> ('q \<Rightarrow> 'e list \<Rightarrow> nat \<Rightarrow> 'r \<Rightarrow> bool \<times> nat \<times> 'r) \<Rightarrow> 'r \<Rightarrow> 'q \<Rightarrow> nat
     \<Rightarrow> ('e, 'r) scall list \<Rightarrow> ('e, 'r) scall list run" where
  "serve_at ic wc blank req i cs =
     bind_run (sserve ic wc blank req ((cs ! i)\<lparr>pending := tl (pending (cs ! i))\<rparr>)) (\<lambda>s'.
     returns (cs[i := s'] @ replicate (successors s' - successors (cs ! i)) new_scall))"

definition calls_step ::
  "('q \<Rightarrow> status \<times> 'e list) \<Rightarrow> ('q \<Rightarrow> 'e list \<Rightarrow> nat \<Rightarrow> 'r \<Rightarrow> bool \<times> nat \<times> 'r) \<Rightarrow> 'r
     \<Rightarrow> ('e, 'r) scall list run \<Rightarrow> ('e, 'r) scall list run \<Rightarrow> bool" where
  "calls_step ic wc blank r r' \<longleftrightarrow>
     (\<exists>cs i req. r = returns cs \<and> i < length cs \<and> pending (cs ! i) \<noteq> [] \<and> r' = serve_at ic wc blank req i cs)"

text \<open>
  What \<open>write_call\<close> may do with the iterator it gets: move it forward, but not to the end.
\<close>

definition steady :: "('q \<Rightarrow> 'e list \<Rightarrow> nat \<Rightarrow> 'r \<Rightarrow> bool \<times> nat \<times> 'r) \<Rightarrow> bool" where
  "steady wc \<longleftrightarrow> (\<forall>req rng i r. i < length rng \<longrightarrow> i \<le> fst (snd (wc req rng i r)) \<and> fst (snd (wc req rng i r)) < length rng)"

lemma write_loop_steady:
  assumes "steady wc" and "i \<le> length rng"
  shows "\<exists>wrote i' r'. write_loop (wc req rng) (length rng) i r = returns (wrote, i', r') \<and> i' \<le> length rng \<and>
    (wrote \<or> i' = length rng)"
  using assms(2)
proof (induction "length rng - i" arbitrary: i r rule: less_induct)
  case less
  show ?case
  proof (cases "i = length rng")
    case True
    then show ?thesis by (intro exI [of _ False] exI [of _ i] exI [of _ r]) (simp add: write_loop.simps)
  next
    case False
    then have i: "i < length rng" using less(2) by simp
    obtain wrote i' r' where wc: "wc req rng i r = (wrote, i', r')" by (cases "wc req rng i r") auto
    have i': "i \<le> i'" "i' < length rng" using assms(1) i wc unfolding steady_def by (metis fst_conv snd_conv)+
    show ?thesis
    proof (cases wrote)
      case True
      with wc i i' have "write_loop (wc req rng) (length rng) i r = returns (True, Suc i', r')"
        by (subst write_loop.simps) simp
      with i'(2) show ?thesis by auto
    next
      case False
      have "\<exists>wrote i1 r1. write_loop (wc req rng) (length rng) (Suc i') r' = returns (wrote, i1, r1) \<and>
          i1 \<le> length rng \<and> (wrote \<or> i1 = length rng)"
        using i' i by (intro less(1)) simp_all
      with False wc i i' show ?thesis by (subst write_loop.simps) simp
    qed
  qed
qed

section \<open>The invariant\<close>

definition scall_ok :: "('e, 'r) scall \<Rightarrow> bool" where
  "scall_ok s \<longleftrightarrow> (if salive s then length (pending s) = 1 else pending s = [] \<and> sstatus s = FINISH) \<and>
     (sstatus s = PROCESS \<longrightarrow> it s \<le> length (ranges s)) \<and> length (finished s) = (if sstatus s = FINISH then 1 else 0) \<and>
     successors s = (if sstatus s = STARTUP then 0 else 1)"

definition calls_ok :: "('e, 'r) scall list run \<Rightarrow> bool" where
  "calls_ok r \<longleftrightarrow> (\<exists>cs. r = returns cs \<and> (\<forall>s \<in> set cs. scall_ok s) \<and>
     length (filter (\<lambda>s. sstatus s = STARTUP) cs) = 1)"

lemma scall_ok_life:
  assumes "scall_ok s"
  shows "(if salive s then length (pending s) = 1 else pending s = [] \<and> length (finished s) = 1) \<and>
    length (finished s) \<le> 1"
  using assms by (auto simp: scall_ok_def)

lemma scall_ok_new: "scall_ok new_scall"
  by (simp add: scall_ok_def new_scall_def)

lemma process_ok:
  assumes "steady wc" and "it s \<le> length (ranges s)" and "salive s" "pending s = []" "finished s = []" "successors s = 1"
  shows "\<exists>s'. process wc blank req s = returns s' \<and> scall_ok s' \<and> sstatus s' \<noteq> STARTUP"
proof -
  from write_loop_steady [OF assms(1,2)] obtain wrote i r where
    loop: "write_loop (wc req (ranges s)) (length (ranges s)) (it s) blank = returns (wrote, i, r)"
    "i \<le> length (ranges s)" "wrote \<or> i = length (ranges s)" by blast
  with assms(3-) show ?thesis
    by (cases wrote) (simp_all add: process_def scall_ok_def write_reply_def finish_def Let_def)
qed

lemma sserve_ok:
  assumes "steady wc" and ok: "scall_ok s" and "pending s \<noteq> []"
  shows "\<exists>s'. sserve ic wc blank req (s\<lparr>pending := tl (pending s)\<rparr>) = returns s' \<and> scall_ok s' \<and>
    sstatus s' \<noteq> STARTUP \<and> successors s' = 1"
proof -
  from ok assms(3) have s: "salive s" "tl (pending s) = []" "sstatus s = PROCESS \<Longrightarrow> it s \<le> length (ranges s)"
    "length (finished s) = (if sstatus s = FINISH then 1 else 0)" "successors s = (if sstatus s = STARTUP then 0 else 1)"
    by (cases "pending s"; auto simp: scall_ok_def split: if_splits)+
  have "\<exists>s'. sserve ic wc blank req (s\<lparr>pending := tl (pending s)\<rparr>) = returns s' \<and> scall_ok s' \<and> sstatus s' \<noteq> STARTUP"
  proof (cases "sstatus s")
    case STARTUP
    obtain st rng where init: "ic req = (st, rng)" by (cases "ic req") auto
    show ?thesis
    proof (cases "st = OK")
      case True
      have "\<exists>s'. process wc blank req (s\<lparr>pending := [], successors := 1, ranges := rng, it := 0\<rparr>) = returns s' \<and>
          scall_ok s' \<and> sstatus s' \<noteq> STARTUP"
        using s STARTUP by (intro process_ok [OF assms(1)]) simp_all
      with True s STARTUP init show ?thesis by (simp add: sserve_def)
    next
      case False
      with s STARTUP init show ?thesis by (simp add: sserve_def finish_def scall_ok_def)
    qed
  next
    case PROCESS
    have "\<exists>s'. process wc blank req (s\<lparr>pending := []\<rparr>) = returns s' \<and> scall_ok s' \<and> sstatus s' \<noteq> STARTUP"
      using s PROCESS by (intro process_ok [OF assms(1)]) simp_all
    with s PROCESS show ?thesis by (simp add: sserve_def)
  next
    case FINISH
    with s show ?thesis by (simp add: sserve_def sshutdown_def scall_ok_def)
  qed
  then obtain s' where "sserve ic wc blank req (s\<lparr>pending := tl (pending s)\<rparr>) = returns s'" "scall_ok s'"
    "sstatus s' \<noteq> STARTUP" by blast
  moreover from this(2,3) have "successors s' = 1" by (simp add: scall_ok_def)
  ultimately show ?thesis by blast
qed

lemma filter_update:
  "i < length xs \<Longrightarrow> \<not> P y \<Longrightarrow> length (filter P (xs[i := y])) + (if P (xs ! i) then 1 else 0) = length (filter P xs)"
proof (induction xs arbitrary: i)
  case (Cons x xs)
  then show ?case by (cases i) auto
qed simp

lemma serve_at_ok:
  assumes "steady wc" and ok: "calls_ok (returns cs)" and i: "i < length cs" "pending (cs ! i) \<noteq> []"
  shows "calls_ok (serve_at ic wc blank req i cs)"
proof -
  from ok i(1) have s: "scall_ok (cs ! i)" by (simp add: calls_ok_def)
  from sserve_ok [OF assms(1) s i(2)] obtain s' where
    s': "sserve ic wc blank req ((cs ! i)\<lparr>pending := tl (pending (cs ! i))\<rparr>) = returns s'" "scall_ok s'"
    "sstatus s' \<noteq> STARTUP" "successors s' = 1" by blast
  let ?new = "if sstatus (cs ! i) = STARTUP then [new_scall] else []"
  have eq: "serve_at ic wc blank req i cs = returns (cs[i := s'] @ ?new)"
    using s s' by (simp add: serve_at_def scall_ok_def)
  have "\<forall>t \<in> set (cs[i := s'] @ ?new). scall_ok t"
    using ok s'(2) scall_ok_new set_update_subset_insert [of cs i s'] by (auto simp: calls_ok_def split: if_splits)
  moreover have "length (filter (\<lambda>s. sstatus s = STARTUP) (cs[i := s'] @ ?new)) = 1"
    using ok i(1) s'(3) filter_update [of i cs "\<lambda>s. sstatus s = STARTUP" s']
    by (auto simp: calls_ok_def new_scall_def)
  ultimately show ?thesis unfolding eq calls_ok_def by blast
qed

interpretation sc: safe_system "returns [new_scall]" "calls_step ic wc blank" "\<lambda>r. steady wc \<longrightarrow> calls_ok r"
  for ic :: "'q \<Rightarrow> status \<times> 'e list" and wc and blank :: 'r
proof
  show "steady wc \<longrightarrow> calls_ok (returns [new_scall])"
    by (simp add: calls_ok_def scall_ok_def new_scall_def)
next
  fix r r' :: "('e, 'r) scall list run"
  assume ok: "steady wc \<longrightarrow> calls_ok r" and step: "calls_step ic wc blank r r'"
  show "steady wc \<longrightarrow> calls_ok r'"
  proof
    assume steady: "steady wc"
    from step obtain cs i req where cs: "r = returns cs" "i < length cs" "pending (cs ! i) \<noteq> []"
      "r' = serve_at ic wc blank req i cs" by (auto simp: calls_step_def)
    from ok steady cs(1) have "calls_ok (returns cs)" by simp
    from serve_at_ok [OF steady this cs(2,3)] show "calls_ok r'" by (simp add: cs(4))
  qed
qed

section \<open>Properties\<close>

text \<open>
  However the queue hands back the tags of the streaming calls, as long as \<open>write_call\<close>
  moves its iterator only forward: every \<open>serve\<close> returns and none is on a deleted call; exactly
  one call waits for the next request; a call has one operation outstanding until it is
  deleted, and by then it has finished, exactly once.
\<close>

lemma stream_calls_safe:
  fixes r :: "('e, 'r) scall list run"
  assumes "steady write_call" and "rtranclp (calls_step init_call write_call blank) (returns [new_scall]) r"
  shows "\<exists>cs. r = returns cs \<and> length (filter (\<lambda>s. sstatus s = STARTUP) cs) = 1 \<and>
    (\<forall>s \<in> set cs. (if salive s then length (pending s) = 1 else pending s = [] \<and> length (finished s) = 1) \<and>
      length (finished s) \<le> 1)"
proof -
  from sc.safe [OF assms(2)] assms(1) obtain cs where "r = returns cs" "\<forall>s \<in> set cs. scall_ok s"
    "length (filter (\<lambda>s. sstatus s = STARTUP) cs) = 1" by (auto simp: calls_ok_def)
  with scall_ok_life show ?thesis by blast
qed

end
