(* ===== verification/Server_Queue.thy ===== *)
theory Server_Queue
  imports Stream_Calls
begin

text \<open>
  The interface \<open>iServerCall\<close> of \<open>cppkg/egrpc/iserver_async.h\<close>: a loop around a completion queue
  calls \<open>serve\<close> on whatever object the tag is. Both kinds of calls implement it, and calls of
  several services, unary or streaming, can share one queue.
\<close>

section \<open>The loop\<close>

text \<open>
  The events are the tags the queue hands back, with the request that gRPC has stored in the
  call; a tag with no operation outstanding is not handed back.
\<close>

primrec serve_events ::
  "('t \<Rightarrow> 'q \<Rightarrow> 's \<Rightarrow> 's run) \<Rightarrow> ('s \<Rightarrow> 't set) \<Rightarrow> ('t \<times> 'q) list \<Rightarrow> 's \<Rightarrow> 's run" where
  "serve_events serve out [] s = returns s"
| "serve_events serve out (ev # evs) s =
     (if fst ev \<in> out s
      then case serve (fst ev) (snd ev) s of
             None \<Rightarrow> None
           | Some (Inl e) \<Rightarrow> fails e
           | Some (Inr s') \<Rightarrow> serve_events serve out evs s'
      else serve_events serve out evs s)"

section \<open>The contract\<close>

text \<open>
  What the loop relies on: \<open>serve\<close> of an object with an operation outstanding returns and keeps
  the invariant, and as many objects as there are services wait for a request.
\<close>

locale server_call =
  fixes serve :: "'t \<Rightarrow> 'q \<Rightarrow> 's \<Rightarrow> 's run" and out :: "'s \<Rightarrow> 't set" and waiting :: "'s \<Rightarrow> 't set"
    and ok :: "'s \<Rightarrow> bool" and services :: nat
  assumes serve_ok: "ok s \<Longrightarrow> t \<in> out s \<Longrightarrow> \<exists>s'. serve t req s = returns s' \<and> ok s'"
    and waits: "ok s \<Longrightarrow> waiting s \<subseteq> out s \<and> finite (waiting s) \<and> card (waiting s) = services"
begin

lemma events_ok: "ok s \<Longrightarrow> \<exists>s'. serve_events serve out evs s = returns s' \<and> ok s'"
proof (induction evs arbitrary: s)
  case (Cons ev evs)
  show ?case
  proof (cases "fst ev \<in> out s")
    case True
    from serve_ok [OF Cons.prems True, of "snd ev"] obtain s' where
      "serve (fst ev) (snd ev) s = returns s'" "ok s'" by blast
    with True Cons.IH show ?thesis by simp
  qed (use Cons in simp)
qed simp

lemma waits_after:
  assumes "ok s" and "serve_events serve out evs s = returns s'"
  shows "waiting s' \<subseteq> out s' \<and> card (waiting s') = services"
  using events_ok [OF assms(1), of evs] assms(2) waits by auto

end

section \<open>Services that share a queue\<close>

text \<open>The tag is an object of the one service or of the other, and \<open>serve\<close> is virtual.\<close>

definition serve_either ::
  "('t \<Rightarrow> 'q \<Rightarrow> 's \<Rightarrow> 's run) \<Rightarrow> ('u \<Rightarrow> 'p \<Rightarrow> 'r \<Rightarrow> 'r run) \<Rightarrow> 't + 'u \<Rightarrow> 'q \<times> 'p \<Rightarrow> 's \<times> 'r \<Rightarrow> ('s \<times> 'r) run" where
  "serve_either f g tag req s =
     (case tag of
        Inl t \<Rightarrow> bind_run (f t (fst req) (fst s)) (\<lambda>x. returns (x, snd s))
      | Inr u \<Rightarrow> bind_run (g u (snd req) (snd s)) (\<lambda>y. returns (fst s, y)))"

definition out_either :: "('s \<Rightarrow> 't set) \<Rightarrow> ('r \<Rightarrow> 'u set) \<Rightarrow> 's \<times> 'r \<Rightarrow> ('t + 'u) set" where
  "out_either f g s = f (fst s) <+> g (snd s)"

lemma either_simps [simp]:
  "Inl t \<in> out_either f g (s, r) \<longleftrightarrow> t \<in> f s" "Inr u \<in> out_either f g (s, r) \<longleftrightarrow> u \<in> g r"
  "serve_either h k (Inl t) req (s, r) = bind_run (h t (fst req) s) (\<lambda>x. returns (x, r))"
  "serve_either h k (Inr u) req (s, r) = bind_run (k u (snd req) r) (\<lambda>y. returns (s, y))"
  by (auto simp: out_either_def serve_either_def)

fun events_left :: "(('t + 'u) \<times> 'q \<times> 'p) list \<Rightarrow> ('t \<times> 'q) list" where
  "events_left [] = []"
| "events_left ((Inl t, q, p) # evs) = (t, q) # events_left evs"
| "events_left ((Inr u, q, p) # evs) = events_left evs"

fun events_right :: "(('t + 'u) \<times> 'q \<times> 'p) list \<Rightarrow> ('u \<times> 'p) list" where
  "events_right [] = []"
| "events_right ((Inl t, q, p) # evs) = events_right evs"
| "events_right ((Inr u, q, p) # evs) = (u, p) # events_right evs"

locale two_services =
  one: server_call serve1 out1 waiting1 ok1 n1 + two: server_call serve2 out2 waiting2 ok2 n2
  for serve1 :: "'t \<Rightarrow> 'q \<Rightarrow> 's \<Rightarrow> 's run" and out1 waiting1 ok1 n1
    and serve2 :: "'u \<Rightarrow> 'p \<Rightarrow> 'r \<Rightarrow> 'r run" and out2 waiting2 ok2 n2

sublocale two_services \<subseteq> both: server_call "serve_either serve1 serve2" "out_either out1 out2"
  "out_either waiting1 waiting2" "\<lambda>s. ok1 (fst s) \<and> ok2 (snd s)" "n1 + n2"
proof
  fix s t req
  assume "ok1 (fst s) \<and> ok2 (snd s)" and "t \<in> out_either out1 out2 s"
  then show "\<exists>s'. serve_either serve1 serve2 t req s = returns s' \<and> ok1 (fst s') \<and> ok2 (snd s')"
    using one.serve_ok [of "fst s" _ "fst req"] two.serve_ok [of "snd s" _ "snd req"]
    by (cases t) (fastforce simp: serve_either_def out_either_def)+
next
  fix s
  assume "ok1 (fst s) \<and> ok2 (snd s)"
  then show "out_either waiting1 waiting2 s \<subseteq> out_either out1 out2 s \<and> finite (out_either waiting1 waiting2 s) \<and>
      card (out_either waiting1 waiting2 s) = n1 + n2"
    using one.waits [of "fst s"] two.waits [of "snd s"] by (auto simp: out_either_def card_Plus)
qed

context two_services
begin

text \<open>Neither service sees that the other is there.\<close>

lemma separate:
  "ok1 s \<Longrightarrow> ok2 r \<Longrightarrow> \<exists>s' r'. serve_events (serve_either serve1 serve2) (out_either out1 out2) evs (s, r) = returns (s', r') \<and>
     serve_events serve1 out1 (events_left evs) s = returns s' \<and> serve_events serve2 out2 (events_right evs) r = returns r'"
proof (induction evs arbitrary: s r rule: events_left.induct)
  case (2 t q p evs)
  show ?case
  proof (cases "t \<in> out1 s")
    case True
    from one.serve_ok [OF 2(2) True, of q] obtain x where x: "serve1 t q s = returns x" "ok1 x" by blast
    from 2(1) [OF x(2) 2(3)] True x(1) show ?thesis by simp
  next
    case False
    from 2(1) [OF 2(2,3)] False show ?thesis by simp
  qed
next
  case (3 u q p evs)
  show ?case
  proof (cases "u \<in> out2 r")
    case True
    from two.serve_ok [OF 3(3) True, of p] obtain y where y: "serve2 u p r = returns y" "ok2 y" by blast
    from 3(1) [OF 3(2) y(2)] True y(1) show ?thesis by simp
  next
    case False
    from 3(1) [OF 3(2,3)] False show ?thesis by simp
  qed
qed simp

end

section \<open>Both kinds of calls\<close>

definition unary_out :: "'s server \<Rightarrow> nat set" where
  "unary_out s = set (listening s) \<union> set (sending s)"

definition unary_event :: "('q \<Rightarrow> status \<times> 's) \<Rightarrow> nat \<Rightarrow> 'q \<Rightarrow> 's server \<Rightarrow> 's server run" where
  "unary_event w tag req s =
     Some (serve_call w tag req
       (if tag \<in> set (listening s) then s\<lparr>listening := remove1 tag (listening s)\<rparr>
        else s\<lparr>sending := remove1 tag (sending s)\<rparr>))"

definition stream_out :: "('e, 'r) scall list \<Rightarrow> nat set" where
  "stream_out cs = {i. i < length cs \<and> pending (cs ! i) \<noteq> []}"

definition stream_waiting :: "('e, 'r) scall list \<Rightarrow> nat set" where
  "stream_waiting cs = {i. i < length cs \<and> sstatus (cs ! i) = STARTUP}"

abbreviation stream_event ::
  "('q \<Rightarrow> status \<times> 'e list) \<Rightarrow> ('q \<Rightarrow> 'e list \<Rightarrow> nat \<Rightarrow> 'r \<Rightarrow> bool \<times> nat \<times> 'r) \<Rightarrow> 'r \<Rightarrow> nat \<Rightarrow> 'q
     \<Rightarrow> ('e, 'r) scall list \<Rightarrow> ('e, 'r) scall list run" where
  "stream_event ic wc blank i req \<equiv> serve_at ic wc blank req i"

interpretation unary: server_call "unary_event w" unary_out "\<lambda>s. set (listening s)" "\<lambda>s. \<exists>reqs. server_ok reqs w s" 1
  for w :: "'q \<Rightarrow> status \<times> 's"
proof
  fix s :: "'s server" and t req
  assume ok: "\<exists>reqs. server_ok reqs w s" and out: "t \<in> unary_out s"
  show "\<exists>s'. unary_event w t req s = returns s' \<and> (\<exists>reqs. server_ok reqs w s')"
  proof (cases "t \<in> set (listening s)")
    case True
    with ok server_ok_arrive [of _ w s t req] show ?thesis by (fastforce simp: unary_event_def)
  next
    case False
    with ok out server_ok_sent [of _ w s t req] show ?thesis by (fastforce simp: unary_event_def unary_out_def)
  qed
next
  fix s :: "'s server"
  assume "\<exists>reqs. server_ok reqs w s"
  then show "set (listening s) \<subseteq> unary_out s \<and> finite (set (listening s)) \<and> card (set (listening s)) = 1"
    by (auto simp: unary_out_def server_ok_def)
qed

interpretation streams: server_call "stream_event ic wc blank" stream_out stream_waiting
  "\<lambda>cs. steady wc \<and> calls_ok (returns cs)" 1
  for ic :: "'q \<Rightarrow> status \<times> 'e list" and wc and blank :: 'r
proof
  fix cs :: "('e, 'r) scall list" and i req
  assume ok: "steady wc \<and> calls_ok (returns cs)" and i: "i \<in> stream_out cs"
  from i have "i < length cs" "pending (cs ! i) \<noteq> []" by (simp_all add: stream_out_def)
  with ok serve_at_ok [of wc cs i ic blank req] have "calls_ok (serve_at ic wc blank req i cs)" by blast
  with ok show "\<exists>s'. serve_at ic wc blank req i cs = returns s' \<and> steady wc \<and> calls_ok (returns s')"
    by (auto simp: calls_ok_def)
next
  fix cs :: "('e, 'r) scall list"
  assume "steady wc \<and> calls_ok (returns cs)"
  then have ok: "\<forall>s \<in> set cs. scall_ok s" "length (filter (\<lambda>s. sstatus s = STARTUP) cs) = 1"
    by (simp_all add: calls_ok_def)
  have "pending s \<noteq> []" if "s \<in> set cs" "sstatus s = STARTUP" for s
    using ok(1) that by (auto simp: scall_ok_def split: if_splits)
  then have "stream_waiting cs \<subseteq> stream_out cs" by (auto simp: stream_waiting_def stream_out_def)
  moreover have "card (stream_waiting cs) = 1"
    using ok(2) by (simp add: stream_waiting_def length_filter_conv_card)
  ultimately show "stream_waiting cs \<subseteq> stream_out cs \<and> finite (stream_waiting cs) \<and> card (stream_waiting cs) = 1"
    by (simp add: stream_waiting_def)
qed

interpretation shared: two_services "unary_event w" unary_out "\<lambda>s. set (listening s)" "\<lambda>s. \<exists>reqs. server_ok reqs w s" 1
  "stream_event ic wc blank" stream_out stream_waiting "\<lambda>cs. steady wc \<and> calls_ok (returns cs)" 1
  for w :: "'q \<Rightarrow> status \<times> 's" and ic :: "'p \<Rightarrow> status \<times> 'e list" and wc and blank :: 'r ..

section \<open>The requests that arrive\<close>

text \<open>
  Calls are numbered in the order they are made, and the call \<open>k\<close> waits until the \<open>k\<close>-th request
  arrives: that is the first event with its tag. \<open>arrivals k evs\<close> are the requests that arrive
  when the call \<open>k\<close> waits first.
\<close>

fun arrivals :: "nat \<Rightarrow> (nat \<times> 'q) list \<Rightarrow> 'q list" where
  "arrivals k [] = []"
| "arrivals k ((t, q) # evs) = (if t = k then q # arrivals (Suc k) evs else arrivals k evs)"

definition numbered :: "'q list \<Rightarrow> 's server \<Rightarrow> bool" where
  "numbered reqs s \<longleftrightarrow> length (calls s) = Suc (length reqs) \<and> listening s = [length reqs] \<and>
     map fst (responses s) = [0..<length reqs]"

lemma numbered_arrive:
  assumes "numbered reqs s" and "server_ok reqs w s" and "unary_event w (length reqs) q s = returns s'"
  shows "numbered (reqs @ [q]) s'"
proof -
  from assms(1,2) have "calls s ! length reqs = Some False" by (auto simp: numbered_def server_ok_def)
  with assms(1,3) show ?thesis
    by (auto simp: numbered_def unary_event_def serve_call_def new_call_def respond_def Let_def)
qed

lemma numbered_sent:
  assumes "numbered reqs s" and "t \<noteq> length reqs" and "server_ok reqs w s" and "t \<in> unary_out s"
    and "unary_event w t q s = returns s'"
  shows "numbered reqs s'"
proof -
  have t: "t \<in> set (sending s)" using assms(1,2,4) by (simp add: numbered_def unary_out_def)
  with assms(3) have "t < length (calls s)" "calls s ! t = Some True" by (auto simp: server_ok_def)
  with assms(1,2,5) show ?thesis
    by (auto simp: numbered_def unary_event_def serve_call_def shutdown_call_def split: if_splits)
qed

lemma unary_answers:
  assumes "server_ok reqs w s" and "numbered reqs s"
  shows "\<exists>s'. serve_events (unary_event w) unary_out evs s = returns s' \<and>
    server_ok (reqs @ arrivals (length reqs) evs) w s' \<and> numbered (reqs @ arrivals (length reqs) evs) s'"
  using assms
proof (induction evs arbitrary: s reqs)
  case (Cons ev evs)
  obtain t q where ev: "ev = (t, q)" by (cases ev)
  show ?case
  proof (cases "t = length reqs")
    case True
    with Cons.prems have "t \<in> set (listening s)" by (simp add: numbered_def)
    with server_ok_arrive [OF Cons.prems(1) this, of q] obtain s' where
      s': "unary_event w t q s = returns s'" "server_ok (reqs @ [q]) w s'" "t \<in> unary_out s"
      by (auto simp: unary_event_def unary_out_def)
    with numbered_arrive [OF Cons.prems(2,1), of q s'] True have "numbered (reqs @ [q]) s'" by simp
    from Cons.IH [OF s'(2) this] True s'(1,3) show ?thesis by (simp add: ev)
  next
    case False
    show ?thesis
    proof (cases "t \<in> unary_out s")
      case True
      with False Cons.prems(2) have "t \<in> set (sending s)" "t \<notin> set (listening s)"
        by (simp_all add: numbered_def unary_out_def)
      with server_ok_sent [OF Cons.prems(1), of t q] obtain s' where
        s': "unary_event w t q s = returns s'" "server_ok reqs w s'"
        by (auto simp: unary_event_def)
      from Cons.IH [OF s'(2) numbered_sent [OF Cons.prems(2) False Cons.prems(1) True s'(1)]] False True s'(1)
      show ?thesis by (simp add: ev)
    next
      case no_op: False
      from Cons.IH [OF Cons.prems] False no_op show ?thesis by (simp add: ev)
    qed
  qed
qed simp

text \<open>The streaming calls: the last one made is the one that waits.\<close>

definition last_waits :: "('e, 'r) scall list \<Rightarrow> bool" where
  "last_waits cs \<longleftrightarrow> cs \<noteq> [] \<and> stream_waiting cs = {length cs - 1}"

lemma last_waits_iff:
  "last_waits cs \<longleftrightarrow> cs \<noteq> [] \<and> (\<forall>i < length cs. sstatus (cs ! i) = STARTUP \<longleftrightarrow> Suc i = length cs)"
proof -
  have "stream_waiting cs = {length cs - 1} \<longleftrightarrow> (\<forall>i < length cs. sstatus (cs ! i) = STARTUP \<longleftrightarrow> Suc i = length cs)"
    if "cs \<noteq> []"
    using that by (cases cs rule: rev_cases) (auto simp: stream_waiting_def set_eq_iff)
  then show ?thesis by (auto simp: last_waits_def)
qed

lemma serve_at_last_waits:
  assumes "steady wc" and ok: "calls_ok (returns cs)" and waits: "last_waits cs" and out: "i \<in> stream_out cs"
  shows "\<exists>cs'. serve_at ic wc blank req i cs = returns cs' \<and> calls_ok (returns cs') \<and> last_waits cs' \<and>
    length cs' = (if Suc i = length cs then Suc (length cs) else length cs)"
proof -
  from out have i: "i < length cs" "pending (cs ! i) \<noteq> []" by (simp_all add: stream_out_def)
  from ok i(1) have s: "scall_ok (cs ! i)" by (simp add: calls_ok_def)
  from sserve_ok [OF assms(1) s i(2)] obtain s' where
    s': "sserve ic wc blank req ((cs ! i)\<lparr>pending := tl (pending (cs ! i))\<rparr>) = returns s'" "scall_ok s'"
    "sstatus s' \<noteq> STARTUP" "successors s' = 1" by blast
  let ?cs = "cs[i := s'] @ (if Suc i = length cs then [new_scall] else [])"
  have first: "sstatus (cs ! i) = STARTUP \<longleftrightarrow> Suc i = length cs"
    using waits i(1) by (simp add: last_waits_iff)
  then have eq: "serve_at ic wc blank req i cs = returns ?cs"
    using s s' by (auto simp: serve_at_def scall_ok_def)
  have "last_waits ?cs"
    using waits i(1) s'(3) by (auto simp: last_waits_iff nth_append nth_list_update new_scall_def less_Suc_eq)
  moreover have "calls_ok (returns ?cs)" using serve_at_ok [OF assms(1) ok i, of ic blank req] unfolding eq .
  ultimately show ?thesis using eq by simp
qed

lemma streams_serve:
  assumes "steady wc" and "calls_ok (returns cs)" and "last_waits cs" and "length cs = Suc k"
  shows "\<exists>cs'. serve_events (stream_event ic wc blank) stream_out evs cs = returns cs' \<and>
    calls_ok (returns cs') \<and> last_waits cs' \<and> length cs' = Suc (k + length (arrivals k evs))"
  using assms(2-4)
proof (induction evs arbitrary: cs k)
  case (Cons ev evs)
  obtain i q where ev: "ev = (i, q)" by (cases ev)
  show ?case
  proof (cases "i \<in> stream_out cs")
    case True
    from serve_at_last_waits [OF assms(1) Cons.prems(1,2) True, of ic blank q] obtain cs' where
      cs': "serve_at ic wc blank q i cs = returns cs'" "calls_ok (returns cs')" "last_waits cs'"
      "length cs' = (if Suc i = length cs then Suc (length cs) else length cs)" by blast
    from Cons.IH [OF cs'(2,3), of "if i = k then Suc k else k"] cs' True Cons.prems(3) show ?thesis
      by (auto simp: ev split: if_splits)
  next
    case False
    have "i \<noteq> k"
    proof
      assume "i = k"
      with Cons.prems have "i \<in> stream_waiting cs" by (simp add: last_waits_def)
      with streams.waits [of wc cs] assms(1) Cons.prems(1) False show False by auto
    qed
    with Cons.IH [OF Cons.prems] False show ?thesis by (simp add: ev)
  qed
qed simp

section \<open>Properties\<close>

text \<open>
  C12. A unary and a streaming service share one completion queue, and \<open>write_call\<close> moves its
  iterator only forward, and not to the end. Whatever tags with an operation outstanding the
  queue hands back, every \<open>serve\<close> returns, and each service is in the state it would be in with
  a queue of its own. The \<open>k\<close>-th unary request that arrives has been answered, once, by the
  \<open>k\<close>-th call; each stream request has a call of its own, which has one operation outstanding
  until it is deleted, and by then it has finished, exactly once; and each service has one more
  call, that waits for the next request and can be handed back next.
\<close>

theorem shared_queue:
  fixes evs :: "((nat + nat) \<times> 'q \<times> 'p) list"
  assumes "steady write_stream"
  shows "\<exists>u cs. serve_events (serve_either (unary_event write_call) (stream_event init_call write_stream blank))
        (out_either unary_out stream_out) evs (server_start, [new_scall]) = returns (u, cs) \<and>
      serve_events (unary_event write_call) unary_out (events_left evs) server_start = returns u \<and>
      serve_events (stream_event init_call write_stream blank) stream_out (events_right evs) [new_scall] = returns cs \<and>
      responses u = zip [0..<length (arrivals 0 (events_left evs))]
        (map (response_of \<circ> write_call) (arrivals 0 (events_left evs))) \<and>
      listening u = [length (arrivals 0 (events_left evs))] \<and>
      length cs = Suc (length (arrivals 0 (events_right evs))) \<and>
      stream_waiting cs = {length (arrivals 0 (events_right evs))} \<and> stream_waiting cs \<subseteq> stream_out cs \<and>
      (\<forall>s \<in> set cs. (if salive s then length (pending s) = 1 else pending s = [] \<and> length (finished s) = 1) \<and>
        length (finished s) \<le> 1)"
proof -
  have u0: "\<exists>reqs. server_ok reqs write_call server_start" using server_ok_start by blast
  have cs0: "steady write_stream \<and> calls_ok (returns [new_scall])"
    using assms by (simp add: calls_ok_def scall_ok_def new_scall_def)
  from shared.separate [OF u0 cs0, of init_call blank evs] obtain u cs where
    run: "serve_events (serve_either (unary_event write_call) (stream_event init_call write_stream blank))
        (out_either unary_out stream_out) evs (server_start, [new_scall]) = returns (u, cs)"
      "serve_events (unary_event write_call) unary_out (events_left evs) server_start = returns u"
      "serve_events (stream_event init_call write_stream blank) stream_out (events_right evs) [new_scall] = returns cs"
    by blast
  let ?qs = "arrivals 0 (events_left evs)"
  have "numbered ([] :: 'q list) (server_start :: _ server)"
    by (simp add: numbered_def server_start_def new_call_def)
  from unary_answers [OF server_ok_start this, of write_call "events_left evs"] run(2)
  have u: "server_ok ?qs write_call u" "numbered ?qs u" by simp_all
  then have "responses u = zip [0..<length ?qs] (map (response_of \<circ> write_call) ?qs)"
    using zip_map_fst_snd [of "responses u"] by (simp add: server_ok_def numbered_def)
  moreover have "last_waits [new_scall]" by (simp add: last_waits_iff new_scall_def)
  then obtain "calls_ok (returns cs)" "last_waits cs" "length cs = Suc (length (arrivals 0 (events_right evs)))"
    using streams_serve [of write_stream "[new_scall]" 0 init_call blank "events_right evs"] cs0 run(3) by auto
  moreover from streams.waits [of write_stream cs] cs0 this(1) have "stream_waiting cs \<subseteq> stream_out cs" by blast
  moreover have "\<forall>s \<in> set cs. (if salive s then length (pending s) = 1 else pending s = [] \<and> length (finished s) = 1) \<and>
      length (finished s) \<le> 1" using calculation(2) scall_ok_life by (auto simp: calls_ok_def)
  ultimately show ?thesis using run u(2) unfolding last_waits_def numbered_def
    by (intro exI [of _ u] exI [of _ cs]) simp
qed

theorem shared_queue_witness:
  "\<exists>u cs. serve_events (serve_either (unary_event (\<lambda>q. (OK, q + 1)))
        (stream_event (\<lambda>q. (OK, [q, 7])) (\<lambda>q rng i r. (True, i, rng ! i)) 0))
        (out_either unary_out stream_out) [(Inl 0, 41, 0), (Inr 0, 0, 4), (Inl 1, 5, 0), (Inr 0, 0, 0)]
        (server_start, [new_scall]) = returns (u, cs) \<and>
      map snd (responses u) = [Finish (42 :: nat) OK, Finish 6 OK] \<and> map written cs = [[4 :: nat, 7], []]"
proof -
  have steady: "steady (\<lambda>(q :: nat) (rng :: nat list) i (r :: nat). (True, i, rng ! i))" by (simp add: steady_def)
  from shared_queue [OF steady, where write_call = "\<lambda>q :: nat. (OK, q + 1)" and init_call = "\<lambda>q. (OK, [q, 7])"
      and blank = 0 and evs = "[(Inl 0, 41, 0), (Inr 0, 0, 4), (Inl 1, 5, 0), (Inr 0, 0, 0)]"]
  obtain u cs where run: "serve_events (serve_either (unary_event (\<lambda>q :: nat. (OK, q + 1)))
        (stream_event (\<lambda>q :: nat. (OK, [q, 7])) (\<lambda>q rng i r. (True, i, rng ! i)) 0))
        (out_either unary_out stream_out) [(Inl 0, 41, 0), (Inr 0, 0, 4), (Inl 1, 5, 0), (Inr 0, 0, 0)]
        (server_start, [new_scall]) = returns (u, cs)"
    and one: "serve_events (unary_event (\<lambda>q :: nat. (OK, q + 1))) unary_out [(0, 41), (1, 5)] server_start = returns u"
    and two: "serve_events (stream_event (\<lambda>q :: nat. (OK, [q, 7])) (\<lambda>q rng i r. (True, i, rng ! i)) 0) stream_out
        [(0, 4), (0, 0)] [new_scall] = returns cs" by auto
  have "map snd (responses u) = [Finish 42 OK, Finish 6 OK]"
    using one by (simp add: unary_event_def unary_out_def serve_call_def server_start_def new_call_def respond_def Let_def)
      (auto simp: unary_event_def unary_out_def serve_call_def respond_def response_of_def)
  moreover have "map written cs = [[4, 7], []]"
    using two by (simp add: stream_out_def serve_at_def sserve_def process_def write_loop.simps new_scall_def write_reply_def Let_def)
      (auto simp: stream_out_def serve_at_def sserve_def process_def write_loop.simps)
  ultimately show ?thesis using run by (intro exI [of _ u] exI [of _ cs]) simp
qed

end
