(* ===== verification/Server_Shutdown.thy ===== *)
theory Server_Shutdown
  imports Server_Queue
begin

text \<open>
  The other half of \<open>iServerCall\<close>: once the server is shut down, the queue hands back the tag of
  every operation that is outstanding, as failed, and the loop calls \<open>shutdown\<close> on the call,
  which deletes it.
\<close>

section \<open>The loop\<close>

primrec shut_events :: "('t \<Rightarrow> 's \<Rightarrow> 's run) \<Rightarrow> 't list \<Rightarrow> 's \<Rightarrow> 's run" where
  "shut_events shut [] s = returns s"
| "shut_events shut (t # ts) s =
     (case shut t s of
        None \<Rightarrow> None
      | Some (Inl e) \<Rightarrow> fails e
      | Some (Inr s') \<Rightarrow> shut_events shut ts s')"

section \<open>The contract\<close>

text \<open>
  The calls that are alive are those with an operation outstanding, and \<open>shutdown\<close> of one ends
  both for it and for no other.
\<close>

locale disposable =
  fixes shut :: "'t \<Rightarrow> 's \<Rightarrow> 's run" and out :: "'s \<Rightarrow> 't set" and live :: "'s \<Rightarrow> 't set" and inv :: "'s \<Rightarrow> bool"
  assumes shut_ok: "inv s \<Longrightarrow> t \<in> out s \<Longrightarrow>
      \<exists>s'. shut t s = returns s' \<and> inv s' \<and> out s' = out s - {t} \<and> live s' = live s - {t}"
    and live_out: "inv s \<Longrightarrow> live s = out s"
begin

lemma drained:
  "inv s \<Longrightarrow> distinct ts \<Longrightarrow> set ts = out s \<Longrightarrow>
    \<exists>s'. shut_events shut ts s = returns s' \<and> out s' = {} \<and> live s' = {}"
proof (induction ts arbitrary: s)
  case Nil
  then show ?case using live_out by simp
next
  case (Cons t ts)
  from Cons.prems(3) have "t \<in> out s" by auto
  from shut_ok [OF Cons.prems(1) this] obtain s' where
    s': "shut t s = returns s'" "inv s'" "out s' = out s - {t}" by blast
  have "set ts = out s'" using Cons.prems(2,3) s'(3) by auto
  with Cons.IH [OF s'(2)] Cons.prems(2) s'(1) show ?case by simp
qed

end




section \<open>Both kinds of calls\<close>

definition unary_shutdown :: "nat \<Rightarrow> 's server \<Rightarrow> 's server run" where
  "unary_shutdown tag s =
     (if tag < length (calls s) \<and> calls s ! tag \<noteq> None
      then returns (shutdown_call tag
        (s\<lparr>listening := remove1 tag (listening s), sending := remove1 tag (sending s)\<rparr>))
      else fails Undefined)"

definition unary_live :: "'s server \<Rightarrow> nat set" where
  "unary_live s = {t. t < length (calls s) \<and> calls s ! t \<noteq> None}"

definition unary_inv :: "'s server \<Rightarrow> bool" where
  "unary_inv s \<longleftrightarrow> distinct (listening s) \<and> distinct (sending s) \<and> unary_out s = unary_live s"

definition stream_shutdown :: "nat \<Rightarrow> ('e, 'r) scall list \<Rightarrow> ('e, 'r) scall list run" where
  "stream_shutdown i cs =
     (if i < length cs \<and> salive (cs ! i)
      then returns (cs[i := sshutdown ((cs ! i)\<lparr>pending := tl (pending (cs ! i))\<rparr>)])
      else fails Undefined)"

definition stream_live :: "('e, 'r) scall list \<Rightarrow> nat set" where
  "stream_live cs = {i. i < length cs \<and> salive (cs ! i)}"

text \<open>No stream is in the middle of its range.\<close>

definition stream_inv :: "('e, 'r) scall list \<Rightarrow> bool" where
  "stream_inv cs \<longleftrightarrow> (\<forall>i < length cs. sstatus (cs ! i) \<noteq> PROCESS \<and>
     length (pending (cs ! i)) = (if salive (cs ! i) then 1 else 0))"

interpretation unary_disposal: disposable unary_shutdown unary_out unary_live unary_inv
proof
  fix s :: "'s server" and t
  assume inv: "unary_inv s" and t: "t \<in> unary_out s"
  then have live: "t < length (calls s)" "calls s ! t \<noteq> None" by (auto simp: unary_inv_def unary_live_def)
  let ?s = "shutdown_call t (s\<lparr>listening := remove1 t (listening s), sending := remove1 t (sending s)\<rparr>)"
  have eq: "unary_shutdown t s = returns ?s" using live by (simp add: unary_shutdown_def)
  have out: "unary_out ?s = unary_out s - {t}"
    using inv by (auto simp: unary_out_def unary_inv_def shutdown_call_def)
  moreover have gone: "unary_live ?s = unary_live s - {t}"
    using live(1) by (auto simp: unary_live_def shutdown_call_def nth_list_update split: if_splits)
  moreover have "unary_inv ?s"
    using inv out gone by (simp add: unary_inv_def) (simp add: shutdown_call_def)
  ultimately show "\<exists>s'. unary_shutdown t s = returns s' \<and> unary_inv s' \<and> unary_out s' = unary_out s - {t} \<and>
      unary_live s' = unary_live s - {t}" using eq by blast
qed (simp add: unary_inv_def)

interpretation stream_disposal: disposable stream_shutdown stream_out stream_live stream_inv
proof
  fix cs :: "('e, 'r) scall list" and i
  assume inv: "stream_inv cs" and i: "i \<in> stream_out cs"
  then have live: "i < length cs" "salive (cs ! i)" "sstatus (cs ! i) \<noteq> PROCESS" "length (pending (cs ! i)) = 1"
    by (auto simp: stream_inv_def stream_out_def split: if_splits)
  let ?s = "sshutdown ((cs ! i)\<lparr>pending := tl (pending (cs ! i))\<rparr>)"
  have s: "\<not> salive ?s" "pending ?s = []" "sstatus ?s \<noteq> PROCESS"
    using live(3,4) by (simp_all add: sshutdown_def length_Suc_conv) auto
  have "stream_shutdown i cs = returns (cs[i := ?s])" using live by (simp add: stream_shutdown_def)
  moreover have "stream_inv (cs[i := ?s])" using inv s live(1) by (auto simp: stream_inv_def nth_list_update)
  moreover have "stream_out (cs[i := ?s]) = stream_out cs - {i}"
    using s live(1) by (auto simp: stream_out_def nth_list_update split: if_splits)
  moreover have "stream_live (cs[i := ?s]) = stream_live cs - {i}"
    using s live(1) by (auto simp: stream_live_def nth_list_update split: if_splits)
  ultimately show "\<exists>cs'. stream_shutdown i cs = returns cs' \<and> stream_inv cs' \<and> stream_out cs' = stream_out cs - {i} \<and>
      stream_live cs' = stream_live cs - {i}" by blast
next
  fix cs :: "('e, 'r) scall list"
  assume "stream_inv cs"
  then show "stream_live cs = stream_out cs"
    by (auto simp: stream_inv_def stream_live_def stream_out_def split: if_splits)
qed




section \<open>Properties\<close>



text \<open>
  A tag handed back as failed must not be served: \<open>serve\<close> is not told, takes the call for one
  with a request, answers it and makes a new call on the queue that has been shut down.
\<close>

lemma serving_a_failed_request:
  assumes "server_ok reqs w s" and "listening s = [tag]"
  shows "\<exists>s'. unary_event w tag req s = returns s' \<and> listening s' = [length (calls s)] \<and>
    responses s' = responses s @ [(tag, response_of (w req))]"
proof -
  from assms have "tag < length (calls s)" "calls s ! tag = Some False" by (auto simp: server_ok_def)
  with assms(2) show ?thesis
    by (simp add: unary_event_def serve_call_def new_call_def respond_def Let_def)
qed

end
