(* ===== verification/Scope_Guard.thy ===== *)
theory Scope_Guard
  imports Cpp_Prelude "HOL-Library.Multiset"
begin

text \<open>
  The code of \<open>cppkg/jobs/scope_guard.h\<close>. A guard holds a function, known by its identity, or
  an empty one; calling it is an entry of a log, and \<open>throws\<close> tells which functions throw. The
  state has the program's guards, each with whether it is still alive, and the functions whose
  exception has left a move assignment, which the program catches. A destructor must not
  throw: an exception in it ends the program.
\<close>

section \<open>Guards\<close>

record 'f guard =
  galive :: bool
  gterm :: "'f option"

record 'f guards =
  objects :: "'f guard list"
  called :: "'f list"
  thrown :: "'f list"

definition no_guards :: "'f guards" where
  "no_guards = \<lparr>objects = [], called = [], thrown = []\<rparr>"

definition invoke :: "'f option \<Rightarrow> 'f list \<Rightarrow> 'f list" where
  "invoke t log = (case t of Some f \<Rightarrow> log @ [f] | None \<Rightarrow> log)"

definition raises :: "('f \<Rightarrow> bool) \<Rightarrow> 'f option \<Rightarrow> bool" where
  "raises throws t = (case t of Some f \<Rightarrow> throws f | None \<Rightarrow> False)"

definition alive :: "nat \<Rightarrow> 'f guards \<Rightarrow> bool" where
  "alive g s = (g < length (objects s) \<and> galive (objects s ! g))"

definition set_term :: "nat \<Rightarrow> 'f option \<Rightarrow> 'f guards \<Rightarrow> 'f guards" where
  "set_term g t s = s\<lparr>objects := (objects s)[g := (objects s ! g)\<lparr>gterm := t\<rparr>]\<rparr>"

definition new_guard :: "'f option \<Rightarrow> 'f guards \<Rightarrow> 'f guards" where
  "new_guard f s = s\<lparr>objects := objects s @ [\<lparr>galive = True, gterm = f\<rparr>]\<rparr>"

definition destroy_guard :: "('f \<Rightarrow> bool) \<Rightarrow> nat \<Rightarrow> 'f guards \<Rightarrow> 'f guards res" where
  "destroy_guard throws g s =
     (if \<not> alive g s then Inl Undefined
      else if raises throws (gterm (objects s ! g)) then Inl (Fatal ''terminate'')
      else Inr (s\<lparr>called := invoke (gterm (objects s ! g)) (called s),
                  objects := (objects s)[g := (objects s ! g)\<lparr>galive := False\<rparr>]\<rparr>))"

definition move_guard :: "nat \<Rightarrow> 'f guards \<Rightarrow> 'f guards res" where
  "move_guard other s =
     (if \<not> alive other s then Inl Undefined
      else Inr (set_term other None (new_guard (gterm (objects s ! other)) s)))"

text \<open>If the function throws, nothing after its call happens: the guard keeps it.\<close>

definition move_assign_guard :: "('f \<Rightarrow> bool) \<Rightarrow> nat \<Rightarrow> nat \<Rightarrow> 'f guards \<Rightarrow> 'f guards res" where
  "move_assign_guard throws this other s =
     (if \<not> alive this s \<or> \<not> alive other s then Inl Undefined
      else if this \<noteq> other
      then let s1 = s\<lparr>called := invoke (gterm (objects s ! this)) (called s)\<rparr>;
               s2 = set_term this (gterm (objects s1 ! other)) s1
           in if raises throws (gterm (objects s ! this))
              then Inr (s1\<lparr>thrown := invoke (gterm (objects s ! this)) (thrown s1)\<rparr>)
              else Inr (set_term other None s2)
      else Inr s)"

datatype 'f guard_op =
    New_guard "'f option"
  | Destroy_guard nat
  | Move_guard nat
  | Move_assign nat nat

fun run_guard :: "('f \<Rightarrow> bool) \<Rightarrow> 'f guard_op list \<Rightarrow> 'f guards \<Rightarrow> 'f guards res" where
  "run_guard throws [] s = Inr s"
| "run_guard throws (x # xs) s =
     (case (case x of New_guard f \<Rightarrow> Inr (new_guard f s)
                    | Destroy_guard g \<Rightarrow> destroy_guard throws g s
                    | Move_guard g \<Rightarrow> move_guard g s
                    | Move_assign g h \<Rightarrow> move_assign_guard throws g h s) of
        Inl e \<Rightarrow> Inl e
      | Inr s' \<Rightarrow> run_guard throws xs s')"

section \<open>Nothing is lost and nothing runs twice\<close>

definition held_by :: "'f guard \<Rightarrow> 'f multiset" where
  "held_by g = (if galive g then (case gterm g of Some f \<Rightarrow> {#f#} | None \<Rightarrow> {#}) else {#})"

definition held :: "'f guards \<Rightarrow> 'f multiset" where
  "held s = sum_list (map held_by (objects s))"

definition created :: "'f guard_op list \<Rightarrow> 'f multiset" where
  "created xs = sum_list (map (\<lambda>x. case x of New_guard (Some f) \<Rightarrow> {#f#} | _ \<Rightarrow> {#}) xs)"

lemma held_update:
  assumes "g < length gs"
  shows "sum_list (map held_by (gs[g := x])) + held_by (gs ! g) = sum_list (map held_by gs) + held_by x"
  using assms by (induction gs arbitrary: g) (auto split: nat.splits simp: add_ac)

lemma mset_invoke: "mset (invoke (gterm g) log) = mset log + held_by (g\<lparr>galive := True\<rparr>)"
  by (simp add: invoke_def held_by_def split: option.split)

lemma held_empty [simp]: "held_by (g\<lparr>gterm := None\<rparr>) = {#}" "held_by (g\<lparr>galive := False\<rparr>) = {#}"
  by (simp_all add: held_by_def)

lemma destroy_guard_held:
  assumes "destroy_guard throws g s = Inr s'"
  shows "mset (called s') + held s' = mset (called s) + held s" and "thrown s' = thrown s"
proof -
  from assms have g: "g < length (objects s)" "galive (objects s ! g)"
    and s': "s' = s\<lparr>called := invoke (gterm (objects s ! g)) (called s),
                  objects := (objects s)[g := (objects s ! g)\<lparr>galive := False\<rparr>]\<rparr>"
    by (auto simp: destroy_guard_def alive_def split: if_splits)
  have "(objects s ! g)\<lparr>galive := True\<rparr> = objects s ! g" using g(2) by simp
  with held_update [OF g(1), of "(objects s ! g)\<lparr>galive := False\<rparr>"]
  show "mset (called s') + held s' = mset (called s) + held s" and "thrown s' = thrown s"
    by (simp_all add: s' held_def mset_invoke add_ac)
qed

lemma held_set_term:
  assumes "g < length (objects s)"
  shows "held (set_term g t s) + held_by (objects s ! g) = held s + held_by ((objects s ! g)\<lparr>gterm := t\<rparr>)"
  using held_update [OF assms] by (simp add: held_def set_term_def)

lemma move_guard_held:
  assumes "move_guard g s = Inr s'"
  shows "mset (called s') + held s' = mset (called s) + held s" and "thrown s' = thrown s"
proof -
  from assms have g: "g < length (objects s)" "galive (objects s ! g)"
    and s': "s' = set_term g None (new_guard (gterm (objects s ! g)) s)"
    by (auto simp: move_guard_def alive_def split: if_splits)
  let ?s = "new_guard (gterm (objects s ! g)) s"
  have same: "objects ?s ! g = objects s ! g" "g < length (objects ?s)"
    using g(1) by (simp_all add: new_guard_def nth_append)
  have "held ?s = held s + held_by (objects s ! g)"
    using g(2) by (simp add: held_def new_guard_def held_by_def)
  with held_set_term [OF same(2), of None] same(1) have "held s' = held s" by (simp add: s')
  then show "mset (called s') + held s' = mset (called s) + held s" and "thrown s' = thrown s"
    by (simp_all add: s' set_term_def new_guard_def)
qed

lemma move_assign_held:
  assumes "move_assign_guard throws g h s = Inr s'"
  shows "mset (called s') + held s' + mset (thrown s) = mset (called s) + held s + mset (thrown s')"
proof -
  from assms have live: "alive g s" "alive h s" by (auto simp: move_assign_guard_def split: if_splits)
  let ?f = "gterm (objects s ! g)"
  let ?s1 = "s\<lparr>called := invoke ?f (called s)\<rparr>"
  consider "g = h" | "g \<noteq> h" "raises throws ?f" | "g \<noteq> h" "\<not> raises throws ?f" by blast
  then show ?thesis
  proof cases
    case 1
    with assms live show ?thesis by (simp add: move_assign_guard_def)
  next
    case 2
    with assms live have "s' = ?s1\<lparr>thrown := invoke ?f (thrown s)\<rparr>" by (simp add: move_assign_guard_def)
    then show ?thesis by (simp add: mset_invoke held_def add_ac)
  next
    case 3
    let ?s2 = "set_term g (gterm (objects s ! h)) ?s1"
    from assms live 3 have s': "s' = set_term h None ?s2" by (simp add: move_assign_guard_def Let_def)
    from live have g: "g < length (objects s)" "galive (objects s ! g)"
      and h: "h < length (objects s)" "galive (objects s ! h)" by (simp_all add: alive_def)
    have alive: "(objects s ! g)\<lparr>galive := True\<rparr> = objects s ! g" using g(2) by simp
    have "held ?s2 + held_by (objects s ! g) = held s + held_by (objects s ! h)"
      using held_set_term [of g ?s1 "gterm (objects s ! h)"] g h by (simp add: held_def held_by_def)
    moreover have "objects ?s2 ! h = objects s ! h" "h < length (objects ?s2)"
      using 3(1) h(1) by (simp_all add: set_term_def)
    then have "held s' + held_by (objects s ! h) = held ?s2"
      using held_set_term [of h ?s2 None] by (simp add: s')
    ultimately have "held s' + held_by (objects s ! g) + held_by (objects s ! h) = held s + held_by (objects s ! h)"
      by (metis add.assoc add.commute)
    then have "held s' + held_by (objects s ! g) = held s" by simp
    moreover have "mset (called s') = mset (called s) + held_by (objects s ! g)" "thrown s' = thrown s"
      using mset_invoke [of "objects s ! g"] by (simp_all add: s' set_term_def alive)
    ultimately show ?thesis by (metis add.assoc add.commute)
  qed
qed

lemma account_chain:
  assumes "a + t = b + t1" and "c + t1 = a + t'"
  shows "c + t = b + (t' :: 'f multiset)"
proof -
  have "c + t + t1 = (a + t) + t'" using assms(2) by (simp add: add_ac)
  also have "\<dots> = b + t' + t1" using assms(1) by (simp add: add_ac)
  finally show ?thesis by simp
qed

lemma run_guard_thrown:
  "run_guard throws xs s = Inr s' \<Longrightarrow> set (thrown s') \<subseteq> set (thrown s) \<union> {f. throws f}"
proof (induction throws xs s rule: run_guard.induct)
  case (2 throws x xs s)
  let ?step = "case x of New_guard f \<Rightarrow> Inr (new_guard f s) | Destroy_guard g \<Rightarrow> destroy_guard throws g s
      | Move_guard g \<Rightarrow> move_guard g s | Move_assign g h \<Rightarrow> move_assign_guard throws g h s"
  from 2(2) obtain s1 where s1: "?step = Inr s1" "run_guard throws xs s1 = Inr s'"
    by (auto split: sum.splits)
  from s1(1) have "set (thrown s1) \<subseteq> set (thrown s) \<union> {f. throws f}"
    by (auto simp: new_guard_def destroy_guard_def move_guard_def move_assign_guard_def set_term_def invoke_def
        raises_def Let_def split: guard_op.splits if_splits option.splits)
  with 2(1) [OF s1] show ?case by blast
qed simp

lemma run_guard_held:
  "run_guard throws xs s = Inr s' \<Longrightarrow>
    mset (called s') + held s' + mset (thrown s) = mset (called s) + held s + created xs + mset (thrown s')"
proof (induction throws xs s rule: run_guard.induct)
  case (1 throws s)
  then show ?case by (simp add: created_def)
next
  case (2 throws x xs s)
  let ?step = "case x of New_guard f \<Rightarrow> Inr (new_guard f s) | Destroy_guard g \<Rightarrow> destroy_guard throws g s
      | Move_guard g \<Rightarrow> move_guard g s | Move_assign g h \<Rightarrow> move_assign_guard throws g h s"
  from 2(2) obtain s1 where s1: "?step = Inr s1" "run_guard throws xs s1 = Inr s'"
    by (auto split: sum.splits)
  have "mset (called s1) + held s1 + mset (thrown s) = mset (called s) + held s + created [x] + mset (thrown s1)"
  proof (cases x)
    case (New_guard f)
    with s1(1) show ?thesis
      by (cases f) (auto simp: new_guard_def held_def held_by_def created_def)
  next
    case (Destroy_guard g)
    with s1(1) destroy_guard_held [of throws g s s1] show ?thesis by (simp add: created_def)
  next
    case (Move_guard g)
    with s1(1) move_guard_held [of g s s1] show ?thesis by (simp add: created_def)
  next
    case (Move_assign g h)
    with s1(1) move_assign_held [of throws g h s s1] show ?thesis by (simp add: created_def)
  qed
  moreover have "created (x # xs) = created [x] + created xs" by (simp add: created_def)
  ultimately have "mset (called s1) + held s1 + created xs + mset (thrown s) =
      mset (called s) + held s + created (x # xs) + mset (thrown s1)" by (simp add: add_ac)
  moreover from 2(1) [OF s1] have "mset (called s') + held s' + mset (thrown s1) =
      mset (called s1) + held s1 + created xs + mset (thrown s')" .
  ultimately show ?case by (rule account_chain)
qed

section \<open>Properties\<close>

text \<open>
  C34. Through any sequence of constructions, moves, move assignments and destructions that
  does not end in an error: every function given to a guard is held by exactly one live guard
  or has been called once, and it has been called once more for each move assignment that its
  exception has left. So when all guards are destroyed and no move assignment threw, each
  has been called exactly once.
\<close>

theorem guards_call_once:
  assumes "run_guard throws ops no_guards = Inr s"
  shows "mset (called s) + held s = created ops + mset (thrown s) \<and>
    ((\<forall>g \<in> set (objects s). \<not> galive g) \<longrightarrow> mset (called s) = created ops + mset (thrown s)) \<and>
    set (thrown s) \<subseteq> {f. throws f}"
proof -
  have eq: "mset (called s) + held s = created ops + mset (thrown s)"
    using run_guard_held [OF assms] by (simp add: no_guards_def held_def)
  moreover have "held s = {#}" if "\<forall>g \<in> set (objects s). \<not> galive g"
  proof -
    have "held s = sum_list (map (\<lambda>g. {#}) (objects s))"
      unfolding held_def using that by (intro arg_cong [where f = sum_list]) (simp add: held_by_def)
    then show ?thesis by simp
  qed
  moreover have "set (thrown s) \<subseteq> {f. throws f}"
    using run_guard_thrown [OF assms] by (simp add: no_guards_def)
  ultimately show ?thesis by auto
qed

theorem guards_call_once_witness:
  "mset [7 :: nat, 8] = created [New_guard (Some 7), New_guard (Some 8), Move_assign 0 1, Destroy_guard 1, Destroy_guard 0]"
proof -
  have "run_guard (\<lambda>_. False) [New_guard (Some (7 :: nat)), New_guard (Some 8), Move_assign 0 1, Destroy_guard 1, Destroy_guard 0]
      no_guards = Inr \<lparr>objects = [\<lparr>galive = False, gterm = Some 8\<rparr>, \<lparr>galive = False, gterm = None\<rparr>], called = [7, 8], thrown = []\<rparr>"
    by code_simp
  from guards_call_once [OF this] show ?thesis by simp
qed

text \<open>
  A function that throws out of a move assignment is still held, so it is called again: here by
  the destructor, which ends the program.
\<close>

lemma throwing_guard_called_twice:
  "run_guard (\<lambda>f. f = (7 :: nat)) [New_guard (Some 7), New_guard None, Move_assign 0 1] no_guards =
     Inr \<lparr>objects = [\<lparr>galive = True, gterm = Some 7\<rparr>, \<lparr>galive = True, gterm = None\<rparr>], called = [7], thrown = [7]\<rparr>"
  "run_guard (\<lambda>f. f = (7 :: nat)) [New_guard (Some 7), New_guard None, Move_assign 0 1, Destroy_guard 0] no_guards =
     Inl (Fatal ''terminate'')"
  by code_simp+

end
