(* ===== verification/Managed_Job.thy ===== *)
theory Managed_Job
  imports Cpp_Prelude
begin

text \<open>
  The code of \<open>cppkg/jobs/managed_job.h\<close>: a thread that repeats a function until a promise is
  set. The model has the shared states of promises and futures, the threads, and the
  \<open>ManagedJob\<close> objects as the owning thread handles them. The standard library throws
  \<open>future_error\<close> for a promise that has no state, is set twice or whose future is taken twice.
\<close>

section \<open>Promises, threads and jobs\<close>

text \<open>A shared state: whether its future was taken, and whether it is ready.\<close>

record shared =
  taken :: bool
  ready :: bool

text \<open>A thread: the state it stops on, and whether a \<open>std::thread\<close> object still refers to it.\<close>

record thread_info =
  stop_it :: nat
  detached :: bool

record job =
  exit_future :: "nat option"
  exit_signal :: "nat option"
  job_thread :: "nat option"

record system =
  shareds :: "shared list"
  threads :: "thread_info list"

definition future_error :: cpp_error where
  "future_error = Fatal ''future_error''"

definition make_promise :: "system \<Rightarrow> nat \<times> system" where
  "make_promise w = (length (shareds w), w\<lparr>shareds := shareds w @ [\<lparr>taken = False, ready = False\<rparr>]\<rparr>)"

definition get_future :: "nat option \<Rightarrow> system \<Rightarrow> system res" where
  "get_future p w =
     (case p of
        None \<Rightarrow> Inl future_error
      | Some i \<Rightarrow> if taken (shareds w ! i) then Inl future_error
                  else Inr (w\<lparr>shareds := (shareds w)[i := (shareds w ! i)\<lparr>taken := True\<rparr>]\<rparr>))"

definition set_signal :: "nat option \<Rightarrow> system \<Rightarrow> system res" where
  "set_signal p w =
     (case p of
        None \<Rightarrow> Inl future_error
      | Some i \<Rightarrow> if ready (shareds w ! i) then Inl future_error
                  else Inr (w\<lparr>shareds := (shareds w)[i := (shareds w ! i)\<lparr>ready := True\<rparr>]\<rparr>))"

text \<open>A promise that gives up its state leaves it ready, with the error \<open>broken_promise\<close>.\<close>

definition abandon :: "nat option \<Rightarrow> system \<Rightarrow> system" where
  "abandon p w = (case p of None \<Rightarrow> w
     | Some i \<Rightarrow> w\<lparr>shareds := (shareds w)[i := (shareds w ! i)\<lparr>ready := True\<rparr>]\<rparr>)"

definition joinable :: "job \<Rightarrow> bool" where
  "joinable j = (job_thread j \<noteq> None)"

section \<open>The operations\<close>

definition default_job :: "system \<Rightarrow> (job \<times> system) res" where
  "default_job w =
     (case make_promise w of (p, w1) \<Rightarrow>
        bind_res (get_future (Some p) w1) (\<lambda>w2.
        Inr (\<lparr>exit_future = Some p, exit_signal = Some p, job_thread = None\<rparr>, w2)))"

definition start_job :: "system \<Rightarrow> (job \<times> system) res" where
  "start_job w =
     bind_res (default_job w) (\<lambda>(j, w1).
     case exit_future j of
       None \<Rightarrow> Inl future_error
     | Some p \<Rightarrow> Inr (j\<lparr>job_thread := Some (length (threads w1))\<rparr>,
                      w1\<lparr>threads := threads w1 @ [\<lparr>stop_it = p, detached = False\<rparr>]\<rparr>))"

text \<open>
  \<open>join\<close> returns when the thread ends. A thread ends when the call it is in returns and the
  poll after it finds its state ready. \<open>ends t\<close> tells whether the call of the job's function
  that the thread \<open>t\<close> is in, when it is waited for, returns; with nobody else to make the state
  ready, \<open>join\<close> does not return before it is.
\<close>

definition join_job :: "(nat \<Rightarrow> bool) \<Rightarrow> job \<Rightarrow> system \<Rightarrow> (job \<times> system) run" where
  "join_job ends j w =
     (case job_thread j of
        None \<Rightarrow> returns (j, w)
      | Some t \<Rightarrow> if ends t \<and> ready (shareds w ! stop_it (threads w ! t)) then returns (j\<lparr>job_thread := None\<rparr>, w)
                  else None)"

definition stop_job :: "job \<Rightarrow> system \<Rightarrow> system res" where
  "stop_job j w = (if joinable j then set_signal (exit_signal j) w else Inr w)"

definition get_id :: "job \<Rightarrow> nat option" where
  "get_id j = job_thread j"

definition is_running :: "job \<Rightarrow> bool" where
  "is_running j = joinable j"

text \<open>An exception that leaves the destructor terminates the program.\<close>

definition destroy_job :: "(nat \<Rightarrow> bool) \<Rightarrow> job \<Rightarrow> system \<Rightarrow> system run" where
  "destroy_job ends j w =
     (case (if joinable j \<and> exit_future j \<noteq> None then set_signal (exit_signal j) w else Inr w) of
        Inl e \<Rightarrow> fails (Fatal ''terminate'')
      | Inr w1 \<Rightarrow> bind_run (join_job ends j w1) (\<lambda>(j', w2). returns (abandon (exit_signal j') w2)))"

text \<open>
  The move constructor; when \<open>get_future\<close> throws, the members already made are destroyed, and
  a \<open>std::thread\<close> that is joinable then terminates the program.
\<close>

definition move_job :: "job \<Rightarrow> system \<Rightarrow> (job \<times> job \<times> system) res" where
  "move_job other w =
     (let this = \<lparr>exit_future = None, exit_signal = exit_signal other, job_thread = job_thread other\<rparr>;
          other' = other\<lparr>exit_signal := None, job_thread := None\<rparr>
      in case get_future (exit_signal this) w of
           Inl e \<Rightarrow> Inl (if joinable this then Fatal ''terminate'' else e)
         | Inr w1 \<Rightarrow> Inr (this\<lparr>exit_future := exit_signal this\<rparr>, other', w1))"

text \<open>
  The move assignment. Assigning to a \<open>std::thread\<close> that is joinable terminates the program;
  assigning to a promise abandons its state.
\<close>

definition move_assign_job :: "bool \<Rightarrow> job \<Rightarrow> job \<Rightarrow> system \<Rightarrow> (job \<times> job \<times> system) res" where
  "move_assign_job same this other w =
     (if \<not> same
      then bind_res
             (if joinable this \<and> exit_future this \<noteq> None
              then bind_res (set_signal (exit_signal this) w) (\<lambda>w1.
                   Inr (this\<lparr>job_thread := None\<rparr>,
                     (case job_thread this of None \<Rightarrow> w1
                      | Some t \<Rightarrow> w1\<lparr>threads := (threads w1)[t := (threads w1 ! t)\<lparr>detached := True\<rparr>]\<rparr>)))
              else Inr (this, w))
             (\<lambda>(this1, w1).
                let w2 = abandon (exit_signal this1) w1
                in if joinable this1 then Inl (Fatal ''terminate'')
                   else Inr (\<lparr>exit_future = exit_future other, exit_signal = exit_signal other,
                               job_thread = job_thread other\<rparr>,
                             \<lparr>exit_future = None, exit_signal = None, job_thread = None\<rparr>, w2))
      else Inr (this, other, w))"

section \<open>The loop of the thread\<close>

text \<open>
  The function of the thread calls the job with its arguments and then polls its state, until
  that is ready. \<open>job args\<close> is what a call does: whether it throws, which terminates the
  program, and what it leaves in the arguments, which are forwarded by every call and may be
  moved from. \<open>stop n\<close> tells whether the poll after the \<open>n\<close>-th call finds the state ready. The
  result has the arguments that each call got.
\<close>

partial_function (option) thread_loop ::
  "('a \<Rightarrow> bool \<times> 'a) \<Rightarrow> (nat \<Rightarrow> bool) \<Rightarrow> 'a \<Rightarrow> 'a list \<Rightarrow> 'a list run" where
  [code]: "thread_loop job stop args seen =
     (case job args of
        (threw, args') \<Rightarrow>
          if threw then fails (Fatal ''terminate'')
          else if stop (Suc (length seen)) then returns (seen @ [args])
          else thread_loop job stop args' (seen @ [args]))"

text \<open>The arguments after \<open>k\<close> calls.\<close>

definition left_after :: "('a \<Rightarrow> bool \<times> 'a) \<Rightarrow> 'a \<Rightarrow> nat \<Rightarrow> 'a" where
  "left_after job args k = ((snd \<circ> job) ^^ k) args"

lemma left_after_simps [simp]:
  "left_after job args 0 = args" "left_after job (snd (job args)) k = left_after job args (Suc k)"
  by (simp_all add: left_after_def funpow_Suc_right del: funpow.simps)

lemma left_after_Suc: "left_after job args (Suc k) = snd (job (left_after job args k))"
  by (simp add: left_after_def)

lemma thread_loop_calls:
  assumes "stop (length seen + Suc d)" and "\<forall>k. length seen < k \<and> k < length seen + Suc d \<longrightarrow> \<not> stop k"
  shows "thread_loop job stop args seen =
    (if \<exists>k < Suc d. fst (job (left_after job args k)) then fails (Fatal ''terminate'')
     else returns (seen @ map (left_after job args) [0..<Suc d]))"
  using assms
proof (induction d arbitrary: args seen)
  case 0
  then show ?case by (subst thread_loop.simps) (auto split: prod.split)
next
  case (Suc d)
  obtain threw args' where call: "job args = (threw, args')" by (cases "job args")
  then have args': "args' = snd (job args)" and threw: "fst (job args) = threw" by simp_all
  have shift: "left_after job args' k = left_after job args (Suc k)" for k by (simp add: args')
  have "\<not> stop (Suc (length seen))" using Suc.prems(2) by simp
  moreover have "thread_loop job stop args' (seen @ [args]) =
      (if \<exists>k < Suc d. fst (job (left_after job args' k)) then fails (Fatal ''terminate'')
       else returns ((seen @ [args]) @ map (left_after job args') [0..<Suc d]))"
    using Suc.prems by (intro Suc.IH) simp_all
  moreover have "(\<exists>k < Suc (Suc d). fst (job (left_after job args k))) \<longleftrightarrow>
      threw \<or> (\<exists>k < Suc d. fst (job (left_after job args' k)))"
    by (subst Ex_less_Suc2) (simp add: threw shift)
  moreover have "map (left_after job args) [0..<Suc (Suc d)] = args # map (left_after job args') [0..<Suc d]"
    by (subst upt_conv_Cons, simp) (simp add: shift map_Suc_upt [symmetric] del: upt_Suc)
  ultimately show ?case by (subst thread_loop.simps) (simp add: call)
qed

section \<open>Running jobs\<close>

text \<open>A job that \<^const>\<open>start_job\<close> has made and that has not been stopped.\<close>

definition running :: "job \<Rightarrow> system \<Rightarrow> bool" where
  "running j w \<longleftrightarrow> (\<exists>p t. exit_future j = Some p \<and> exit_signal j = Some p \<and> job_thread j = Some t \<and>
     p < length (shareds w) \<and> t < length (threads w) \<and> stop_it (threads w ! t) = p \<and>
     taken (shareds w ! p) \<and> \<not> ready (shareds w ! p))"

lemma start_job_running: "\<exists>j w'. start_job w = Inr (j, w') \<and> running j w'"
  by (auto simp: start_job_def default_job_def make_promise_def get_future_def running_def)

section \<open>Properties\<close>

text \<open>
  A started job runs until it is stopped: \<open>join\<close> without \<open>stop\<close> does not return; after \<open>stop\<close>
  it returns if the call that the thread is in does. A second \<open>stop\<close> before the \<open>join\<close> throws.
\<close>

lemma started_job:
  assumes "running j w"
  shows "is_running j \<and> join_job ends j w = None \<and>
    (\<exists>w'. stop_job j w = Inr w' \<and> stop_job j w' = Inl future_error \<and>
      (\<forall>t. job_thread j = Some t \<longrightarrow>
        join_job ends j w' = (if ends t then returns (j\<lparr>job_thread := None\<rparr>, w') else None)))"
  using assms by (auto simp: running_def is_running_def joinable_def join_job_def stop_job_def set_signal_def)

text \<open>
  C32. The thread of a job that is told to stop during its call number \<open>m\<close>, or before the first
  one, calls it exactly \<open>m\<close> times and ends, unless one of these calls throws and terminates the
  program. Each call gets what the one before has left in the arguments: if a call moves them
  away, only the first gets the arguments that the job was created with.
\<close>

theorem job_thread_calls:
  assumes "0 < m" and "stop m" and "\<forall>k. 0 < k \<and> k < m \<longrightarrow> \<not> stop k"
  shows "thread_loop job stop args [] =
      (if \<exists>k < m. fst (job (left_after job args k)) then fails (Fatal ''terminate'')
       else returns (map (left_after job args) [0..<m])) \<and>
    thread_loop (\<lambda>a. (False, moved)) stop args [] = returns (args # replicate (m - 1) moved)"
proof -
  from assms(1) obtain d where m: "m = Suc d" by (cases m) auto
  have calls: "thread_loop job' stop args [] =
      (if \<exists>k < m. fst (job' (left_after job' args k)) then fails (Fatal ''terminate'')
       else returns (map (left_after job' args) [0..<m]))" for job'
    using thread_loop_calls [of stop "[]" d job' args] assms(2,3) m by simp
  have "left_after (\<lambda>a. (False, moved)) args (Suc k) = moved" for k by (simp add: left_after_Suc)
  then have "map (left_after (\<lambda>a. (False, moved)) args) [0..<Suc d] = args # replicate d moved"
    by (subst upt_conv_Cons, simp) (simp add: map_Suc_upt [symmetric] comp_def map_replicate_const del: upt_Suc)
  then have "thread_loop (\<lambda>a. (False, moved)) stop args [] = returns (args # replicate (m - 1) moved)"
    using calls [of "\<lambda>a. (False, moved)"] m by simp
  with calls [of job] show ?thesis by blast
qed

theorem job_thread_calls_witness:
  "thread_loop (\<lambda>a. (False, [])) (\<lambda>n. n = 3) ''name'' [] = returns [''name'', [], []]"
  using conjunct2 [OF job_thread_calls [of 3 "\<lambda>n. n = 3" "\<lambda>a. (False, [])" "''name''" "[]"]]
  by (simp add: numeral_2_eq_2)

text \<open>
  Moving a running job into a new one never succeeds: the move constructor asks the
  promise for its future a second time, and the exception destroys a joinable thread, which
  terminates the program. The move assignment works: the target then controls the thread of
  the source, and the thread it had before is signalled and detached.
\<close>

lemma job_moves:
  assumes "running other w" and "running this w" and "exit_signal this \<noteq> exit_signal other"
    "job_thread this \<noteq> job_thread other"
  shows "move_job other w = Inl (Fatal ''terminate'') \<and>
    (\<exists>empty w'. move_assign_job False this other w = Inr (other, empty, w') \<and> running other w' \<and>
      \<not> joinable empty \<and>
      (\<forall>t. job_thread this = Some t \<longrightarrow> detached (threads w' ! t) \<and> ready (shareds w' ! stop_it (threads w' ! t))))"
  using assms by (auto simp: running_def move_job_def get_future_def joinable_def move_assign_job_def
      set_signal_def abandon_def Let_def)

end
