(* ===== verification/Job_Runs.thy ===== *)
theory Job_Runs
  imports Managed_Job Step_Systems
begin

text \<open>
  Programs that create, move, stop, join and destroy any number of \<open>ManagedJob\<close> objects in any
  order, and the master of a \<open>Sequence\<close> as one of them: how its constructor and destructor
  use the operations of \<open>ManagedJob\<close>.
\<close>

section \<open>Programs over jobs\<close>

text \<open>The objects made so far, \<open>None\<close> once destroyed. A use of a destroyed one is undefined.\<close>

record job_world =
  jobs :: "job option list"
  sys :: system

datatype job_op =
    Make
  | Start
  | Stop nat
  | Join nat
  | Destroy nat
  | Move_construct nat
  | Move_assign nat nat

definition start_world :: job_world where
  "start_world = \<lparr>jobs = [], sys = \<lparr>shareds = [], threads = []\<rparr>\<rparr>"

definition job_at :: "nat \<Rightarrow> job_world \<Rightarrow> job option" where
  "job_at a w = (if a < length (jobs w) then jobs w ! a else None)"

definition run_res :: "'a res \<Rightarrow> 'a run" where
  "run_res r = Some r"

text \<open>\<open>ends\<close> tells which threads are in a call that returns, see \<^const>\<open>join_job\<close>.\<close>

definition run_job_op :: "(nat \<Rightarrow> bool) \<Rightarrow> job_op \<Rightarrow> job_world \<Rightarrow> job_world run" where
  "run_job_op ends x w =
     (case x of
        Make \<Rightarrow> bind_run (run_res (default_job (sys w))) (\<lambda>(j, s).
          returns (w\<lparr>jobs := jobs w @ [Some j], sys := s\<rparr>))
      | Start \<Rightarrow> bind_run (run_res (start_job (sys w))) (\<lambda>(j, s).
          returns (w\<lparr>jobs := jobs w @ [Some j], sys := s\<rparr>))
      | Stop a \<Rightarrow> (case job_at a w of None \<Rightarrow> fails Undefined
          | Some j \<Rightarrow> bind_run (run_res (stop_job j (sys w))) (\<lambda>s. returns (w\<lparr>sys := s\<rparr>)))
      | Join a \<Rightarrow> (case job_at a w of None \<Rightarrow> fails Undefined
          | Some j \<Rightarrow> bind_run (join_job ends j (sys w)) (\<lambda>(j', s).
              returns (w\<lparr>jobs := (jobs w)[a := Some j'], sys := s\<rparr>)))
      | Destroy a \<Rightarrow> (case job_at a w of None \<Rightarrow> fails Undefined
          | Some j \<Rightarrow> bind_run (destroy_job ends j (sys w)) (\<lambda>s.
              returns (w\<lparr>jobs := (jobs w)[a := None], sys := s\<rparr>)))
      | Move_construct a \<Rightarrow> (case job_at a w of None \<Rightarrow> fails Undefined
          | Some j \<Rightarrow> bind_run (run_res (move_job j (sys w))) (\<lambda>(j', other, s).
              returns (w\<lparr>jobs := (jobs w)[a := Some other] @ [Some j'], sys := s\<rparr>)))
      | Move_assign a b \<Rightarrow> (case (job_at a w, job_at b w) of
            (Some j, Some other) \<Rightarrow>
              bind_run (run_res (move_assign_job (a = b) j other (sys w))) (\<lambda>(j', other', s).
                returns (w\<lparr>jobs := (jobs w)[b := Some other', a := Some j'], sys := s\<rparr>))
          | _ \<Rightarrow> fails Undefined))"

definition job_step :: "job_world \<Rightarrow> job_world \<Rightarrow> bool" where
  "job_step w w' \<longleftrightarrow> (\<exists>ends x. run_job_op ends x w = returns w')"

section \<open>The invariant\<close>

text \<open>
  The promise of an object is a shared state whose future is taken, and no other object's;
  an object that has a thread holds the promise and the future the thread stops on; and a
  thread that no object has is told to stop.
\<close>

definition jobs_ok :: "job_world \<Rightarrow> bool" where
  "jobs_ok w \<longleftrightarrow>
     (\<forall>a j p. job_at a w = Some j \<longrightarrow> exit_signal j = Some p \<longrightarrow> p < length (shareds (sys w)) \<and> taken (shareds (sys w) ! p)) \<and>
     (\<forall>a b j k p. job_at a w = Some j \<longrightarrow> job_at b w = Some k \<longrightarrow> exit_signal j = Some p \<longrightarrow> exit_signal k = Some p \<longrightarrow> a = b) \<and>
     (\<forall>a j t. job_at a w = Some j \<longrightarrow> job_thread j = Some t \<longrightarrow> t < length (threads (sys w)) \<and>
        exit_signal j = Some (stop_it (threads (sys w) ! t)) \<and> exit_future j = exit_signal j) \<and>
     (\<forall>t < length (threads (sys w)). stop_it (threads (sys w) ! t) < length (shareds (sys w)) \<and>
        (ready (shareds (sys w) ! stop_it (threads (sys w) ! t)) \<or> (\<exists>a j. job_at a w = Some j \<and> job_thread j = Some t)))"

lemma jobs_okD:
  assumes "jobs_ok w"
  shows "job_at a w = Some j \<Longrightarrow> exit_signal j = Some p \<Longrightarrow> p < length (shareds (sys w)) \<and> taken (shareds (sys w) ! p)"
    and "job_at a w = Some j \<Longrightarrow> job_at b w = Some k \<Longrightarrow> exit_signal j = Some p \<Longrightarrow> exit_signal k = Some p \<Longrightarrow> a = b"
    and "job_at a w = Some j \<Longrightarrow> job_thread j = Some t \<Longrightarrow> t < length (threads (sys w)) \<and>
        exit_signal j = Some (stop_it (threads (sys w) ! t)) \<and> exit_future j = exit_signal j"
    and "t < length (threads (sys w)) \<Longrightarrow> stop_it (threads (sys w) ! t) < length (shareds (sys w))"
    and "t < length (threads (sys w)) \<Longrightarrow> ready (shareds (sys w) ! stop_it (threads (sys w) ! t)) \<or>
        (\<exists>a j. job_at a w = Some j \<and> job_thread j = Some t)"
  using assms unfolding jobs_ok_def by blast+

text \<open>
  Later shared states and threads: nothing is taken back, and no thread stops on another state.
\<close>

definition grows :: "system \<Rightarrow> system \<Rightarrow> bool" where
  "grows s s' \<longleftrightarrow> length (shareds s) \<le> length (shareds s') \<and>
     (\<forall>p < length (shareds s). (taken (shareds s ! p) \<longrightarrow> taken (shareds s' ! p)) \<and>
        (ready (shareds s ! p) \<longrightarrow> ready (shareds s' ! p))) \<and>
     length (threads s') = length (threads s) \<and>
     (\<forall>t < length (threads s). stop_it (threads s' ! t) = stop_it (threads s ! t))"

lemma grows_refl: "grows s s"
  by (simp add: grows_def)

lemma grows_trans: "grows s s' \<Longrightarrow> grows s' s'' \<Longrightarrow> grows s s''"
  unfolding grows_def by (metis dual_order.trans order_less_le_trans)

lemma ready_update:
  "ready ((xs)[i := (xs ! i)\<lparr>ready := True\<rparr>] ! p) \<longleftrightarrow> (p = i \<and> i < length xs) \<or> ready (xs ! p)"
  by (cases "i < length xs"; cases "p = i") (simp_all add: list_update_beyond)

lemma taken_update: "taken ((xs)[i := (xs ! i)\<lparr>ready := True\<rparr>] ! p) \<longleftrightarrow> taken (xs ! p)"
  by (cases "i < length xs"; cases "p = i") (simp_all add: list_update_beyond)

lemma set_signal_grows: "set_signal p s = Inr s' \<Longrightarrow> grows s s'"
  by (auto simp: set_signal_def grows_def ready_update taken_update split: option.splits if_splits)

lemma set_signal_ready: "set_signal (Some p) s = Inr s' \<Longrightarrow> p < length (shareds s) \<Longrightarrow> ready (shareds s' ! p)"
  by (auto simp: set_signal_def split: if_splits)

lemma abandon_grows: "grows s (abandon p s)"
  by (auto simp: abandon_def grows_def ready_update taken_update split: option.splits)

lemma abandon_ready: "p < length (shareds s) \<Longrightarrow> ready (shareds (abandon (Some p) s) ! p)"
  by (simp add: abandon_def)

lemma job_at_update [simp]:
  "job_at a (w\<lparr>sys := s\<rparr>) = job_at a w"
  "job_at a (w\<lparr>jobs := (jobs w)[b := x]\<rparr>) = (if a = b \<and> b < length (jobs w) then x else job_at a w)"
  "job_at a (w\<lparr>jobs := jobs w @ [x]\<rparr>) = (if a = length (jobs w) then x else job_at a w)"
  by (auto simp: job_at_def nth_append nth_list_update)

lemma job_at_length: "job_at a w = Some j \<Longrightarrow> a < length (jobs w)"
  by (auto simp: job_at_def split: if_splits)

text \<open>
  An operation that makes no object: each object has the promise of an earlier one or none,
  and its thread or none; and a thread that loses its object is told to stop.
\<close>

definition from_job :: "job \<Rightarrow> job \<Rightarrow> bool" where
  "from_job j' j \<longleftrightarrow> (exit_signal j' = None \<or> exit_signal j' = exit_signal j) \<and>
     (job_thread j' = None \<or>
      job_thread j' = job_thread j \<and> exit_future j' = exit_future j \<and> exit_signal j' = exit_signal j)"

lemma jobs_ok_change:
  assumes ok: "jobs_ok w" and grows: "grows (sys w) (sys w')"
    and origin: "\<And>a j'. job_at a w' = Some j' \<Longrightarrow> \<exists>j. job_at (f a) w = Some j \<and> from_job j' j"
    and inj: "\<And>a b j k. job_at a w' = Some j \<Longrightarrow> job_at b w' = Some k \<Longrightarrow> exit_signal j \<noteq> None \<Longrightarrow>
      exit_signal k \<noteq> None \<Longrightarrow> f a = f b \<Longrightarrow> a = b"
    and told: "\<And>a j t. job_at a w = Some j \<Longrightarrow> job_thread j = Some t \<Longrightarrow>
      ready (shareds (sys w') ! stop_it (threads (sys w) ! t)) \<or> (\<exists>b k. job_at b w' = Some k \<and> job_thread k = Some t)"
  shows "jobs_ok w'"
proof -
  note d = jobs_okD [OF ok]
  have len: "length (shareds (sys w)) \<le> length (shareds (sys w'))" "length (threads (sys w')) = length (threads (sys w))"
    using grows by (simp_all add: grows_def)
  have state: "taken (shareds (sys w) ! p) \<Longrightarrow> taken (shareds (sys w') ! p)"
    "ready (shareds (sys w) ! p) \<Longrightarrow> ready (shareds (sys w') ! p)" if "p < length (shareds (sys w))" for p
    using grows that by (simp_all add: grows_def)
  have stops: "stop_it (threads (sys w') ! t) = stop_it (threads (sys w) ! t)" if "t < length (threads (sys w))" for t
    using grows that by (simp add: grows_def)
  show ?thesis
    unfolding jobs_ok_def
  proof (intro conjI allI impI)
    fix a j p assume a: "job_at a w' = Some j" "exit_signal j = Some p"
    with origin [OF a(1)] obtain j0 where "job_at (f a) w = Some j0" "exit_signal j0 = Some p"
      by (auto simp: from_job_def)
    from d(1) [OF this] show "p < length (shareds (sys w'))" "taken (shareds (sys w') ! p)"
      using len(1) state(1) by auto
  next
    fix a b j k p
    assume a: "job_at a w' = Some j" "job_at b w' = Some k" "exit_signal j = Some p" "exit_signal k = Some p"
    with origin [OF a(1)] origin [OF a(2)] obtain j0 k0 where
      "job_at (f a) w = Some j0" "exit_signal j0 = Some p" "job_at (f b) w = Some k0" "exit_signal k0 = Some p"
      by (auto simp: from_job_def)
    with d(2) [of "f a" j0 "f b" k0 p] inj [OF a(1,2)] a(3,4) show "a = b" by simp
  next
    fix a j t assume a: "job_at a w' = Some j" "job_thread j = Some t"
    with origin [OF a(1)] obtain j0 where "job_at (f a) w = Some j0" "job_thread j0 = Some t"
      "exit_future j = exit_future j0" "exit_signal j = exit_signal j0"
      by (auto simp: from_job_def)
    with d(3) [of "f a" j0 t] len(2) stops show "t < length (threads (sys w'))"
      "exit_signal j = Some (stop_it (threads (sys w') ! t))" "exit_future j = exit_signal j" by auto
  next
    fix t assume "t < length (threads (sys w'))"
    then have t: "t < length (threads (sys w))" by (simp add: len)
    from d(4) [OF t] stops [OF t] len(1) show "stop_it (threads (sys w') ! t) < length (shareds (sys w'))" by simp
    from d(5) [OF t] told state(2) [OF d(4) [OF t]]
    show "ready (shareds (sys w') ! stop_it (threads (sys w') ! t)) \<or> (\<exists>a j. job_at a w' = Some j \<and> job_thread j = Some t)"
      unfolding stops [OF t] by blast
  qed
qed

lemma from_job_refl [simp]: "from_job j j"
  by (simp add: from_job_def)

lemma jobs_ok_start: "jobs_ok start_world"
  by (simp add: jobs_ok_def start_world_def job_at_def)

lemma stop_jobs_ok:
  assumes ok: "jobs_ok w" and "job_at a w = Some j" and stop: "stop_job j (sys w) = Inr s"
  shows "jobs_ok (w\<lparr>sys := s\<rparr>)"
proof (rule jobs_ok_change [OF ok, where f = "\<lambda>x. x"])
  show "grows (sys w) (sys (w\<lparr>sys := s\<rparr>))"
    using stop by (auto simp: stop_job_def grows_refl set_signal_grows split: if_splits)
qed auto

lemma join_jobs_ok:
  assumes ok: "jobs_ok w" and a: "job_at a w = Some j" and join: "join_job ends j (sys w) = returns (j', s)"
  shows "jobs_ok (w\<lparr>jobs := (jobs w)[a := Some j'], sys := s\<rparr>)"
proof (rule jobs_ok_change [OF ok, where f = "\<lambda>x. x"])
  have j': "s = sys w" "j' = j\<lparr>job_thread := None\<rparr> \<or> j' = j"
    "\<And>t. job_thread j = Some t \<Longrightarrow> ready (shareds (sys w) ! stop_it (threads (sys w) ! t))"
    using join by (auto simp: join_job_def split: option.splits if_splits)
  then show "grows (sys w) (sys (w\<lparr>jobs := (jobs w)[a := Some j'], sys := s\<rparr>))" by (simp add: grows_refl)
  show "\<exists>k. job_at b w = Some k \<and> from_job k' k"
    if "job_at b (w\<lparr>jobs := (jobs w)[a := Some j'], sys := s\<rparr>) = Some k'" for b k'
    using that a j'(2) job_at_length [OF a] by (auto simp: from_job_def split: if_splits)
  show "ready (shareds (sys (w\<lparr>jobs := (jobs w)[a := Some j'], sys := s\<rparr>)) ! stop_it (threads (sys w) ! t)) \<or>
      (\<exists>b k. job_at b (w\<lparr>jobs := (jobs w)[a := Some j'], sys := s\<rparr>) = Some k \<and> job_thread k = Some t)"
    if "job_at b w = Some k" "job_thread k = Some t" for b k t
  proof (cases "b = a")
    case True
    with that a j' show ?thesis by simp
  next
    case False
    with that show ?thesis by auto
  qed
qed

lemma told_to_stop:
  assumes ok: "jobs_ok w" and a: "job_at a w = Some j" "job_thread j = Some t"
    and signal: "set_signal (exit_signal j) (sys w) = Inr s"
  shows "ready (shareds s ! stop_it (threads (sys w) ! t))"
proof -
  note thread = jobs_okD(3) [OF ok a]
  with jobs_okD(4) [OF ok, of t] signal show ?thesis by (auto intro: set_signal_ready)
qed

lemma grows_ready: "grows s s' \<Longrightarrow> p < length (shareds s) \<Longrightarrow> ready (shareds s ! p) \<Longrightarrow> ready (shareds s' ! p)"
  by (simp add: grows_def)

lemma destroy_jobs_ok:
  assumes ok: "jobs_ok w" and a: "job_at a w = Some j" and destroy: "destroy_job ends j (sys w) = returns s"
  shows "jobs_ok (w\<lparr>jobs := (jobs w)[a := None], sys := s\<rparr>)"
proof (rule jobs_ok_change [OF ok, where f = "\<lambda>x. x"])
  obtain s1 where s1: "(if joinable j \<and> exit_future j \<noteq> None then set_signal (exit_signal j) (sys w) else Inr (sys w)) = Inr s1"
    "s = abandon (exit_signal j) s1"
    using destroy by (auto simp: destroy_job_def join_job_def split: sum.splits option.splits if_splits)
  then have g1: "grows (sys w) s1" by (auto simp: grows_refl set_signal_grows split: if_splits)
  then have g: "grows (sys w) s" using s1(2) abandon_grows grows_trans by blast
  then show "grows (sys w) (sys (w\<lparr>jobs := (jobs w)[a := None], sys := s\<rparr>))" by simp
  show "\<exists>k. job_at b w = Some k \<and> from_job k' k"
    if "job_at b (w\<lparr>jobs := (jobs w)[a := None], sys := s\<rparr>) = Some k'" for b k'
    using that by (auto split: if_splits)
  show "ready (shareds (sys (w\<lparr>jobs := (jobs w)[a := None], sys := s\<rparr>)) ! stop_it (threads (sys w) ! t)) \<or>
      (\<exists>b k. job_at b (w\<lparr>jobs := (jobs w)[a := None], sys := s\<rparr>) = Some k \<and> job_thread k = Some t)"
    if t: "job_at b w = Some k" "job_thread k = Some t" for b k t
  proof (cases "b = a")
    case True
    with t a have j: "job_thread j = Some t" by simp
    with jobs_okD(3) [OF ok a, of t] s1(1) have signal: "set_signal (exit_signal j) (sys w) = Inr s1"
      by (auto simp: joinable_def)
    have "stop_it (threads (sys w) ! t) < length (shareds s1)"
      using jobs_okD(3) [OF ok a j] jobs_okD(4) [OF ok, of t] g1 by (auto simp: grows_def)
    with told_to_stop [OF ok a j signal] show ?thesis
      using grows_ready [OF abandon_grows] by (simp add: s1(2))
  next
    case False
    with t show ?thesis by auto
  qed
qed (auto split: if_splits)

text \<open>The promise of an object has given its future away, so the move constructor throws.\<close>

lemma move_construct_throws:
  assumes "jobs_ok w" and "job_at a w = Some j"
  shows "\<exists>e. move_job j (sys w) = Inl e"
proof (cases "exit_signal j")
  case None
  then show ?thesis by (simp add: move_job_def get_future_def Let_def)
next
  case (Some p)
  with jobs_okD(1) [OF assms] show ?thesis by (simp add: move_job_def get_future_def Let_def)
qed

lemma detach_grows: "grows s (s\<lparr>threads := (threads s)[t := (threads s ! t)\<lparr>detached := True\<rparr>]\<rparr>)"
proof -
  have "stop_it ((threads s)[t := (threads s ! t)\<lparr>detached := True\<rparr>] ! u) = stop_it (threads s ! u)" for u
    by (cases "t < length (threads s)"; cases "u = t") (simp_all add: list_update_beyond)
  then show ?thesis by (simp add: grows_def)
qed

lemma move_assign_grows:
  assumes "move_assign_job False j k s = Inr (j', k', s')"
  shows "grows s s'"
    and "joinable j \<Longrightarrow> exit_future j \<noteq> None \<Longrightarrow> \<exists>s1. set_signal (exit_signal j) s = Inr s1 \<and> grows s1 s'"
proof -
  have later: "grows s1 (abandon p (case t of None \<Rightarrow> s1
      | Some t \<Rightarrow> s1\<lparr>threads := (threads s1)[t := (threads s1 ! t)\<lparr>detached := True\<rparr>]\<rparr>))" for s1 p t
    by (cases t) (auto intro: abandon_grows grows_trans [OF detach_grows])
  from assms later show "joinable j \<Longrightarrow> exit_future j \<noteq> None \<Longrightarrow> \<exists>s1. set_signal (exit_signal j) s = Inr s1 \<and> grows s1 s'"
    by (auto simp: move_assign_job_def bind_res_def Let_def split: sum.splits if_splits)
  then show "grows s s'"
    using assms abandon_grows set_signal_grows grows_trans
    by (cases "joinable j \<and> exit_future j \<noteq> None") (auto simp: move_assign_job_def bind_res_def Let_def split: if_splits, blast)
qed

lemma move_assign_jobs_ok:
  assumes ok: "jobs_ok w" and ab: "a \<noteq> b" and a: "job_at a w = Some j" and b: "job_at b w = Some k"
    and move: "move_assign_job False j k (sys w) = Inr (j', k', s)"
  shows "jobs_ok (w\<lparr>jobs := (jobs w)[b := Some k', a := Some j'], sys := s\<rparr>)"
proof (rule jobs_ok_change [OF ok, where f = "\<lambda>x. if x = a then b else x"])
  let ?w = "w\<lparr>jobs := (jobs w)[b := Some k', a := Some j'], sys := s\<rparr>"
  have at: "job_at c (w\<lparr>jobs := (jobs w)[b := Some k', a := Some j']\<rparr>) = (if c = a then Some j' else if c = b then Some k' else job_at c w)" for c
    using job_at_length [OF a] job_at_length [OF b] by (auto simp: job_at_def nth_list_update)
  from move have j': "exit_future j' = exit_future k" "exit_signal j' = exit_signal k" "job_thread j' = job_thread k"
    and k': "exit_signal k' = None" "job_thread k' = None"
    by (auto simp: move_assign_job_def Let_def bind_res_def split: sum.splits if_splits)
  have moved: "\<exists>s1. set_signal (exit_signal j) (sys w) = Inr s1 \<and> grows s1 s" if "job_thread j = Some t" for t
    using move_assign_grows(2) [OF move] jobs_okD(3) [OF ok a that] that by (simp add: joinable_def)
  show "grows (sys w) (sys ?w)" using move_assign_grows(1) [OF move] by simp
  show "\<exists>i. job_at (if c = a then b else c) w = Some i \<and> from_job i' i" if "job_at c ?w = Some i'" for c i'
    using that b j' k' by (auto simp: at from_job_def split: if_splits)
  show "c = d" if "job_at c ?w = Some i" "job_at d ?w = Some l" "exit_signal i \<noteq> None" "exit_signal l \<noteq> None"
    "(if c = a then b else c) = (if d = a then b else d)" for c d i l
    using that ab k' by (auto simp: at split: if_splits)
  show "ready (shareds (sys ?w) ! stop_it (threads (sys w) ! t)) \<or> (\<exists>c l. job_at c ?w = Some l \<and> job_thread l = Some t)"
    if t: "job_at c w = Some i" "job_thread i = Some t" for c i t
  proof (cases "c = a")
    case True
    with t a have j: "job_thread j = Some t" by simp
    obtain s1 where s1: "set_signal (exit_signal j) (sys w) = Inr s1" "grows s1 s" using moved [OF j] by blast
    have "stop_it (threads (sys w) ! t) < length (shareds s1)"
      using jobs_okD(3) [OF ok a j] jobs_okD(4) [OF ok, of t] set_signal_grows [OF s1(1)] by (auto simp: grows_def)
    with told_to_stop [OF ok a j s1(1)] s1(2) show ?thesis using grows_ready by auto
  next
    case False
    then have "job_at (if c = b then a else c) ?w = Some (if c = b then j' else i)" using t ab by (simp add: at)
    with t b j' show ?thesis by (auto split: if_splits)
  qed
qed

text \<open>A new object has a new promise, and the thread it starts is its own.\<close>

lemma new_jobs_ok:
  assumes ok: "jobs_ok w" and j: "exit_future j = Some (length (shareds (sys w)))"
      "exit_signal j = Some (length (shareds (sys w)))"
    and s: "shareds s = shareds (sys w) @ [\<lparr>taken = True, ready = False\<rparr>]"
    and thread: "job_thread j = None \<and> threads s = threads (sys w) \<or>
      job_thread j = Some (length (threads (sys w))) \<and>
      threads s = threads (sys w) @ [\<lparr>stop_it = length (shareds (sys w)), detached = False\<rparr>]"
  shows "jobs_ok (w\<lparr>jobs := jobs w @ [Some j], sys := s\<rparr>)"
proof -
  let ?w = "w\<lparr>jobs := jobs w @ [Some j], sys := s\<rparr>" and ?n = "length (jobs w)"
  note d = jobs_okD [OF ok]
  have at: "job_at a ?w = Some k \<Longrightarrow> a = ?n \<and> k = j \<or> a \<noteq> ?n \<and> job_at a w = Some k" for a k
    by (simp split: if_splits)
  have new: "job_at ?n ?w = Some j" by simp
  have keeps: "job_at a w = Some k \<Longrightarrow> job_at a ?w = Some k" for a k
    using job_at_length [of a w k] by simp
  have fresh: "job_at a w = Some k \<Longrightarrow> exit_signal k = Some p \<Longrightarrow> p < length (shareds (sys w))" for a k p
    using d(1) by blast
  show ?thesis
    unfolding jobs_ok_def
  proof (intro conjI allI impI)
    fix a k p assume a: "job_at a ?w = Some k" "exit_signal k = Some p"
    with at [OF a(1)] d(1) [of a k p] j show "p < length (shareds (sys ?w))" "taken (shareds (sys ?w) ! p)"
      by (auto simp: s nth_append)
  next
    fix a b k l p
    assume a: "job_at a ?w = Some k" "job_at b ?w = Some l" "exit_signal k = Some p" "exit_signal l = Some p"
    with at [OF a(1)] at [OF a(2)] d(2) [of a k b l p] fresh [of a k p] fresh [of b l p] j show "a = b" by auto
  next
    fix a k t assume a: "job_at a ?w = Some k" "job_thread k = Some t"
    with at [OF a(1)] d(3) [of a k t] j thread show "t < length (threads (sys ?w))"
      "exit_signal k = Some (stop_it (threads (sys ?w) ! t))" "exit_future k = exit_signal k"
      by (auto simp: nth_append)
  next
    fix t assume t: "t < length (threads (sys ?w))"
    with d(4) [of t] thread show "stop_it (threads (sys ?w) ! t) < length (shareds (sys ?w))"
      by (auto simp: s nth_append less_Suc_eq)
    show "ready (shareds (sys ?w) ! stop_it (threads (sys ?w) ! t)) \<or> (\<exists>a k. job_at a ?w = Some k \<and> job_thread k = Some t)"
    proof (cases "t < length (threads (sys w))")
      case True
      then have "threads s ! t = threads (sys w) ! t" using thread by (auto simp: nth_append)
      with d(4,5) [OF True] keeps show ?thesis by (auto simp: s nth_append simp del: job_at_update)
    next
      case False
      with t thread have "job_thread j = Some t" by (auto simp: less_Suc_eq)
      with new show ?thesis by blast
    qed
  qed
qed

lemma job_step_ok: "jobs_ok w \<Longrightarrow> job_step w w' \<Longrightarrow> jobs_ok w'"
proof -
  assume ok: "jobs_ok w" and "job_step w w'"
  then obtain ends x where step: "run_job_op ends x w = returns w'" by (auto simp: job_step_def)
  have made: "default_job (sys w) = Inr (j, s) \<or> start_job (sys w) = Inr (j, s) \<Longrightarrow>
      jobs_ok (w\<lparr>jobs := jobs w @ [Some j], sys := s\<rparr>)" for j s
    by (rule new_jobs_ok [OF ok])
      (auto simp: default_job_def start_job_def make_promise_def get_future_def)
  show ?thesis
  proof (cases x)
    case (Move_assign a b)
    with step obtain j k j' k' s where jk: "job_at a w = Some j" "job_at b w = Some k"
      and move: "move_assign_job (a = b) j k (sys w) = Inr (j', k', s)"
      and w': "w' = w\<lparr>jobs := (jobs w)[b := Some k', a := Some j'], sys := s\<rparr>"
      by (auto simp: run_job_op_def run_res_def bind_run_def split: option.splits sum.splits prod.splits)
    show ?thesis
    proof (cases "a = b")
      case True
      with move jk have "j' = j" "k' = j" "s = sys w" by (simp_all add: move_assign_job_def)
      with jk True have "w' = w" by (auto simp: w' job_at_def list_update_same_conv split: if_splits)
      with ok show ?thesis by simp
    next
      case False
      with move have "move_assign_job False j k (sys w) = Inr (j', k', s)" by simp
      from move_assign_jobs_ok [OF ok False jk this] show ?thesis by (simp add: w')
    qed
  next
    case (Move_construct a)
    with step obtain j where a: "job_at a w = Some j" by (auto simp: run_job_op_def split: option.splits)
    from move_construct_throws [OF ok a] obtain e where "move_job j (sys w) = Inl e" by blast
    with a step Move_construct show ?thesis by (simp add: run_job_op_def run_res_def)
  qed (use step ok made in \<open>auto simp: run_job_op_def run_res_def bind_run_def
      split: option.splits sum.splits prod.splits intro: stop_jobs_ok join_jobs_ok destroy_jobs_ok\<close>)
qed

interpretation jw: safe_system start_world job_step jobs_ok
  by unfold_locales (auto intro: jobs_ok_start job_step_ok)

section \<open>The master of a sequence\<close>

text \<open>
  The constructor of \<open>Sequence\<close>: \<open>master_\<close> is made first, without a thread, and is assigned
  a temporary object with one, which is then destroyed. The destructor of \<open>Sequence\<close> stops
  and joins it, and destroys the member.
\<close>

definition make_master :: "(nat \<Rightarrow> bool) \<Rightarrow> system \<Rightarrow> (job \<times> system) run" where
  "make_master ends s =
     bind_run (run_res (default_job s)) (\<lambda>(member, s1).
     bind_run (run_res (start_job s1)) (\<lambda>(temporary, s2).
     bind_run (run_res (move_assign_job False member temporary s2)) (\<lambda>(member', temporary', s3).
     bind_run (destroy_job ends temporary' s3) (\<lambda>s4. returns (member', s4)))))"

definition end_master :: "(nat \<Rightarrow> bool) \<Rightarrow> job \<Rightarrow> system \<Rightarrow> system run" where
  "end_master ends j s =
     bind_run (run_res (stop_job j s)) (\<lambda>s1.
     bind_run (join_job ends j s1) (\<lambda>(j', s2). destroy_job ends j' s2))"

text \<open>
  The thread of the temporary already runs while \<open>master_\<close> is assigned member by member, and
  polls \<open>master_.exit_future_\<close>. The stages are what it can find there if the assignment of
  each member is taken to be one step; in C++ the unsynchronised accesses are a data race.
\<close>

definition assign_stages :: "job \<Rightarrow> job \<Rightarrow> system \<Rightarrow> (job \<times> system) list" where
  "assign_stages this other s =
     (let s1 = abandon (exit_signal this) s;
          j1 = this\<lparr>exit_signal := exit_signal other\<rparr>;
          j2 = j1\<lparr>exit_future := exit_future other\<rparr>;
          j3 = j2\<lparr>job_thread := job_thread other\<rparr>
      in [(this, s), (j1, s1), (j2, s1), (j3, s1)])"

text \<open>A poll of a future without a state is undefined.\<close>

definition poll_exit :: "job \<Rightarrow> system \<Rightarrow> bool option" where
  "poll_exit j s = (case exit_future j of None \<Rightarrow> None | Some p \<Rightarrow> Some (ready (shareds s ! p)))"

text \<open>
  The poll is on a valid future at every stage. It finds the future ready between the first two
  assignments, where the promise of the empty job has been given up and its future is still
  there: the master's function then returns, its queue being empty, and is called again.
\<close>

lemma constructor_stages:
  assumes "default_job s = Inr (member, s1)" and "start_job s1 = Inr (temporary, s2)"
  shows "map (\<lambda>(j, w). poll_exit j w) (assign_stages member temporary s2) = [Some False, Some True, Some False, Some False] \<and>
    (\<exists>empty. move_assign_job False member temporary s2 =
      Inr (fst (last (assign_stages member temporary s2)), empty, snd (last (assign_stages member temporary s2))))"
  using assms
  by (auto simp: default_job_def start_job_def make_promise_def get_future_def assign_stages_def poll_exit_def
      abandon_def move_assign_job_def joinable_def Let_def nth_append)

section \<open>Properties\<close>

text \<open>
  C21. However \<open>ManagedJob\<close> objects are created, moved, stopped, joined and destroyed, as long
  as no operation throws: every thread is held by exactly one live object, whose promise is
  the one the thread stops on, or it has been told to stop; so no thread runs for ever
  without an owner.
\<close>

theorem threads_owned:
  assumes "rtranclp job_step start_world w" and "t < length (threads (sys w))"
  shows "ready (shareds (sys w) ! stop_it (threads (sys w) ! t)) \<or>
    (\<exists>!a. \<exists>j. job_at a w = Some j \<and> job_thread j = Some t \<and> exit_signal j = Some (stop_it (threads (sys w) ! t)))"
proof -
  note d = jobs_okD [OF jw.safe [OF assms(1)]]
  show ?thesis
  proof (cases "ready (shareds (sys w) ! stop_it (threads (sys w) ! t))")
    case False
    with d(5) [OF assms(2)] obtain a j where a: "job_at a w = Some j" "job_thread j = Some t" by blast
    with d(3) [of a j t] d(2) [of a j] show ?thesis by blast
  qed simp
qed

theorem threads_owned_witness:
  "\<exists>w. run_job_op (\<lambda>t. True) Start start_world = returns w \<and> (ready (shareds (sys w) ! stop_it (threads (sys w) ! 0)) \<or>
    (\<exists>!a. \<exists>j. job_at a w = Some j \<and> job_thread j = Some 0 \<and> exit_signal j = Some (stop_it (threads (sys w) ! 0))))"
proof -
  obtain w where w: "run_job_op (\<lambda>t. True) Start start_world = returns w" "length (threads (sys w)) = 1"
    by (simp add: run_job_op_def run_res_def start_world_def start_job_def default_job_def make_promise_def get_future_def)
  then have "job_step start_world w" by (auto simp: job_step_def)
  then have "rtranclp job_step start_world w" by (rule r_into_rtranclp)
  from threads_owned [OF this, of 0] w show ?thesis by auto
qed

text \<open>
  C33. What the operations do on any live object \<open>a\<close> of a program, once it has a thread \<open>t\<close>. As long
  as the thread has not been told to stop, \<open>join\<close> does not return, \<open>stop\<close> tells it, and the
  destructor tells it and waits for it, which takes for ever if the call that the thread is in
  does not return. Once it has been told, \<open>join\<close> returns exactly if that call does, a second
  \<open>stop\<close> throws, and destroying the object terminates the program. An object without a thread
  can be stopped, joined and destroyed at any time.
\<close>

theorem job_operations:
  assumes "rtranclp job_step start_world w" and "job_at a w = Some j"
  shows "case job_thread j of
      None \<Rightarrow> run_job_op ends (Stop a) w = returns w \<and> run_job_op ends (Join a) w = returns w \<and>
        (\<exists>w'. run_job_op ends (Destroy a) w = returns w')
    | Some t \<Rightarrow>
        (if ready (shareds (sys w) ! stop_it (threads (sys w) ! t))
         then run_job_op ends (Stop a) w = fails future_error \<and>
           run_job_op ends (Join a) w = (if ends t then returns (w\<lparr>jobs := (jobs w)[a := Some (j\<lparr>job_thread := None\<rparr>)]\<rparr>) else None) \<and>
           run_job_op ends (Destroy a) w = fails (Fatal ''terminate'')
         else run_job_op ends (Join a) w = None \<and>
           (\<exists>w'. run_job_op ends (Stop a) w = returns w' \<and> jobs w' = jobs w \<and>
             ready (shareds (sys w') ! stop_it (threads (sys w') ! t))) \<and>
           (if ends t
            then \<exists>w'. run_job_op ends (Destroy a) w = returns w' \<and> job_at a w' = None \<and>
              ready (shareds (sys w') ! stop_it (threads (sys w') ! t))
            else run_job_op ends (Destroy a) w = None))"
proof -
  note d = jobs_okD [OF jw.safe [OF assms(1)]]
  note ops = run_job_op_def run_res_def stop_job_def join_job_def destroy_job_def joinable_def assms(2)
  have "(jobs w)[a := Some j] = jobs w"
    using assms(2) by (auto simp: job_at_def list_update_same_conv split: if_splits)
  then have same: "w\<lparr>jobs := (jobs w)[a := Some j]\<rparr> = w" by simp
  show ?thesis
  proof (cases "job_thread j")
    case None
    then show ?thesis using same by (simp add: ops)
  next
    case (Some t)
    with d(3) [OF assms(2)] have t: "t < length (threads (sys w))"
      "exit_signal j = Some (stop_it (threads (sys w) ! t))" "exit_future j = exit_signal j" by simp_all
    from d(4) [OF t(1)] t Some job_at_length [OF assms(2)] show ?thesis
      by (simp add: ops set_signal_def abandon_def)
  qed
qed

theorem job_operations_witness:
  "\<exists>w. run_job_op (\<lambda>t. True) Start start_world = returns w \<and> run_job_op (\<lambda>t. False) (Join 0) w = None \<and>
    run_job_op (\<lambda>t. False) (Destroy 0) w = None"
proof -
  let ?w = "\<lparr>jobs = [Some \<lparr>exit_future = Some 0, exit_signal = Some 0, job_thread = Some 0\<rparr>],
    sys = \<lparr>shareds = [\<lparr>taken = True, ready = False\<rparr>], threads = [\<lparr>stop_it = 0, detached = False\<rparr>]\<rparr>\<rparr>"
  have run: "run_job_op (\<lambda>t. True) Start start_world = returns ?w"
    by (simp add: run_job_op_def run_res_def start_world_def start_job_def default_job_def make_promise_def get_future_def)
  then have "rtranclp job_step start_world ?w" by (intro r_into_rtranclp) (auto simp: job_step_def)
  from job_operations [OF this, of 0 _ "\<lambda>t. False"] run show ?thesis by (simp add: job_at_def)
qed

text \<open>
  The constructor of a sequence gives its member a running thread. The destructor, which stops
  and joins it, tells the thread to stop; it returns, without an exception, exactly if the
  master's function does, which may be asleep.
\<close>

lemma master_lifecycle:
  "\<exists>j s' t. make_master ends s = returns (j, s') \<and> running j s' \<and> job_thread j = Some t \<and>
    (if ends t then \<exists>s''. end_master ends j s' = returns s'' \<and> ready (shareds s'' ! stop_it (threads s'' ! t))
     else end_master ends j s' = None)"
  by (simp add: make_master_def run_res_def default_job_def start_job_def make_promise_def get_future_def
      move_assign_job_def joinable_def destroy_job_def join_job_def abandon_def running_def
      end_master_def stop_job_def set_signal_def Let_def nth_append)

end
