(* ===== verification/Job_Sequence.thy ===== *)
theory Job_Sequence
  imports Cpp_Prelude Step_Systems
begin

text \<open>
  The code of \<open>cppkg/jobs/sequence.h\<close>: a queue of jobs and a master thread that runs them one
  after the other. The model is a step relation over the steps of the master, of the thread
  that runs a job and of the owner of the sequence; a step is what happens under the mutex,
  or one call of the job's function. Jobs are numbered in the order they are attached. One
  thread owns the sequence: it makes all calls of its operations, and waits in \<open>join\<close> and in
  the destructor.
\<close>

section \<open>The state\<close>

text \<open>
  The master: about to test the condition it waits for, asleep in \<open>wait\<close>, waiting for the
  thread that makes call \<open>i\<close> of job \<open>j\<close>, between two runs of its function, or ended.
\<close>

datatype master = Testing | Asleep | Running nat nat | Between | Ended

datatype owner = Using | Waiting | Stopped_jobs | Joining | Gone

text \<open>
  \<open>stopped_\<close>, \<open>stop_signal_\<close> and the exit promise of \<open>master_\<close> are flags; \<open>attached\<close> is the
  number of jobs attached so far, \<open>calls\<close> the calls made, each a job and its argument, and
  \<open>dropped\<close> the jobs that \<open>stop\<close> removed from the queue.
\<close>

record sequence =
  tasks :: "nat list"
  stopped :: bool
  stop_signal :: bool
  exit_signal :: bool
  master :: master
  owner :: owner
  attached :: nat
  calls :: "(nat \<times> nat) list"
  dropped :: "nat list"
  last_future :: "nat option"

definition new_sequence :: sequence where
  "new_sequence = \<lparr>tasks = [], stopped = False, stop_signal = False, exit_signal = False,
     master = Testing, owner = Using, attached = 0, calls = [], dropped = [], last_future = None\<rparr>"

definition notify :: "sequence \<Rightarrow> sequence" where
  "notify s = (if master s = Asleep then s\<lparr>master := Testing\<rparr> else s)"

text \<open>
  The logger's \<open>fatal\<close> is a parameter: the exception it throws, or \<open>None\<close> when it returns
  and the job is enqueued all the same.
\<close>

definition attach_job :: "(string \<Rightarrow> cpp_error option) \<Rightarrow> sequence \<Rightarrow> sequence res" where
  "attach_job fatal s =
     (let j = attached s; s1 = s\<lparr>attached := Suc j, last_future := Some j\<rparr>
      in case (if stopped s then fatal ''cannot attach new job on deleted sequence'' else None) of
           Some e \<Rightarrow> Inl e
         | None \<Rightarrow> Inr (notify (s1\<lparr>tasks := tasks s1 @ [j]\<rparr>)))"

text \<open>\<open>stop\<close>; setting the signal again throws, and the exception is caught.\<close>

definition stop_jobs :: "sequence \<Rightarrow> sequence" where
  "stop_jobs s = notify (s\<lparr>tasks := [], dropped := dropped s @ tasks s, stop_signal := True\<rparr>)"

definition seq_is_running :: "sequence \<Rightarrow> bool" where
  "seq_is_running s = (last_future s \<noteq> None)"

definition running_job :: "sequence \<Rightarrow> nat option" where
  "running_job s = (case master s of Running j i \<Rightarrow> Some j | _ \<Rightarrow> None)"

text \<open>
  The future of the last job is ready once its task has ended or was destroyed in the queue;
  \<open>join\<close> waits for it.
\<close>

definition future_ready :: "sequence \<Rightarrow> bool" where
  "future_ready s = (case last_future s of None \<Rightarrow> False
     | Some j \<Rightarrow> j \<notin> set (tasks s) \<and> running_job s \<noteq> Some j)"

text \<open>
  The master tests its condition: it sleeps while the queue is empty and its exit promise is
  not set; with an empty queue it returns; otherwise it starts the first job.
\<close>

definition test_condition :: "sequence \<Rightarrow> sequence" where
  "test_condition s =
     (if \<not> exit_signal s \<and> tasks s = [] then s\<lparr>master := Asleep\<rparr>
      else case tasks s of
        [] \<Rightarrow> s\<lparr>master := Between\<rparr>
      | j # js \<Rightarrow> s\<lparr>tasks := js, master := Running j 0\<rparr>)"

text \<open>
  One call of the running job, which returns \<open>b\<close>: the job ends when it returns true or when
  the stop signal is set by then. A call that throws also ends it, since the packaged task
  keeps the exception; this is a \<open>b\<close> that is true.
\<close>

definition call_job :: "nat \<Rightarrow> nat \<Rightarrow> bool \<Rightarrow> sequence \<Rightarrow> sequence" where
  "call_job j i b s =
     s\<lparr>calls := calls s @ [(j, i)],
       master := (if b \<or> stop_signal s then Between else Running j (Suc i))\<rparr>"

text \<open>A thread may wake up from \<open>wait\<close> without being notified.\<close>

inductive seq_step :: "sequence \<Rightarrow> sequence \<Rightarrow> bool" where
  Attach: "owner s = Using \<Longrightarrow> attach_job fatal s = Inr s' \<Longrightarrow> seq_step s s'"
| Stop: "owner s = Using \<Longrightarrow> seq_step s (stop_jobs s)"
| Destroy: "owner s = Using \<Longrightarrow> seq_step s ((stop_jobs (s\<lparr>stopped := True\<rparr>))\<lparr>owner := Stopped_jobs\<rparr>)"
| Stop_master: "owner s = Stopped_jobs \<Longrightarrow> seq_step s (s\<lparr>exit_signal := True, owner := Joining\<rparr>)"
| Join: "owner s = Using \<Longrightarrow> seq_is_running s \<Longrightarrow> seq_step s (s\<lparr>owner := Waiting\<rparr>)"
| Join_end: "owner s = Waiting \<Longrightarrow> future_ready s \<Longrightarrow> seq_step s (s\<lparr>owner := Using\<rparr>)"
| Joined: "owner s = Joining \<Longrightarrow> master s = Ended \<Longrightarrow> seq_step s (s\<lparr>owner := Gone\<rparr>)"
| Wake: "master s = Asleep \<Longrightarrow> seq_step s (s\<lparr>master := Testing\<rparr>)"
| Test: "master s = Testing \<Longrightarrow> seq_step s (test_condition s)"
| Call: "master s = Running j i \<Longrightarrow> seq_step s (call_job j i b s)"
| Again: "master s = Between \<Longrightarrow> seq_step s (s\<lparr>master := (if exit_signal s then Ended else Testing)\<rparr>)"

definition seq_reach :: "sequence \<Rightarrow> bool" where
  "seq_reach s \<longleftrightarrow> rtranclp seq_step new_sequence s"

lemma seq_reach_begin: "seq_reach new_sequence"
  by (simp add: seq_reach_def)

lemma seq_reach_next: "seq_reach s \<Longrightarrow> seq_step s s' \<Longrightarrow> seq_reach s'"
  unfolding seq_reach_def by (rule rtranclp.rtrancl_into_rtrancl)

section \<open>The invariant\<close>

text \<open>
  A call may follow another if it is the next of the same job or the first of a later one.
\<close>

definition follows :: "nat \<times> nat \<Rightarrow> nat \<times> nat \<Rightarrow> bool" where
  "follows c d = (case c of (j, i) \<Rightarrow> case d of (k, l) \<Rightarrow> (k = j \<and> l = Suc i) \<or> (j < k \<and> l = 0))"

definition in_order :: "(nat \<times> nat) list \<Rightarrow> bool" where
  "in_order cs \<longleftrightarrow> successively follows cs \<and> (cs \<noteq> [] \<longrightarrow> snd (hd cs) = 0)"

text \<open>The jobs whose turn is over, is now, or is still to come.\<close>

definition before_all :: "(nat \<times> nat) list \<Rightarrow> nat \<Rightarrow> bool" where
  "before_all cs k \<longleftrightarrow> (cs \<noteq> [] \<longrightarrow> fst (last cs) < k)"

definition seq_ok :: "sequence \<Rightarrow> bool" where
  "seq_ok s \<longleftrightarrow> in_order (calls s) \<and> sorted_wrt (<) (tasks s) \<and> (\<forall>t \<in> set (tasks s). t < attached s) \<and>
     (case master s of
        Running j i \<Rightarrow> (\<forall>t \<in> set (tasks s). j < t) \<and> j < attached s \<and>
          (if i = 0 then before_all (calls s) j else calls s \<noteq> [] \<and> last (calls s) = (j, i - 1))
      | _ \<Rightarrow> \<forall>t \<in> set (tasks s). before_all (calls s) t) \<and>
     before_all (calls s) (attached s)"

lemma in_order_snoc:
  "in_order (cs @ [c]) \<longleftrightarrow> in_order cs \<and> (if cs = [] then snd c = 0 else follows (last cs) c)"
  by (auto simp: in_order_def successively_append_iff)

lemma before_all_mono: "before_all cs k \<Longrightarrow> k \<le> l \<Longrightarrow> before_all cs l"
  by (auto simp: before_all_def)

lemma before_all_snoc [simp]: "before_all (cs @ [c]) k \<longleftrightarrow> fst c < k"
  by (simp add: before_all_def)

text \<open>What the invariant says of the queue, whatever the master does.\<close>

definition waiting_ok :: "sequence \<Rightarrow> bool" where
  "waiting_ok s \<longleftrightarrow> in_order (calls s) \<and> sorted_wrt (<) (tasks s) \<and> (\<forall>t \<in> set (tasks s). t < attached s) \<and>
     before_all (calls s) (attached s)"

definition turn_ok :: "sequence \<Rightarrow> bool" where
  "turn_ok s \<longleftrightarrow>
     (case master s of
        Running j i \<Rightarrow> (\<forall>t \<in> set (tasks s). j < t) \<and> j < attached s \<and>
          (if i = 0 then before_all (calls s) j else calls s \<noteq> [] \<and> last (calls s) = (j, i - 1))
      | _ \<Rightarrow> \<forall>t \<in> set (tasks s). before_all (calls s) t)"

lemma seq_ok_split: "seq_ok s \<longleftrightarrow> waiting_ok s \<and> turn_ok s"
  by (auto simp: seq_ok_def waiting_ok_def turn_ok_def)

lemma seq_ok_new: "seq_ok new_sequence"
  by (simp add: seq_ok_def new_sequence_def in_order_def before_all_def)

lemma notify_ok: "seq_ok (notify s) \<longleftrightarrow> seq_ok s"
  by (auto simp: notify_def seq_ok_def split: master.split)

lemma attach_ok: "seq_ok s \<Longrightarrow> attach_job fatal s = Inr s' \<Longrightarrow> seq_ok s'"
proof -
  assume ok: "seq_ok s" and "attach_job fatal s = Inr s'"
  then have s': "s' = notify (s\<lparr>attached := Suc (attached s), last_future := Some (attached s),
      tasks := tasks s @ [attached s]\<rparr>)"
    by (auto simp: attach_job_def Let_def split: option.splits if_splits)
  have "waiting_ok (s\<lparr>attached := Suc (attached s), last_future := Some (attached s), tasks := tasks s @ [attached s]\<rparr>)"
    using ok by (auto simp: seq_ok_split waiting_ok_def sorted_wrt_append less_Suc_eq intro: before_all_mono)
  moreover have "turn_ok (s\<lparr>attached := Suc (attached s), last_future := Some (attached s), tasks := tasks s @ [attached s]\<rparr>)"
    using ok by (auto simp: seq_ok_split waiting_ok_def turn_ok_def split: master.splits if_splits)
  ultimately show ?thesis by (simp only: s' notify_ok) (simp add: seq_ok_split)
qed

lemma stop_ok: "seq_ok s \<Longrightarrow> seq_ok (stop_jobs s)"
  unfolding stop_jobs_def notify_ok by (cases "master s") (auto simp: seq_ok_def)

lemma test_ok: "seq_ok s \<Longrightarrow> master s = Testing \<Longrightarrow> seq_ok (test_condition s)"
  by (cases "tasks s") (auto simp: test_condition_def seq_ok_def)

lemma call_ok: "seq_ok s \<Longrightarrow> master s = Running j i \<Longrightarrow> seq_ok (call_job j i b s)"
  by (auto simp: call_job_def seq_ok_def in_order_snoc follows_def before_all_def split: if_splits)

lemma seq_ok_fields:
  "seq_ok (s\<lparr>stopped := x\<rparr>) = seq_ok s" "seq_ok (s\<lparr>owner := y\<rparr>) = seq_ok s"
  "seq_ok (s\<lparr>exit_signal := x\<rparr>) = seq_ok s"
  by (cases "master s"; simp add: seq_ok_def)+

lemma seq_step_ok: "seq_ok s \<Longrightarrow> seq_step s s' \<Longrightarrow> seq_ok s'"
proof -
  assume ok: "seq_ok s" and step: "seq_step s s'"
  from step show ?thesis
  proof cases
    case (Attach fatal)
    with ok show ?thesis by (blast intro: attach_ok)
  next
    case (Again)
    with ok show ?thesis by (simp add: seq_ok_def)
  next
    case (Wake)
    with ok show ?thesis by (simp add: seq_ok_def)
  qed (simp_all add: ok stop_ok test_ok call_ok seq_ok_fields)
qed

interpretation sq: safe_system new_sequence seq_step seq_ok
  by unfold_locales (auto intro: seq_ok_new seq_step_ok)

lemma seq_reach_ok: "seq_reach s \<Longrightarrow> seq_ok s"
  unfolding seq_reach_def by (rule sq.safe)

section \<open>Properties\<close>

text \<open>
  C18. The jobs of a sequence run one after the other in the order they were attached: in
  every reachable state the calls made so far are, job by job in increasing order, calls with
  0, 1, 2 and so on, a job starts only when no other runs, and the jobs still queued come
  after all that have run.
\<close>

theorem sequence_in_order:
  assumes "seq_reach s"
  shows "successively follows (calls s) \<and> (calls s \<noteq> [] \<longrightarrow> snd (hd (calls s)) = 0) \<and>
    sorted_wrt (<) (tasks s) \<and>
    (\<forall>t \<in> set (tasks s). (\<forall>j i. master s = Running j i \<longrightarrow> j < t) \<and>
      (calls s \<noteq> [] \<and> (\<nexists>j i. master s = Running j i) \<longrightarrow> fst (last (calls s)) < t))"
  using seq_reach_ok [OF assms]
  by (auto simp: seq_ok_def in_order_def before_all_def split: master.splits)

theorem sequence_in_order_witness:
  "successively follows (calls (call_job 0 0 True (test_condition (new_sequence\<lparr>attached := 1, last_future := Some 0, tasks := [0]\<rparr>))))"
proof -
  have "attach_job (\<lambda>m. None) new_sequence = Inr (new_sequence\<lparr>attached := 1, last_future := Some 0, tasks := [0]\<rparr>)"
    by (simp add: attach_job_def new_sequence_def notify_def)
  then have "seq_reach (new_sequence\<lparr>attached := 1, last_future := Some 0, tasks := [0]\<rparr>)"
    by (intro seq_reach_next [OF seq_reach_begin] seq_step.Attach) (simp_all add: new_sequence_def)
  then have "seq_reach (test_condition (new_sequence\<lparr>attached := 1, last_future := Some 0, tasks := [0]\<rparr>))"
    by (rule seq_reach_next) (rule seq_step.Test, simp add: new_sequence_def)
  then have "seq_reach (call_job 0 0 True (test_condition (new_sequence\<lparr>attached := 1, last_future := Some 0, tasks := [0]\<rparr>)))"
    by (rule seq_reach_next) (rule seq_step.Call, simp add: new_sequence_def test_condition_def)
  from sequence_in_order [OF this] show ?thesis by blast
qed

text \<open>
  C23. The destructor can hang: it notifies the master before it sets the master's exit
  promise, so a master that tests its condition in between goes back to sleep, and the
  destructor waits for it with no step left that could wake it, short of a spurious wake-up
  of the thread. This can happen to a sequence that was never given a job.
\<close>

definition hung :: sequence where
  "hung = new_sequence\<lparr>stopped := True, stop_signal := True, exit_signal := True, master := Asleep, owner := Joining\<rparr>"

theorem destructor_can_hang:
  "seq_reach hung \<and> owner hung = Joining \<and> {s'. seq_step hung s'} = {hung\<lparr>master := Testing\<rparr>}"
proof (intro conjI)
  let ?a = "new_sequence\<lparr>master := Asleep\<rparr>"
  let ?b = "new_sequence\<lparr>stopped := True, stop_signal := True, owner := Stopped_jobs\<rparr>"
  let ?c = "?b\<lparr>master := Asleep\<rparr>"
  have "seq_step new_sequence ?a"
    using seq_step.Test [of new_sequence] by (simp add: test_condition_def new_sequence_def)
  then have a: "seq_reach ?a" by (rule seq_reach_next [OF seq_reach_begin])
  have "seq_step ?a ?b"
    using seq_step.Destroy [of ?a] by (simp add: stop_jobs_def notify_def new_sequence_def)
  with a have b: "seq_reach ?b" by (rule seq_reach_next)
  have "seq_step ?b ?c"
    using seq_step.Test [of ?b] by (simp add: test_condition_def new_sequence_def)
  with b have c: "seq_reach ?c" by (rule seq_reach_next)
  have "seq_step ?c hung"
    using seq_step.Stop_master [of ?c] by (simp add: hung_def new_sequence_def)
  with c show "seq_reach hung" by (rule seq_reach_next)
  show "owner hung = Joining" by (simp add: hung_def)
  show "{s'. seq_step hung s'} = {hung\<lparr>master := Testing\<rparr>}"
    using seq_step.Wake [of hung] by (auto simp: hung_def new_sequence_def elim: seq_step.cases)
qed

text \<open>\<open>seq_is_running\<close> still holds after the only job has run to its end.\<close>

lemma is_running_after_end:
  "\<exists>s. seq_reach s \<and> seq_is_running s \<and> tasks s = [] \<and> master s = Between \<and> calls s = [(0, 0)]"
proof -
  let ?a = "new_sequence\<lparr>attached := 1, last_future := Some 0, tasks := [0]\<rparr>"
  have "attach_job (\<lambda>m. None) new_sequence = Inr ?a"
    by (simp add: attach_job_def new_sequence_def notify_def)
  then have "seq_reach ?a"
    by (intro seq_reach_next [OF seq_reach_begin] seq_step.Attach) (simp_all add: new_sequence_def)
  then have "seq_reach (test_condition ?a)"
    by (rule seq_reach_next) (rule seq_step.Test, simp add: new_sequence_def)
  then have "seq_reach (call_job 0 0 True (test_condition ?a))"
    by (rule seq_reach_next) (rule seq_step.Call, simp add: new_sequence_def test_condition_def)
  moreover have "seq_is_running (call_job 0 0 True (test_condition ?a)) \<and> tasks (call_job 0 0 True (test_condition ?a)) = [] \<and>
      master (call_job 0 0 True (test_condition ?a)) = Between \<and> calls (call_job 0 0 True (test_condition ?a)) = [(0, 0)]"
    by (simp add: seq_is_running_def call_job_def test_condition_def new_sequence_def)
  ultimately show ?thesis by blast
qed

end
