(* ===== verification/Sequence_Spec.thy ===== *)
theory Sequence_Spec
  imports Job_Sequence "HOL-Library.Multiset"
begin

text \<open>
  What \<open>Sequence\<close> promises, as a queue with one server: the abstract steps, the simulation of
  the code's steps, and what \<open>join\<close> can rely on.
\<close>

section \<open>The abstract queue\<close>

record fifo =
  queued :: "nat list"
  active :: "nat option"
  over :: "nat list"
  cancelled :: "nat list"
  submitted :: nat

definition fifo_start :: fifo where
  "fifo_start = \<lparr>queued = [], active = None, over = [], cancelled = [], submitted = 0\<rparr>"

inductive fifo_step :: "fifo \<Rightarrow> fifo \<Rightarrow> bool" where
  Submit: "fifo_step q (q\<lparr>queued := queued q @ [submitted q], submitted := Suc (submitted q)\<rparr>)"
| Take: "active q = None \<Longrightarrow> queued q = j # js \<Longrightarrow> fifo_step q (q\<lparr>queued := js, active := Some j\<rparr>)"
| Finish: "active q = Some j \<Longrightarrow> fifo_step q (q\<lparr>active := None, over := over q @ [j]\<rparr>)"
| Cancel: "fifo_step q (q\<lparr>queued := [], cancelled := cancelled q @ queued q\<rparr>)"

text \<open>The jobs that have had their turn, have it now, or will have it.\<close>

definition turns :: "fifo \<Rightarrow> nat list" where
  "turns q = over q @ (case active q of None \<Rightarrow> [] | Some j \<Rightarrow> [j]) @ queued q"

definition fifo_ok :: "fifo \<Rightarrow> bool" where
  "fifo_ok q \<longleftrightarrow> sorted_wrt (<) (turns q) \<and> mset (turns q @ cancelled q) = mset [0..<submitted q]"

lemma fifo_ok_start: "fifo_ok fifo_start"
  by (simp add: fifo_ok_def fifo_start_def turns_def)

lemma fifo_ok_below: "fifo_ok q \<Longrightarrow> j \<in> set (turns q) \<Longrightarrow> j < submitted q"
proof -
  assume ok: "fifo_ok q" and "j \<in> set (turns q)"
  then have "j \<in># mset (turns q @ cancelled q)" by simp
  with ok show ?thesis by (simp add: fifo_ok_def del: mset_append)
qed

lemma fifo_ok_step: "fifo_ok q \<Longrightarrow> fifo_step q q' \<Longrightarrow> fifo_ok q'"
proof -
  assume ok: "fifo_ok q" and "fifo_step q q'"
  from this(2) show ?thesis
  proof cases
    case Submit
    then have "turns q' = turns q @ [submitted q]" by (simp add: turns_def)
    with Submit ok fifo_ok_below [OF ok] show ?thesis by (auto simp: fifo_ok_def sorted_wrt_append)
  next
    case (Take j js)
    then have "turns q' = turns q" by (simp add: turns_def)
    with Take ok show ?thesis by (simp add: fifo_ok_def)
  next
    case (Finish j)
    then have "turns q' = turns q" by (simp add: turns_def)
    with Finish ok show ?thesis by (simp add: fifo_ok_def)
  next
    case Cancel
    then have "turns q = turns q' @ queued q" by (simp add: turns_def)
    with Cancel ok show ?thesis by (simp add: fifo_ok_def sorted_wrt_append ac_simps)
  qed
qed

section \<open>The abstraction\<close>

definition finished_jobs :: "sequence \<Rightarrow> nat list" where
  "finished_jobs s = filter (\<lambda>j. running_job s \<noteq> Some j) (remdups_adj (map fst (calls s)))"

definition abs_seq :: "sequence \<Rightarrow> fifo" where
  "abs_seq s = \<lparr>queued = tasks s, active = running_job s, over = finished_jobs s, cancelled = dropped s,
     submitted = attached s\<rparr>"

lemma abs_seq_start: "abs_seq new_sequence = fifo_start"
  by (simp add: abs_seq_def fifo_start_def new_sequence_def finished_jobs_def running_job_def)

lemma remdups_adj_snoc: "remdups_adj (xs @ [x]) = (if xs \<noteq> [] \<and> last xs = x then remdups_adj xs else remdups_adj xs @ [x])"
  by (induction xs rule: remdups_adj.induct) auto

text \<open>Jobs called so far are at most the last one called.\<close>

lemma called_le_last: "in_order cs \<Longrightarrow> c \<in> set cs \<Longrightarrow> fst c \<le> fst (last cs)"
proof (induction cs rule: rev_induct)
  case (snoc d cs)
  then have "cs \<noteq> [] \<Longrightarrow> fst (last cs) \<le> fst d"
    by (auto simp: in_order_snoc follows_def split: prod.splits)
  moreover have "c \<noteq> d \<Longrightarrow> fst c \<le> fst (last cs)" using snoc by (auto simp: in_order_snoc)
  moreover have "c \<noteq> d \<Longrightarrow> cs \<noteq> []" using snoc by auto
  ultimately show ?case by force
qed simp

lemma running_not_before:
  assumes "seq_ok s" and "before_all (calls s) j"
  shows "j \<notin> set (remdups_adj (map fst (calls s)))"
proof
  assume "j \<in> set (remdups_adj (map fst (calls s)))"
  then obtain c where c: "c \<in> set (calls s)" "fst c = j" by auto
  with assms(1) have "j \<le> fst (last (calls s))" using called_le_last [of "calls s" c] by (auto simp: seq_ok_def)
  moreover have "calls s \<noteq> []" using c by auto
  ultimately show False using assms(2) by (auto simp: before_all_def)
qed

lemma finished_idle: "running_job s = None \<Longrightarrow> finished_jobs s = remdups_adj (map fst (calls s))"
  by (simp add: finished_jobs_def)

lemma called_distinct: "in_order cs \<Longrightarrow> distinct (remdups_adj (map fst cs))"
proof (induction cs rule: rev_induct)
  case (snoc c cs)
  then have cs: "in_order cs" "cs \<noteq> [] \<Longrightarrow> fst (last cs) \<le> fst c"
    by (auto simp: in_order_snoc follows_def split: prod.splits)
  have "fst (last cs) = fst c" if "cs \<noteq> []" "fst c \<in> fst ` set cs"
    using that cs(2) called_le_last [OF cs(1)] by force
  with snoc cs(1) show ?case by (cases "cs = []") (auto simp: remdups_adj_snoc last_map)
qed simp

lemma filter_last: "distinct ys \<Longrightarrow> ys \<noteq> [] \<Longrightarrow> filter (\<lambda>y. last ys \<noteq> y) ys @ [last ys] = ys"
  by (cases ys rule: rev_cases) (auto intro!: filter_True)

text \<open>When the last call of a job has returned, the job joins the finished ones.\<close>

lemma finished_call:
  assumes ok: "seq_ok s" and running: "master s = Running j i"
  shows "remdups_adj (map fst (calls s @ [(j, i)])) = finished_jobs s @ [j]"
proof (cases i)
  case 0
  with ok running have before: "before_all (calls s) j" by (simp add: seq_ok_def)
  from running_not_before [OF ok before] have "finished_jobs s = remdups_adj (map fst (calls s))"
    using running by (auto simp: finished_jobs_def running_job_def intro!: filter_True)
  moreover have "calls s \<noteq> [] \<Longrightarrow> fst (last (calls s)) \<noteq> j"
    using before by (auto simp: before_all_def)
  ultimately show ?thesis by (auto simp: remdups_adj_snoc last_map)
next
  case (Suc k)
  with ok running have last: "calls s \<noteq> []" "last (calls s) = (j, k)" by (simp_all add: seq_ok_def)
  then have "remdups_adj (map fst (calls s @ [(j, i)])) = remdups_adj (map fst (calls s))"
    by (simp add: remdups_adj_snoc last_map)
  moreover have "last (remdups_adj (map fst (calls s))) = j" using last by (simp add: last_map)
  moreover have "distinct (remdups_adj (map fst (calls s)))"
    using ok called_distinct by (simp add: seq_ok_def)
  ultimately show ?thesis
    using filter_last [of "remdups_adj (map fst (calls s))"] last running
    by (simp add: finished_jobs_def running_job_def)
qed

section \<open>The simulation\<close>

lemma abs_notify: "abs_seq (notify s) = abs_seq s"
  by (simp add: abs_seq_def notify_def finished_jobs_def running_job_def)

lemma abs_seq_fields:
  "abs_seq (s\<lparr>owner := x\<rparr>) = abs_seq s" "abs_seq (s\<lparr>exit_signal := y\<rparr>) = abs_seq s"
  "abs_seq (s\<lparr>stopped := z\<rparr>) = abs_seq s"
  by (simp_all add: abs_seq_def finished_jobs_def running_job_def)

lemma abs_attach:
  assumes "attach_job fatal s = Inr s'"
  shows "fifo_step (abs_seq s) (abs_seq s')"
proof -
  let ?s = "s\<lparr>attached := Suc (attached s), last_future := Some (attached s), tasks := tasks s @ [attached s]\<rparr>"
  from assms have "s' = notify ?s"
    by (auto simp: attach_job_def Let_def split: option.splits if_splits)
  moreover have "abs_seq ?s = (abs_seq s)\<lparr>queued := queued (abs_seq s) @ [submitted (abs_seq s)],
      submitted := Suc (submitted (abs_seq s))\<rparr>"
    by (simp add: abs_seq_def finished_jobs_def running_job_def)
  ultimately show ?thesis by (simp add: abs_notify fifo_step.Submit)
qed

lemma abs_stop: "fifo_step (abs_seq s) (abs_seq (stop_jobs s))"
proof -
  have "abs_seq (stop_jobs s) = (abs_seq s)\<lparr>queued := [], cancelled := cancelled (abs_seq s) @ queued (abs_seq s)\<rparr>"
    unfolding stop_jobs_def abs_notify by (simp add: abs_seq_def finished_jobs_def running_job_def)
  then show ?thesis by (simp add: fifo_step.Cancel)
qed

lemma abs_call:
  assumes ok: "seq_ok s" and running: "master s = Running j i"
  shows "abs_seq (call_job j i b s) = abs_seq s \<or> fifo_step (abs_seq s) (abs_seq (call_job j i b s))"
proof (cases "b \<or> stop_signal s")
  case True
  then have "abs_seq (call_job j i b s) = (abs_seq s)\<lparr>active := None, over := over (abs_seq s) @ [j]\<rparr>"
    using finished_call [OF assms] by (simp add: abs_seq_def call_job_def running_job_def finished_jobs_def)
  moreover have "active (abs_seq s) = Some j" using running by (simp add: abs_seq_def running_job_def)
  ultimately show ?thesis using fifo_step.Finish by metis
next
  case False
  have "finished_jobs s = filter (\<lambda>k. k \<noteq> j) (finished_jobs s @ [j])"
    using running by (auto simp: finished_jobs_def running_job_def intro!: filter_cong)
  also have "\<dots> = finished_jobs (call_job j i b s)"
    unfolding finished_call [OF assms, symmetric]
    using False by (auto simp: finished_jobs_def call_job_def running_job_def intro!: filter_cong)
  finally show ?thesis using False running by (simp add: abs_seq_def call_job_def running_job_def)
qed

lemma abs_test:
  assumes ok: "seq_ok s" and testing: "master s = Testing"
  shows "abs_seq (test_condition s) = abs_seq s \<or> fifo_step (abs_seq s) (abs_seq (test_condition s))"
proof (cases "tasks s")
  case Nil
  then show ?thesis using testing
    by (simp add: test_condition_def abs_seq_def finished_jobs_def running_job_def)
next
  case (Cons j js)
  with ok testing have "before_all (calls s) j" by (simp add: seq_ok_def)
  then have "finished_jobs (test_condition s) = finished_jobs s"
    using running_not_before [OF ok, of j] Cons testing
    by (auto simp: test_condition_def finished_jobs_def running_job_def filter_id_conv)
  with Cons testing have "abs_seq (test_condition s) = (abs_seq s)\<lparr>queued := js, active := Some j\<rparr>"
    by (simp add: abs_seq_def test_condition_def running_job_def)
  moreover have "active (abs_seq s) = None" "queued (abs_seq s) = j # js"
    using Cons testing by (simp_all add: abs_seq_def running_job_def)
  ultimately show ?thesis using fifo_step.Take by metis
qed

lemma abs_step:
  assumes ok: "seq_ok s" and "seq_step s s'"
  shows "abs_seq s' = abs_seq s \<or> fifo_step (abs_seq s) (abs_seq s')"
  using assms(2)
proof cases
  case (Attach fatal)
  then show ?thesis by (auto intro: abs_attach)
next
  case Stop
  then show ?thesis by (auto intro: abs_stop)
next
  case Destroy
  then show ?thesis using abs_stop [of "s\<lparr>stopped := True\<rparr>"] by (simp add: abs_seq_fields)
next
  case Test
  then show ?thesis using abs_test [OF ok] by simp
next
  case (Call j i b)
  then show ?thesis using abs_call [OF ok] by simp
qed (simp_all add: abs_seq_def finished_jobs_def running_job_def)

interpretation sqs: simulation new_sequence seq_step seq_ok fifo_start fifo_step abs_seq
  by unfold_locales (auto intro: abs_seq_start abs_step [THEN disjE])

text \<open>What the abstract queue keeps of its jobs, for the sequence.\<close>

lemma seq_reach_fifo_ok: "seq_reach s \<Longrightarrow> fifo_ok (abs_seq s)"
  unfolding seq_reach_def by (rule sqs.transfer) (auto intro: fifo_ok_start fifo_ok_step)

section \<open>Waiting for the last job\<close>

text \<open>
  The future is that of the job attached last; nothing is dropped before the stop signal is
  set; a sleeping master has nothing to do; and the master ends only for the destructor.
\<close>

definition signals_ok :: "sequence \<Rightarrow> bool" where
  "signals_ok s \<longleftrightarrow> last_future s = (if attached s = 0 then None else Some (attached s - 1)) \<and>
     (stop_signal s \<or> dropped s = []) \<and> (master s = Asleep \<longrightarrow> tasks s = []) \<and>
     (master s = Ended \<longrightarrow> exit_signal s) \<and> (exit_signal s \<longrightarrow> owner s \<in> {Joining, Gone})"

lemma signals_okD:
  assumes "signals_ok s"
  shows "last_future s = (if attached s = 0 then None else Some (attached s - 1))"
    and "stop_signal s \<or> dropped s = []"
    and "owner s = Waiting \<Longrightarrow> \<not> exit_signal s"
    and "master s = Asleep \<Longrightarrow> tasks s = []"
    and "master s = Ended \<Longrightarrow> exit_signal s"
  using assms by (auto simp: signals_ok_def)

lemma attach_signals:
  assumes "signals_ok s" and "attach_job fatal s = Inr s'"
  shows "signals_ok s'"
proof -
  from assms(2) have "s' = notify (s\<lparr>attached := Suc (attached s), last_future := Some (attached s),
      tasks := tasks s @ [attached s]\<rparr>)"
    by (auto simp: attach_job_def Let_def split: option.splits if_splits)
  with assms(1) show ?thesis by (auto simp: signals_ok_def notify_def)
qed

lemma signals_step: "signals_ok s \<Longrightarrow> seq_step s s' \<Longrightarrow> signals_ok s'"
proof -
  assume ok: "signals_ok s" and "seq_step s s'"
  from this(2) show ?thesis
  proof cases
    case (Attach fatal)
    with ok show ?thesis by (blast intro: attach_signals)
  next
    case Test
    with ok show ?thesis by (cases "tasks s") (auto simp: signals_ok_def test_condition_def)
  qed (use ok in \<open>auto simp: signals_ok_def stop_jobs_def notify_def call_job_def\<close>)
qed

lemma seq_reach_signals: "seq_reach s \<Longrightarrow> signals_ok s"
  unfolding seq_reach_def
proof (erule sq.safe_with)
  show "signals_ok new_sequence" by (simp add: signals_ok_def new_sequence_def)
qed (rule signals_step)

text \<open>The master's next step, with the results of the calls it makes.\<close>

definition master_step :: "(nat \<Rightarrow> nat \<Rightarrow> bool) \<Rightarrow> sequence \<Rightarrow> sequence" where
  "master_step results s =
     (case master s of
        Testing \<Rightarrow> test_condition s
      | Running j i \<Rightarrow> call_job j i (results j i) s
      | Between \<Rightarrow> s\<lparr>master := (if exit_signal s then Ended else Testing)\<rparr>
      | _ \<Rightarrow> s)"

lemma master_step_reach: "seq_reach s \<Longrightarrow> seq_reach (master_step results s)"
  using seq_step.Test [of s] seq_step.Call [of s] seq_step.Again [of s]
  by (cases "master s") (auto simp: master_step_def intro: seq_reach_next)

definition run_master :: "(nat \<Rightarrow> nat \<Rightarrow> bool) \<Rightarrow> nat \<Rightarrow> sequence \<Rightarrow> sequence" where
  "run_master results n s = (master_step results ^^ n) s"

lemma run_master_simps [simp]:
  "run_master results 0 s = s"
  "run_master results (Suc n) s = run_master results n (master_step results s)"
  by (simp_all add: run_master_def funpow_swap1)

lemma run_then: "\<exists>m. P (run_master results m (run_master results n s)) \<Longrightarrow> \<exists>m. P (run_master results m s)"
proof (erule exE)
  fix m
  assume "P (run_master results m (run_master results n s))"
  then have "P (run_master results (m + n) s)" by (simp add: run_master_def funpow_add)
  then show ?thesis by blast
qed

lemma run_master_reach: "seq_reach s \<Longrightarrow> seq_reach (run_master results n s)"
  by (induction n arbitrary: s) (auto intro: master_step_reach)

definition idle :: "sequence \<Rightarrow> bool" where
  "idle s \<longleftrightarrow> tasks s = [] \<and> running_job s = None"

definition same_owner :: "sequence \<Rightarrow> sequence \<Rightarrow> bool" where
  "same_owner s s' \<longleftrightarrow> owner s' = owner s \<and> exit_signal s' = exit_signal s \<and> stop_signal s' = stop_signal s \<and>
     attached s' = attached s \<and> last_future s' = last_future s"

lemma master_step_owner: "same_owner s (master_step results s)"
  by (cases "master s"; cases "tasks s")
    (simp_all add: same_owner_def master_step_def test_condition_def call_job_def)

lemma run_master_owner: "same_owner s (run_master results n s)"
proof (induction n arbitrary: s)
  case (Suc n)
  from Suc [of "master_step results s"] master_step_owner [of s results] show ?case
    by (simp add: same_owner_def)
qed (simp add: same_owner_def)

text \<open>The running job ends, if one of its next calls returns true.\<close>

lemma run_to_end:
  assumes "master s = Running j i" and "i \<le> k" and "results j k"
  shows "\<exists>n. master (run_master results n s) = Between \<and> tasks (run_master results n s) = tasks s"
  using assms
proof (induction "k - i" arbitrary: s i)
  case 0
  then have "master_step results s = call_job j k True s" by (simp add: master_step_def)
  then show ?case by (intro exI [of _ "Suc 0"]) (simp add: call_job_def)
next
  case (Suc d)
  let ?s = "master_step results s"
  have step: "?s = call_job j i (results j i) s" using Suc(3) by (simp add: master_step_def)
  show ?case
  proof (cases "results j i \<or> stop_signal s")
    case True
    then show ?thesis by (intro exI [of _ "Suc 0"]) (simp add: step call_job_def)
  next
    case False
    then have "master ?s = Running j (Suc i)" "tasks ?s = tasks s" by (simp_all add: step call_job_def)
    moreover have "d = k - Suc i" "Suc i \<le> k" using Suc(2) by simp_all
    ultimately obtain n where "master (run_master results n ?s) = Between" "tasks (run_master results n ?s) = tasks s"
      using Suc(1) [of "Suc i" ?s] Suc(5) by auto
    then show ?thesis by (intro exI [of _ "Suc n"]) simp
  qed
qed

lemma run_exit: "exit_signal (run_master results n s) = exit_signal s"
  using run_master_owner [of s results n] by (simp add: same_owner_def)

text \<open>\<open>results_ok\<close>: every job returns true again and again, so that it ends from any call on.\<close>

definition results_ok :: "(nat \<Rightarrow> nat \<Rightarrow> bool) \<Rightarrow> bool" where
  "results_ok results \<longleftrightarrow> (\<forall>j i. \<exists>k \<ge> i. results j k)"

lemma run_to_idle_between:
  assumes "results_ok results" and "master s = Between" and "\<not> exit_signal s"
  shows "\<exists>n. idle (run_master results n s)"
  using assms(2,3)
proof (induction "length (tasks s)" arbitrary: s)
  case 0
  then show ?case by (intro exI [of _ 0]) (simp add: idle_def running_job_def)
next
  case (Suc l)
  then obtain j js where tasks: "tasks s = j # js" by (cases "tasks s") auto
  let ?s = "run_master results 2 s"
  have s: "master ?s = Running j 0" "tasks ?s = js"
    using Suc(3,4) tasks by (simp_all add: numeral_2_eq_2 master_step_def test_condition_def)
  obtain k where "results j k" using assms(1) by (auto simp: results_ok_def)
  with run_to_end [OF s(1), of k results] s obtain n where
    n: "master (run_master results n ?s) = Between" "tasks (run_master results n ?s) = js" by auto
  from Suc(1) [of "run_master results n ?s"] Suc(2,4) n tasks
  have "\<exists>m. idle (run_master results m (run_master results n ?s))" by (simp add: run_exit)
  then show ?case by (rule run_then [OF run_then])
qed

lemma run_to_idle_running:
  assumes results: "results_ok results" and running: "master s = Running j i" and exit: "\<not> exit_signal s"
  shows "\<exists>n. idle (run_master results n s)"
proof -
  obtain k where "i \<le> k" "results j k" using results by (auto simp: results_ok_def)
  with run_to_end [OF running, of k results] obtain n where "master (run_master results n s) = Between" by auto
  with exit have "\<exists>m. idle (run_master results m (run_master results n s))"
    by (intro run_to_idle_between [OF results]) (simp_all add: run_exit)
  then show ?thesis by (rule run_then)
qed

lemma run_to_idle:
  assumes results: "results_ok results" and ok: "master s = Asleep \<Longrightarrow> tasks s = []" "master s = Ended \<Longrightarrow> exit_signal s"
    and exit: "\<not> exit_signal s"
  shows "\<exists>n. idle (run_master results n s)"
proof (cases "tasks s = [] \<and> running_job s = None")
  case True
  then show ?thesis by (intro exI [of _ 0]) (simp add: idle_def)
next
  case False
  show ?thesis
  proof (cases "master s")
    case Testing
    with False obtain j js where "tasks s = j # js" by (cases "tasks s") (auto simp: running_job_def)
    with Testing have "master (run_master results 1 s) = Running j 0"
      by (simp add: master_step_def test_condition_def)
    with exit have "\<exists>n. idle (run_master results n (run_master results 1 s))"
      by (intro run_to_idle_running [OF results]) (simp_all add: run_exit del: One_nat_def)
    then show ?thesis by (rule run_then)
  next
    case (Running j i)
    with exit show ?thesis by (intro run_to_idle_running [OF results])
  next
    case Between
    with exit show ?thesis by (intro run_to_idle_between [OF results])
  qed (use False ok exit in \<open>auto simp: running_job_def\<close>)
qed

text \<open>If the last of the numbers below \<open>n\<close> is not in the second part, that part is empty.\<close>

lemma sorted_upt_split:
  assumes "sorted_wrt (<) (xs @ ys)" and "mset (xs @ ys) = mset [0..<Suc n]" and "n \<notin> set ys"
  shows "ys = []" and "xs = [0..<Suc n]"
proof -
  have "set (xs @ ys) = set [0..<Suc n]" using assms(2) by (rule mset_eq_setD)
  then have eq: "xs @ ys = [0..<Suc n]"
    using assms(1) by (intro sorted_distinct_set_unique) (simp_all only: strict_sorted_iff sorted_upt distinct_upt)
  show "ys = []"
  proof (rule ccontr)
    assume ys: "ys \<noteq> []"
    then have "last ys = last [0..<Suc n]" using eq by (metis last_appendR)
    then have "last ys = n" by simp
    with ys assms(3) show False by (metis last_in_set)
  qed
  with eq show "xs = [0..<Suc n]" by simp
qed

lemma sequence_accounts:
  assumes "seq_reach s"
  shows "mset (finished_jobs s @ (case running_job s of None \<Rightarrow> [] | Some j \<Rightarrow> [j]) @ tasks s @ dropped s) = mset [0..<attached s]"
    and "sorted_wrt (<) (finished_jobs s @ (case running_job s of None \<Rightarrow> [] | Some j \<Rightarrow> [j]) @ tasks s)"
  using seq_reach_fifo_ok [OF assms] by (simp_all add: fifo_ok_def turns_def abs_seq_def)

text \<open>\<open>join\<close> waits only for a valid future.\<close>

lemma seq_reach_waiting: "seq_reach s \<Longrightarrow> owner s = Waiting \<Longrightarrow> last_future s \<noteq> None"
proof -
  have step: "owner t' = Waiting \<longrightarrow> last_future t' \<noteq> None"
    if "owner t = Waiting \<longrightarrow> last_future t \<noteq> None" "seq_step t t'" for t t'
    using that(2,1) by cases (auto simp: attach_job_def stop_jobs_def notify_def test_condition_def call_job_def
        seq_is_running_def Let_def split: option.splits list.splits if_splits)
  assume "seq_reach s"
  then have "owner s = Waiting \<longrightarrow> last_future s \<noteq> None"
    unfolding seq_reach_def by (rule sq.safe_with) (simp add: new_sequence_def, rule step)
  then show "owner s = Waiting \<Longrightarrow> last_future s \<noteq> None" by simp
qed

section \<open>Properties\<close>

text \<open>
  C17. The sequence behaves like a queue with one server: what it does is a run of the
  abstract queue, in which every job attached is exactly one of finished, running, queued and
  dropped by \<open>stop\<close>, and the jobs that get a turn get it in the order they were attached.
\<close>

theorem sequence_refines_fifo:
  assumes "seq_reach s"
  shows "rtranclp fifo_step fifo_start (abs_seq s) \<and>
    mset (finished_jobs s @ (case running_job s of None \<Rightarrow> [] | Some j \<Rightarrow> [j]) @ tasks s @ dropped s) = mset [0..<attached s] \<and>
    sorted_wrt (<) (finished_jobs s @ (case running_job s of None \<Rightarrow> [] | Some j \<Rightarrow> [j]) @ tasks s)"
  using sqs.simulates [of s] sequence_accounts [OF assms] assms by (simp add: seq_reach_def)

text \<open>A sequence with one job attached, waited for by \<open>join\<close>.\<close>

definition one_job :: sequence where
  "one_job = new_sequence\<lparr>attached := 1, last_future := Some 0, tasks := [0]\<rparr>"

lemma one_job_reach: "seq_reach one_job" "seq_reach (one_job\<lparr>owner := Waiting\<rparr>)"
proof -
  have "attach_job (\<lambda>m. None) new_sequence = Inr one_job"
    by (simp add: attach_job_def one_job_def new_sequence_def notify_def)
  then show one: "seq_reach one_job"
    by (intro seq_reach_next [OF seq_reach_begin] seq_step.Attach) (simp_all add: new_sequence_def)
  show "seq_reach (one_job\<lparr>owner := Waiting\<rparr>)"
    by (rule seq_reach_next [OF one], rule seq_step.Join) (simp_all add: one_job_def new_sequence_def seq_is_running_def)
qed

theorem sequence_refines_fifo_witness:
  "mset (finished_jobs one_job @ (case running_job one_job of None \<Rightarrow> [] | Some j \<Rightarrow> [j]) @ tasks one_job @ dropped one_job)
    = mset [0..<attached one_job]"
  using sequence_refines_fifo [OF one_job_reach(1)] by blast

text \<open>
  C13. While \<open>stop\<close> has not been called, \<open>join\<close> returns only when every job attached so far
  has finished; and it does return, if the jobs end: then the steps of the master make the
  future ready, whatever state it is called in.
\<close>

theorem join_completes:
  assumes "seq_reach s" and "owner s = Waiting" and "\<not> stop_signal s" and "results_ok results"
  shows "(future_ready s \<longrightarrow> idle s \<and> finished_jobs s = [0..<attached s]) \<and>
    (\<exists>n. seq_reach (run_master results n s) \<and> owner (run_master results n s) = Waiting \<and>
      future_ready (run_master results n s))"
proof (intro conjI impI)
  note signals = signals_okD [OF seq_reach_signals [OF assms(1)]]
  assume ready: "future_ready s"
  with signals(1) obtain n where n: "attached s = Suc n" "last_future s = Some n"
    by (cases "attached s") (simp_all add: future_ready_def)
  let ?rest = "(case running_job s of None \<Rightarrow> [] | Some j \<Rightarrow> [j]) @ tasks s"
  have "n \<notin> set ?rest" using ready n(2) by (auto simp: future_ready_def split: option.splits)
  with sequence_accounts [OF assms(1)] signals(2) assms(3) n(1)
  have "?rest = []" "finished_jobs s = [0..<Suc n]"
    using sorted_upt_split [of "finished_jobs s" ?rest n] by simp_all
  then show "idle s" "finished_jobs s = [0..<attached s]"
    using n(1) by (auto simp: idle_def split: option.splits)
next
  note ok = seq_reach_signals [OF assms(1)]
  from run_to_idle [OF assms(4) signals_okD(4,5) [OF ok] signals_okD(3) [OF ok assms(2)]] obtain n
    where n: "idle (run_master results n s)" by blast
  have "last_future (run_master results n s) \<noteq> None"
    using run_master_owner [of s results n] seq_reach_waiting [OF assms(1,2)] by (simp add: same_owner_def)
  with n have "future_ready (run_master results n s)" by (auto simp: idle_def future_ready_def)
  then show "\<exists>n. seq_reach (run_master results n s) \<and> owner (run_master results n s) = Waiting \<and>
      future_ready (run_master results n s)"
    using run_master_owner [of s results n] run_master_reach [OF assms(1)] assms(2)
    by (auto simp: same_owner_def)
qed

theorem join_completes_witness:
  "\<exists>n. seq_reach (run_master (\<lambda>j i. i = i) n (one_job\<lparr>owner := Waiting\<rparr>)) \<and>
    owner (run_master (\<lambda>j i. i = i) n (one_job\<lparr>owner := Waiting\<rparr>)) = Waiting \<and>
    future_ready (run_master (\<lambda>j i. i = i) n (one_job\<lparr>owner := Waiting\<rparr>))"
  by (rule conjunct2 [OF join_completes [OF one_job_reach(2)]])
    (auto simp: one_job_def new_sequence_def results_ok_def)

text \<open>
  After \<open>stop\<close>, \<open>join\<close> can return while a job is still running: the last job was dropped
  from the queue, so its future is ready, while an earlier one has not ended.
\<close>

definition early :: sequence where
  "early = new_sequence\<lparr>attached := 2, last_future := Some 1, dropped := [1], stop_signal := True,
     master := Running 0 0, owner := Waiting\<rparr>"

lemma join_early_after_stop:
  "seq_reach early \<and> seq_is_running early \<and> running_job early = Some 0 \<and> seq_step early (early\<lparr>owner := Using\<rparr>)"
proof (intro conjI)
  let ?a = "one_job\<lparr>tasks := [], master := Running 0 0\<rparr>"
  let ?b = "?a\<lparr>attached := 2, last_future := Some 1, tasks := [1]\<rparr>"
  have "test_condition one_job = ?a" by (simp add: test_condition_def one_job_def new_sequence_def)
  then have "seq_reach ?a"
    using seq_reach_next [OF one_job_reach(1) seq_step.Test] by (simp add: one_job_def new_sequence_def)
  moreover have "seq_step ?a ?b"
    by (rule seq_step.Attach [where fatal = "\<lambda>m. None"])
      (simp_all add: attach_job_def one_job_def new_sequence_def notify_def)
  ultimately have "seq_reach ?b" by (rule seq_reach_next)
  then have "seq_reach (stop_jobs ?b)"
    by (rule seq_reach_next) (rule seq_step.Stop, simp add: one_job_def new_sequence_def)
  then have "seq_reach ((stop_jobs ?b)\<lparr>owner := Waiting\<rparr>)"
    by (rule seq_reach_next) (rule seq_step.Join,
      simp_all add: one_job_def new_sequence_def stop_jobs_def notify_def seq_is_running_def)
  moreover have "(stop_jobs ?b)\<lparr>owner := Waiting\<rparr> = early"
    by (simp add: early_def one_job_def new_sequence_def stop_jobs_def notify_def)
  ultimately show "seq_reach early" by simp
  show "seq_is_running early" "running_job early = Some 0"
    by (simp_all add: early_def new_sequence_def seq_is_running_def running_job_def)
  show "seq_step early (early\<lparr>owner := Using\<rparr>)"
    by (rule seq_step.Join_end) (simp_all add: early_def new_sequence_def future_ready_def running_job_def)
qed

end
