(* ===== verification/Sequence_Threads.thy ===== *)
theory Sequence_Threads
  imports Sequence_Spec "HOL-Library.Sublist"
begin

text \<open>
  One \<open>Sequence\<close> of \<open>cppkg/jobs/sequence.h\<close> used by several threads. \<open>attach_job\<close> then takes
  two steps: it makes the packaged task and assigns its future to \<open>last_future_\<close> without the
  mutex, and later enqueues the task under it. \<open>join\<close> waits for the future it finds. The
  assignment itself is taken to be one step; in C++ two such assignments at the same time
  are a data race, which has no defined outcome at all.
\<close>

section \<open>The state\<close>

text \<open>
  A thread is outside the operations, or in \<open>attach_job\<close> with a task made and not yet
  enqueued, or in \<open>join\<close>, waiting for the future of a task. Tasks are numbered in the order
  they are made.
\<close>

datatype caller = Outside | Holding nat | Awaiting nat

text \<open>
  \<open>base\<close> is the sequence as the theory Job_Sequence has it, its jobs numbered in the order
  they are enqueued; \<open>order\<close> gives the task of each such job and \<open>makers\<close> the thread that
  made each task; \<open>latest\<close> is \<open>last_future_\<close>.
\<close>

record shared_seq =
  base :: sequence
  makers :: "nat list"
  order :: "nat list"
  latest :: "nat option"
  caller_at :: "nat \<Rightarrow> caller"

definition new_shared :: shared_seq where
  "new_shared = \<lparr>base = new_sequence, makers = [], order = [], latest = None, caller_at = (\<lambda>t. Outside)\<rparr>"

section \<open>The operations\<close>

definition prepare_job :: "nat \<Rightarrow> shared_seq \<Rightarrow> shared_seq" where
  "prepare_job t c =
     (let k = length (makers c)
      in c\<lparr>makers := makers c @ [t], latest := Some k, caller_at := (caller_at c)(t := Holding k)\<rparr>)"

definition enqueue_job :: "(string \<Rightarrow> cpp_error option) \<Rightarrow> nat \<Rightarrow> nat \<Rightarrow> shared_seq \<Rightarrow> shared_seq res" where
  "enqueue_job fatal t k c =
     (let s = base c; j = attached s
      in case (if stopped s then fatal ''cannot attach new job on deleted sequence'' else None) of
           Some e \<Rightarrow> Inl e
         | None \<Rightarrow> Inr (c\<lparr>base := notify (s\<lparr>attached := Suc j, tasks := tasks s @ [j]\<rparr>),
             order := order c @ [k], caller_at := (caller_at c)(t := Outside)\<rparr>))"

definition begin_join :: "nat \<Rightarrow> shared_seq \<Rightarrow> shared_seq" where
  "begin_join t c = (case latest c of
     None \<Rightarrow> c
   | Some k \<Rightarrow> c\<lparr>caller_at := (caller_at c)(t := Awaiting k)\<rparr>)"

text \<open>A future is ready once its task was enqueued, and has ended or was dropped.\<close>

definition task_ready :: "nat \<Rightarrow> shared_seq \<Rightarrow> bool" where
  "task_ready k c = list_ex (\<lambda>p. order c ! p = k \<and> p \<notin> set (tasks (base c)) \<and> running_job (base c) \<noteq> Some p)
     [0..<length (order c)]"

definition all_outside :: "shared_seq \<Rightarrow> bool" where
  "all_outside c \<longleftrightarrow> (\<forall>t. caller_at c t = Outside)"

text \<open>
  The steps of the threads and of the master. The sequence is destroyed only when no thread
  is in one of its operations.
\<close>

inductive shared_step :: "shared_seq \<Rightarrow> shared_seq \<Rightarrow> bool" where
  Prepare: "owner (base c) = Using \<Longrightarrow> caller_at c t = Outside \<Longrightarrow> shared_step c (prepare_job t c)"
| Enqueue: "caller_at c t = Holding k \<Longrightarrow> enqueue_job fatal t k c = Inr c' \<Longrightarrow> shared_step c c'"
| Stop: "owner (base c) = Using \<Longrightarrow> caller_at c t = Outside \<Longrightarrow> shared_step c (c\<lparr>base := stop_jobs (base c)\<rparr>)"
| Join: "owner (base c) = Using \<Longrightarrow> caller_at c t = Outside \<Longrightarrow> shared_step c (begin_join t c)"
| Join_end: "caller_at c t = Awaiting k \<Longrightarrow> task_ready k c \<Longrightarrow>
    shared_step c (c\<lparr>caller_at := (caller_at c)(t := Outside)\<rparr>)"
| Destroy: "owner (base c) = Using \<Longrightarrow> all_outside c \<Longrightarrow>
    shared_step c (c\<lparr>base := (stop_jobs ((base c)\<lparr>stopped := True\<rparr>))\<lparr>owner := Stopped_jobs\<rparr>\<rparr>)"
| Stop_master: "owner (base c) = Stopped_jobs \<Longrightarrow>
    shared_step c (c\<lparr>base := (base c)\<lparr>exit_signal := True, owner := Joining\<rparr>\<rparr>)"
| Joined: "owner (base c) = Joining \<Longrightarrow> master (base c) = Ended \<Longrightarrow>
    shared_step c (c\<lparr>base := (base c)\<lparr>owner := Gone\<rparr>\<rparr>)"
| Wake: "master (base c) = Asleep \<Longrightarrow> shared_step c (c\<lparr>base := (base c)\<lparr>master := Testing\<rparr>\<rparr>)"
| Test: "master (base c) = Testing \<Longrightarrow> shared_step c (c\<lparr>base := test_condition (base c)\<rparr>)"
| Call: "master (base c) = Running j i \<Longrightarrow> shared_step c (c\<lparr>base := call_job j i b (base c)\<rparr>)"
| Again: "master (base c) = Between \<Longrightarrow>
    shared_step c (c\<lparr>base := (base c)\<lparr>master := (if exit_signal (base c) then Ended else Testing)\<rparr>\<rparr>)"

definition shared_reach :: "shared_seq \<Rightarrow> bool" where
  "shared_reach c \<longleftrightarrow> rtranclp shared_step new_shared c"

lemma shared_reach_begin: "shared_reach new_shared"
  by (simp add: shared_reach_def)

lemma shared_reach_next: "shared_reach c \<Longrightarrow> shared_step c c' \<Longrightarrow> shared_reach c'"
  unfolding shared_reach_def by (rule rtranclp.rtrancl_into_rtrancl)

text \<open>A single thread's \<open>attach_job\<close> is the two steps, one after the other.\<close>

lemma attach_in_two_steps:
  assumes "attached (base c) = length (makers c)"
  shows "enqueue_job fatal t (length (makers c)) (prepare_job t c) =
    (case attach_job fatal (base c) of
       Inl e \<Rightarrow> Inl e
     | Inr s \<Rightarrow> Inr (c\<lparr>base := s\<lparr>last_future := last_future (base c)\<rparr>, makers := makers c @ [t],
         order := order c @ [length (makers c)], latest := last_future s,
         caller_at := (caller_at c)(t := Outside)\<rparr>))"
  using assms
  by (auto simp: enqueue_job_def prepare_job_def attach_job_def notify_def Let_def split: option.split)

section \<open>The invariant\<close>

text \<open>
  The tasks enqueued are different from each other and were made; a thread holds a task it
  made, later than all those of its own that it enqueued; the threads are outside once the
  destructor runs; and the tasks of one thread are enqueued in the order it made them.
\<close>

definition enqueued_by :: "nat \<Rightarrow> shared_seq \<Rightarrow> nat list" where
  "enqueued_by t c = filter (\<lambda>k. makers c ! k = t) (order c)"

definition holds_ok :: "nat \<Rightarrow> shared_seq \<Rightarrow> bool" where
  "holds_ok t c \<longleftrightarrow> (\<forall>k. caller_at c t = Holding k \<longrightarrow>
     k < length (makers c) \<and> makers c ! k = t \<and> k \<notin> set (order c) \<and> (\<forall>l \<in> set (enqueued_by t c). l < k))"

definition shared_ok :: "shared_seq \<Rightarrow> bool" where
  "shared_ok c \<longleftrightarrow> length (order c) = attached (base c) \<and> distinct (order c) \<and>
     (\<forall>k \<in> set (order c). k < length (makers c)) \<and> (\<forall>t. sorted_wrt (<) (enqueued_by t c) \<and> holds_ok t c) \<and>
     (owner (base c) \<noteq> Using \<longrightarrow> all_outside c) \<and> owner (base c) \<noteq> Waiting \<and>
     (stopped (base c) \<longrightarrow> owner (base c) \<noteq> Using)"


lemma shared_ok_new: "shared_ok new_shared"
  by (simp add: shared_ok_def new_shared_def new_sequence_def enqueued_by_def holds_ok_def)

lemma all_outsideD: "all_outside c \<Longrightarrow> caller_at c t = Outside"
  by (simp add: all_outside_def)

lemma inside_in_use: "shared_ok c \<Longrightarrow> caller_at c t \<noteq> Outside \<Longrightarrow> owner (base c) = Using"
  by (auto simp: shared_ok_def dest: all_outsideD)

text \<open>Steps that leave the tasks alone.\<close>

lemma shared_ok_base:
  assumes "shared_ok c" and "attached s = attached (base c)"
    and "owner s \<noteq> Using \<longrightarrow> all_outside c" and "owner s \<noteq> Waiting"
    and "stopped s \<longrightarrow> owner s \<noteq> Using"
  shows "shared_ok (c\<lparr>base := s\<rparr>)"
  using assms by (auto simp: shared_ok_def enqueued_by_def holds_ok_def all_outside_def)

lemma shared_ok_leaves:
  assumes "shared_ok c" and "owner (base c) = Using" and "\<And>k. x \<noteq> Holding k"
  shows "shared_ok (c\<lparr>caller_at := (caller_at c)(t := x)\<rparr>)"
  using assms by (auto simp: shared_ok_def enqueued_by_def holds_ok_def)

lemma enqueued_by_prepare:
  "\<forall>k \<in> set (order c). k < length (makers c) \<Longrightarrow> enqueued_by u (prepare_job t c) = enqueued_by u c"
  by (auto simp: enqueued_by_def prepare_job_def Let_def nth_append intro!: filter_cong)

lemma prepare_ok:
  assumes ok: "shared_ok c" and in_use: "owner (base c) = Using"
  shows "shared_ok (prepare_job t c)"
proof -
  let ?c = "prepare_job t c"
  from ok have below: "\<forall>k \<in> set (order c). k < length (makers c)" by (simp add: shared_ok_def)
  note same = enqueued_by_prepare [OF below]
  have "holds_ok u ?c" for u
  proof -
    have "holds_ok u c" using ok by (simp add: shared_ok_def)
    then show ?thesis
      using below by (auto simp: holds_ok_def same prepare_job_def Let_def nth_append enqueued_by_def)
  qed
  moreover have "\<forall>k \<in> set (order ?c). k < length (makers ?c)"
    using below by (auto simp: prepare_job_def Let_def)
  moreover have "sorted_wrt (<) (enqueued_by u ?c)" for u
    using ok by (simp add: same shared_ok_def)
  ultimately show ?thesis using ok in_use by (simp add: shared_ok_def prepare_job_def Let_def)
qed

lemma enqueue_Inr:
  assumes "enqueue_job fatal t k c = Inr c'"
  shows "c' = c\<lparr>base := notify ((base c)\<lparr>attached := Suc (attached (base c)), tasks := tasks (base c) @ [attached (base c)]\<rparr>),
    order := order c @ [k], caller_at := (caller_at c)(t := Outside)\<rparr>"
  using assms by (auto simp: enqueue_job_def Let_def split: option.splits if_splits)

lemma notify_fields [simp]:
  "attached (notify s) = attached s" "owner (notify s) = owner s" "stopped (notify s) = stopped s"
  "tasks (notify s) = tasks s" "dropped (notify s) = dropped s" "calls (notify s) = calls s"
  "last_future (notify s) = last_future s"
  by (simp_all add: notify_def)

lemma enqueue_ok:
  assumes ok: "shared_ok c" and holding: "caller_at c t = Holding k" and "enqueue_job fatal t k c = Inr c'"
  shows "shared_ok c'"
proof -
  note c' = enqueue_Inr [OF assms(3)]
  from ok holding have k: "k < length (makers c)" "makers c ! k = t" "k \<notin> set (order c)"
      "\<forall>l \<in> set (enqueued_by t c). l < k"
    by (simp_all add: shared_ok_def holds_ok_def)
  have enq: "enqueued_by u c' = enqueued_by u c @ (if u = t then [k] else [])" for u
    using k by (simp add: enqueued_by_def c')
  from ok holding have in_use: "owner (base c) = Using" by (simp add: inside_in_use [of c t])
  have "holds_ok u c'" for u
  proof -
    have "holds_ok u c" using ok by (simp add: shared_ok_def)
    moreover have "makers c' = makers c" "caller_at c' = (caller_at c)(t := Outside)" "order c' = order c @ [k]"
      by (simp_all add: c')
    ultimately show ?thesis using k by (auto simp: holds_ok_def enq)
  qed
  moreover have "sorted_wrt (<) (enqueued_by u c')" for u
    using ok k by (auto simp: enq shared_ok_def sorted_wrt_append)
  ultimately show ?thesis using ok in_use k by (auto simp: shared_ok_def c')
qed

lemma shared_step_ok: "shared_ok c \<Longrightarrow> shared_step c c' \<Longrightarrow> shared_ok c'"
proof -
  assume ok: "shared_ok c" and step: "shared_step c c'"
  have keep: "shared_ok (c\<lparr>base := s\<rparr>)" if "attached s = attached (base c)"
    "owner s = owner (base c) \<and> stopped s = stopped (base c) \<or> all_outside c \<and> owner s \<notin> {Using, Waiting}" for s
    using that ok by (intro shared_ok_base) (auto simp: shared_ok_def)
  have out: "owner (base c) \<noteq> Using \<Longrightarrow> all_outside c" using ok by (simp add: shared_ok_def)
  from step show ?thesis
  proof cases
    case (Prepare t)
    with ok show ?thesis by (simp add: prepare_ok)
  next
    case (Enqueue t k fatal)
    with ok show ?thesis by (blast intro: enqueue_ok)
  next
    case (Join t)
    with ok show ?thesis by (auto simp: begin_join_def shared_ok_leaves split: option.split)
  next
    case (Join_end t k)
    with ok show ?thesis by (simp add: shared_ok_leaves inside_in_use [of c t])
  next
    case Test
    with keep show ?thesis by (cases "tasks (base c)") (simp_all add: test_condition_def)
  qed (simp_all add: keep out stop_jobs_def call_job_def)
qed

interpretation sh: safe_system new_shared shared_step shared_ok
  by unfold_locales (auto intro: shared_ok_new shared_step_ok)

lemma shared_reach_ok: "shared_reach c \<Longrightarrow> shared_ok c"
  unfolding shared_reach_def by (rule sh.safe)


section \<open>The same sequence with one owner\<close>

text \<open>
  What the threads do to the queue is what one owner does who attaches the jobs when they are
  enqueued; only the future is another one.
\<close>

definition as_owned :: "shared_seq \<Rightarrow> sequence" where
  "as_owned c = (base c)\<lparr>last_future := (if attached (base c) = 0 then None else Some (attached (base c) - 1))\<rparr>"

lemma as_owned_fields [simp]:
  "tasks (as_owned c) = tasks (base c)" "calls (as_owned c) = calls (base c)"
  "dropped (as_owned c) = dropped (base c)" "master (as_owned c) = master (base c)"
  "attached (as_owned c) = attached (base c)" "owner (as_owned c) = owner (base c)"
  "stopped (as_owned c) = stopped (base c)" "stop_signal (as_owned c) = stop_signal (base c)"
  "running_job (as_owned c) = running_job (base c)" "finished_jobs (as_owned c) = finished_jobs (base c)"
  by (simp_all add: as_owned_def running_job_def finished_jobs_def)

lemma owned_enqueue:
  assumes "enqueue_job fatal t k c = Inr c'" and "owner (base c) = Using"
  shows "seq_step (as_owned c) (as_owned c')"
proof (rule seq_step.Attach)
  show "owner (as_owned c) = Using" using assms(2) by simp
  show "attach_job fatal (as_owned c) = Inr (as_owned c')"
    using assms(1) by (auto simp: enqueue_job_def attach_job_def as_owned_def notify_def Let_def
        split: option.splits if_splits)
qed

lemma owned_step:
  assumes ok: "shared_ok c" and step: "shared_step c c'"
  shows "as_owned c' = as_owned c \<or> seq_step (as_owned c) (as_owned c')"
  using step
proof cases
  case (Enqueue t k fatal)
  then show ?thesis using owned_enqueue [of fatal t k c c'] inside_in_use [OF ok, of t] by simp
next
  case Stop
  then have "as_owned c' = stop_jobs (as_owned c)" by (simp add: as_owned_def stop_jobs_def notify_def)
  with Stop show ?thesis using seq_step.Stop [of "as_owned c"] by simp
next
  case Destroy
  then have "as_owned c' = (stop_jobs ((as_owned c)\<lparr>stopped := True\<rparr>))\<lparr>owner := Stopped_jobs\<rparr>"
    by (simp add: as_owned_def stop_jobs_def notify_def)
  with Destroy show ?thesis using seq_step.Destroy [of "as_owned c"] by simp
next
  case Stop_master
  then have "as_owned c' = (as_owned c)\<lparr>exit_signal := True, owner := Joining\<rparr>"
    by (simp add: as_owned_def)
  with Stop_master show ?thesis using seq_step.Stop_master [of "as_owned c"] by simp
next
  case Joined
  then have "as_owned c' = (as_owned c)\<lparr>owner := Gone\<rparr>"
    by (simp add: as_owned_def)
  with Joined show ?thesis using seq_step.Joined [of "as_owned c"] by simp
next
  case Wake
  then have "as_owned c' = (as_owned c)\<lparr>master := Testing\<rparr>"
    by (simp add: as_owned_def)
  with Wake show ?thesis using seq_step.Wake [of "as_owned c"] by simp
next
  case Test
  then have "as_owned c' = test_condition (as_owned c)"
    by (simp add: as_owned_def test_condition_def split: list.split)
  with Test show ?thesis using seq_step.Test [of "as_owned c"] by simp
next
  case (Call j i b)
  then have "as_owned c' = call_job j i b (as_owned c)" by (simp add: as_owned_def call_job_def)
  with Call show ?thesis using seq_step.Call [of "as_owned c" j i b] by simp
next
  case Again
  then have "as_owned c' = (as_owned c)\<lparr>master := (if exit_signal (as_owned c) then Ended else Testing)\<rparr>"
    by (simp add: as_owned_def)
  with Again show ?thesis using seq_step.Again [of "as_owned c"] by simp
qed (simp_all add: as_owned_def prepare_job_def begin_join_def Let_def split: option.split)

interpretation shs: simulation new_shared shared_step shared_ok new_sequence seq_step as_owned
  by unfold_locales (auto simp: as_owned_def new_shared_def new_sequence_def dest: owned_step)

lemma shared_reach_owned: "shared_reach c \<Longrightarrow> seq_reach (as_owned c)"
  unfolding shared_reach_def seq_reach_def by (rule shs.simulates)


text \<open>The tasks that have had their turn, have it, or wait for it in the queue.\<close>

definition turn_tasks :: "shared_seq \<Rightarrow> nat list" where
  "turn_tasks c = map ((!) (order c)) (finished_jobs (base c) @
     (case running_job (base c) of None \<Rightarrow> [] | Some j \<Rightarrow> [j]) @ tasks (base c))"

lemma shared_places:
  assumes "shared_reach c"
  shows "mset (finished_jobs (base c) @ (case running_job (base c) of None \<Rightarrow> [] | Some j \<Rightarrow> [j]) @ tasks (base c) @
      dropped (base c)) = mset [0..<length (order c)]"
    and "sorted_wrt (<) (finished_jobs (base c) @ (case running_job (base c) of None \<Rightarrow> [] | Some j \<Rightarrow> [j]) @ tasks (base c))"
  using sequence_accounts [OF shared_reach_owned [OF assms]] shared_reach_ok [OF assms]
  by (simp_all add: shared_ok_def)

lemma subseq_upt:
  assumes "sorted_wrt (<) ps" and "set ps \<subseteq> {..<n}"
  shows "subseq ps [0..<n]"
proof -
  have "ps = filter (\<lambda>p. p \<in> set ps) [0..<n]"
    using assms by (intro sorted_distinct_set_unique) (auto simp: strict_sorted_iff sorted_wrt_filter)
  then show ?thesis by (metis subseq_filter_left)
qed

lemma subseq_sorted: "subseq xs ys \<Longrightarrow> sorted_wrt P ys \<Longrightarrow> sorted_wrt P xs"
  by (induction rule: list_emb.induct) (auto dest: list_emb_set)

lemma image_nth_upto: "(!) (xs @ k # ys) ` {..length xs} = insert k (set xs)"
proof -
  have "{..length xs} = set [0..<Suc (length xs)]" by auto
  moreover have "map ((!) (xs @ k # ys)) [0..<Suc (length xs)] = xs @ [k]"
    by (rule nth_equalityI) (auto simp: nth_append less_Suc_eq simp del: upt_Suc)
  ultimately show ?thesis by (metis list.set_map set_append list.set(1,2) Un_insert_right sup_bot_right)
qed

lemma turn_subseq:
  assumes "shared_reach c"
  shows "subseq (turn_tasks c) (order c)"
proof -
  let ?ps = "finished_jobs (base c) @ (case running_job (base c) of None \<Rightarrow> [] | Some j \<Rightarrow> [j]) @ tasks (base c)"
  have "set (?ps @ dropped (base c)) = set [0..<length (order c)]"
    using shared_places(1) [OF assms] by (intro mset_eq_setD) simp
  then have "set ?ps \<subseteq> {..<length (order c)}" by auto
  with shared_places(2) [OF assms] have "subseq ?ps [0..<length (order c)]" by (rule subseq_upt)
  then have "subseq (map ((!) (order c)) ?ps) (map ((!) (order c)) [0..<length (order c)])" by (rule subseq_map)
  then show ?thesis unfolding turn_tasks_def map_nth .
qed

section \<open>Waiting for a task\<close>

text \<open>While nothing was dropped, a task is finished when every task enqueued before it is.\<close>

lemma ready_after_earlier:
  assumes reach: "shared_reach c" and ready: "task_ready k c" and "\<not> stop_signal (base c)"
    and order: "order c = xs @ k # ys"
  shows "set (xs @ [k]) \<subseteq> set (map ((!) (order c)) (finished_jobs (base c)))"
proof -
  let ?rest = "(case running_job (base c) of None \<Rightarrow> [] | Some j \<Rightarrow> [j]) @ tasks (base c)"
  have "dropped (base c) = []"
    using signals_okD(2) [OF seq_reach_signals [OF shared_reach_owned [OF reach]]] assms(3) by simp
  then have "mset (finished_jobs (base c) @ ?rest) = mset [0..<length (order c)]"
    using shared_places(1) [OF reach] by simp
  then have "set (finished_jobs (base c) @ ?rest) = set [0..<length (order c)]" by (rule mset_eq_setD)
  then have all: "q \<in> set (finished_jobs (base c)) \<or> q \<in> set ?rest" if "q < length (order c)" for q
    using that by (metis UnE atLeastLessThan_upt lessThan_atLeast0 lessThan_iff set_append)
  from ready obtain p where p: "p < length (order c)" "order c ! p = k" "p \<notin> set ?rest"
    by (auto simp: task_ready_def list_ex_iff split: option.splits)
  with all [of p] have "p \<in> set (finished_jobs (base c))" by blast
  have before: "q \<in> set (finished_jobs (base c))" if "q \<le> p" for q
  proof (rule ccontr)
    assume "q \<notin> set (finished_jobs (base c))"
    with that p(1) all [of q] have "q \<in> set ?rest" by linarith
    with \<open>p \<in> set (finished_jobs (base c))\<close> shared_places(2) [OF reach] have "p < q"
      by (simp add: sorted_wrt_append)
    with that show False by simp
  qed
  have "p = length xs"
    using p(1,2) order shared_reach_ok [OF reach] nth_eq_iff_index_eq [of "order c" p "length xs"]
    by (simp add: shared_ok_def)
  then have "set (xs @ [k]) = (!) (order c) ` {..p}"
    by (simp add: order image_nth_upto)
  with before show ?thesis by auto
qed

text \<open>The master's steps, while the threads wait.\<close>

lemma shared_master_step: "shared_reach c \<Longrightarrow> shared_reach (c\<lparr>base := master_step results (base c)\<rparr>)"
  using shared_step.Test [of c] shared_step.Call [of c] shared_step.Again [of c]
  by (cases "master (base c)") (auto simp: master_step_def intro: shared_reach_next)

lemma shared_run_master: "shared_reach c \<Longrightarrow> shared_reach (c\<lparr>base := run_master results n (base c)\<rparr>)"
proof (induction n arbitrary: c)
  case (Suc n)
  then show ?case using Suc.IH [OF shared_master_step [OF Suc.prems]] by simp
qed simp

lemma awaited_idle: "idle (base c) \<Longrightarrow> k \<in> set (order c) \<Longrightarrow> task_ready k c"
  by (auto simp: idle_def task_ready_def list_ex_iff in_set_conv_nth)

lemma awaited_ready:
  assumes reach: "shared_reach c" and "caller_at c t = Awaiting k" and "k \<in> set (order c)" and "results_ok results"
  shows "\<exists>n. task_ready k (c\<lparr>base := run_master results n (base c)\<rparr>)"
proof -
  have signals: "signals_ok (as_owned c)" by (rule seq_reach_signals [OF shared_reach_owned [OF reach]])
  have "owner (base c) = Using"
    using inside_in_use [OF shared_reach_ok [OF reach], of t] assms(2) by simp
  with signals have "\<not> exit_signal (base c)" by (auto simp: signals_ok_def as_owned_def)
  with run_to_idle [OF assms(4), of "base c"] signals_okD(4,5) [OF signals]
  obtain n where "idle (run_master results n (base c))" by (auto simp: as_owned_def)
  with assms(3) have "task_ready k (c\<lparr>base := run_master results n (base c)\<rparr>)"
    by (intro awaited_idle) simp_all
  then show ?thesis ..
qed

section \<open>Properties\<close>

text \<open>
  C19. Threads that share a sequence get their jobs run as one owner would: one at a time, each
  called with 0, 1, 2 and so on, in the order in which the tasks were enqueued; every
  task enqueued is exactly one of finished, running, queued and dropped; and the jobs that
  one thread attached get their turns in the order it attached them.
\<close>

theorem threads_take_turns:
  assumes "shared_reach c"
  shows "in_order (calls (base c)) \<and> subseq (turn_tasks c) (order c) \<and>
    mset (turn_tasks c @ map ((!) (order c)) (dropped (base c))) = mset (order c) \<and>
    sorted_wrt (<) (filter (\<lambda>k. makers c ! k = t) (turn_tasks c))"
proof (intro conjI)
  show "in_order (calls (base c))"
    using seq_reach_ok [OF shared_reach_owned [OF assms]] by (simp add: seq_ok_def)
  show sub: "subseq (turn_tasks c) (order c)" using assms by (rule turn_subseq)
  have "mset (map ((!) (order c)) [0..<length (order c)]) = mset (turn_tasks c @ map ((!) (order c)) (dropped (base c)))"
    by (simp only: mset_map shared_places(1) [OF assms, symmetric]) (simp add: turn_tasks_def)
  then show "mset (turn_tasks c @ map ((!) (order c)) (dropped (base c))) = mset (order c)"
    by (simp only: map_nth)
  have "subseq (filter (\<lambda>k. makers c ! k = t) (turn_tasks c)) (enqueued_by t c)"
    using sub unfolding enqueued_by_def by (rule subseq_filter)
  moreover have "sorted_wrt (<) (enqueued_by t c)"
    using shared_reach_ok [OF assms] by (simp add: shared_ok_def)
  ultimately show "sorted_wrt (<) (filter (\<lambda>k. makers c ! k = t) (turn_tasks c))"
    by (rule subseq_sorted)
qed


text \<open>Two threads have each made a task, and the second has enqueued its own first.\<close>

definition overtaken :: shared_seq where
  "overtaken = \<lparr>base = new_sequence\<lparr>attached := 2, tasks := [0, 1]\<rparr>, makers = [0, 1], order = [1, 0],
     latest = Some 1, caller_at = (\<lambda>t. Outside)\<rparr>"

lemma overtaken_reach: "shared_reach overtaken"
proof -
  let ?a = "prepare_job 1 (prepare_job 0 new_shared)"
  let ?b = "?a\<lparr>base := new_sequence\<lparr>attached := 1, tasks := [0]\<rparr>, order := [1], caller_at := (\<lambda>t. Outside)(0 := Holding 0)\<rparr>"
  have "shared_reach (prepare_job 0 new_shared)"
    by (rule shared_reach_next [OF shared_reach_begin], rule shared_step.Prepare)
      (simp_all add: new_shared_def new_sequence_def)
  then have "shared_reach ?a"
    by (rule shared_reach_next, intro shared_step.Prepare)
      (simp_all add: new_shared_def new_sequence_def prepare_job_def)
  moreover have "enqueue_job (\<lambda>m. None) 1 1 ?a = Inr ?b"
    by (auto simp: enqueue_job_def prepare_job_def new_shared_def new_sequence_def notify_def)
  ultimately have "shared_reach ?b"
    by (elim shared_reach_next) (rule shared_step.Enqueue [of ?a 1 1], auto simp: prepare_job_def new_shared_def)
  moreover have "enqueue_job (\<lambda>m. None) 0 0 ?b = Inr overtaken"
    by (auto simp: enqueue_job_def prepare_job_def new_shared_def new_sequence_def notify_def overtaken_def)
  ultimately show ?thesis
    by (elim shared_reach_next) (rule shared_step.Enqueue [of ?b 0 0], auto)
qed

theorem threads_take_turns_witness:
  "mset (turn_tasks overtaken @ map ((!) (order overtaken)) (dropped (base overtaken))) = mset (order overtaken)"
  using threads_take_turns [OF overtaken_reach] by blast

text \<open>
  C20. Among threads, \<open>join\<close> waits for the task whose future it found: while \<open>stop\<close> has not
  been called it returns only when that task and every task enqueued before it have
  finished, and once the task is in the queue it does return, if the jobs end.
\<close>

theorem join_among_threads:
  assumes "shared_reach c" and "caller_at c t = Awaiting k" and "order c = xs @ k # ys"
    and "\<not> stop_signal (base c)" and "results_ok results"
  shows "(task_ready k c \<longrightarrow> set (xs @ [k]) \<subseteq> set (map ((!) (order c)) (finished_jobs (base c)))) \<and>
    (\<exists>n. shared_reach (c\<lparr>base := run_master results n (base c)\<rparr>) \<and>
      task_ready k (c\<lparr>base := run_master results n (base c)\<rparr>))"
  using ready_after_earlier [OF assms(1) _ assms(4,3)] awaited_ready [OF assms(1,2) _ assms(5)]
    shared_run_master [OF assms(1)] assms(3) by auto

lemma overtaken_join_reach: "shared_reach (begin_join 0 overtaken)"
  by (rule shared_reach_next [OF overtaken_reach], rule shared_step.Join)
    (simp_all add: overtaken_def new_sequence_def)

theorem join_among_threads_witness:
  "\<exists>n. task_ready 1 (begin_join 0 overtaken\<lparr>base := run_master (\<lambda>j i. i = i) n (base (begin_join 0 overtaken))\<rparr>)"
proof -
  have "caller_at (begin_join 0 overtaken) 0 = Awaiting 1" "order (begin_join 0 overtaken) = [] @ 1 # [0]"
      "\<not> stop_signal (base (begin_join 0 overtaken))"
    by (simp_all add: begin_join_def overtaken_def new_sequence_def)
  moreover have "results_ok (\<lambda>j i. i = i)" by (auto simp: results_ok_def)
  ultimately show ?thesis using join_among_threads [OF overtaken_join_reach] by blast
qed

text \<open>A state in which a thread waits for a task that has ended, while its own is in the queue.\<close>

definition missed :: shared_seq where
  "missed = (begin_join 0 overtaken)\<lparr>base := new_sequence\<lparr>attached := 2, tasks := [1], calls := [(0, 0)],
     master := Between\<rparr>\<rparr>"

text \<open>
  C36. What \<open>join\<close> waits for is not enough for ``join all jobs'': a thread attaches a job, then calls \<open>join\<close>, and
  the call returns before the job has been started. The other thread assigned its future
  last and enqueued its task first.
\<close>

theorem join_misses_job:
  "shared_reach missed \<and> makers missed ! 0 = 0 \<and> caller_at missed 0 = Awaiting 1 \<and>
    shared_step missed (missed\<lparr>caller_at := (\<lambda>t. Outside)\<rparr>) \<and>
    0 \<in> set (map ((!) (order missed)) (tasks (base missed)))"
proof (intro conjI)
  have "run_master (\<lambda>j i. True) 2 (base (begin_join 0 overtaken)) =
      new_sequence\<lparr>attached := 2, tasks := [1], calls := [(0, 0)], master := Between\<rparr>"
    by (simp add: numeral_2_eq_2 master_step_def begin_join_def overtaken_def new_sequence_def
        test_condition_def call_job_def)
  then show "shared_reach missed"
    using shared_run_master [OF overtaken_join_reach, of "\<lambda>j i. True" 2] by (simp add: missed_def)
  show "makers missed ! 0 = 0" "caller_at missed 0 = Awaiting 1"
      "0 \<in> set (map ((!) (order missed)) (tasks (base missed)))"
    by (simp_all add: missed_def begin_join_def overtaken_def new_sequence_def)
  have "missed\<lparr>caller_at := (\<lambda>t. Outside)\<rparr> = missed\<lparr>caller_at := (caller_at missed)(0 := Outside)\<rparr>"
    by (auto simp: missed_def begin_join_def overtaken_def)
  moreover have "shared_step missed (missed\<lparr>caller_at := (caller_at missed)(0 := Outside)\<rparr>)"
    by (rule shared_step.Join_end [where k = 1])
      (simp_all add: missed_def begin_join_def overtaken_def new_sequence_def task_ready_def running_job_def upt_rec)
  ultimately show "shared_step missed (missed\<lparr>caller_at := (\<lambda>t. Outside)\<rparr>)" by simp
qed

end
