(* ===== verification/Spec2Isabelle.thy ===== *)
theory Spec2Isabelle
  imports Diff_Lcs Hash_List_Iter Config_Map Estd_Misc Decimal Units Arrs Flag_Set
    Stream_Rpc Unary_Rpc Server_Shutdown Scope_Guard Job_Runs Sequence_Threads
begin

text \<open>
  A verification development for \<open>cppkg\<close>, a library of small C++ packages. All paths are
  under \<open>src/cppkg\<close>.

  \<^bold>\<open>The parts.\<close>

  \<^item> \<open>diff\<close> compares two sequences of lines. \<open>msg.cc\<close> reads and cleans the lines, cuts long
    inputs into batches, calls \<open>myers_diff\<close> of \<open>myers_diff.h\<close> on each and prints the edit list
    with \<open>format.h\<close>.
  \<^item> \<open>estd\<close> has helpers for containers (\<open>contain.h\<close>), and on top of them the list without
    repetitions \<open>hashlist.h\<close> and the map of shared objects \<open>config.h\<close>; and small functions on
    strings, ranges, vectors and pointers.
  \<^item> \<open>numbers\<close> (fractions), \<open>units\<close> (readable times and amounts of memory), \<open>arrs\<close>
    (concatenation and ranges), \<open>error\<close> (error values), \<open>flag\<close> (command lines).
  \<^item> \<open>jobs\<close> has \<open>scope_guard.h\<close>, the thread wrapper \<open>managed_job.h\<close>, and \<open>sequence.h\<close>, a queue
    of jobs whose master thread is a \<open>ManagedJob\<close>.
  \<^item> \<open>egrpc\<close> has asynchronous clients and servers over gRPC. A client call gives its caller a
    promise for an \<open>ErrptrT\<close> of the package \<open>error\<close>, and \<open>wait_for\<close> waits for such promises.

  \<^bold>\<open>How the code is modelled.\<close> \<open>Cpp_Prelude\<close> has what the theories share. An execution has a
  result \<open>'a res\<close>, an error or a value; if a loop in it need not end, \<open>'a run\<close>, where \<open>None\<close> is
  an execution that does not return. The errors are undefined behaviour, \<open>std::length_error\<close>
  and \<open>Fatal\<close>, which stands for the other exceptions and terminations, by name. Numbers are
  \<open>nat\<close>, \<open>int\<close> or words; where the code narrows or wraps around and it matters, so does the
  model: \<open>int16_t\<close> in \<open>diff\<close> (\<open>i16\<close>), \<open>size_t\<close> (\<open>u64\<close>), \<open>uint64_t\<close> denominators (\<open>64 word\<close>),
  \<open>unsigned\<close> in \<open>units\<close> (modulo \<open>2^32\<close>), and \<open>double\<close>, rounded as IEEE binary64
  (\<open>Cpp_Double\<close>, without signed zeros). Objects that the program shares or moves are kept in
  lists in a state and known by their index; one that is destroyed is \<open>None\<close>, and using it is
  undefined. Concurrent code is a step relation, whose steps are what happens under the mutex,
  or one call of a function that the application supplies.

  \<^bold>\<open>The theories and what they show.\<close>

  \<^item> \<open>Myers_Diff\<close> is the code of \<open>myers_diff.h\<close>, each loop a \<open>partial_function\<close>. \<open>Edit_Script\<close> is
    the specification: valid edit lists, their cost, the quadratic recursion \<open>edit_dist\<close> and
    the edit graph. \<open>Myers_Search\<close> shows that one pass over the diagonals extends the furthest
    reachable positions, \<open>Myers_Trace\<close> that the trace has one row per edit count and that the
    search stops at the edit distance, \<open>Myers_Backtrace\<close> that the walk back yields a valid edit
    list of least cost. The locale \<open>diff_engine\<close> is what the messages need of a diff; it is
    interpreted on \<open>myers_diff\<close>. \<open>Diff_Msg\<close> is the code of \<open>msg.cc\<close> and \<open>format.h\<close>,
    \<open>Diff_Batch\<close> shows that the batches restore both sides and what they cost, \<open>Diff_Properties\<close> has the results
    and what goes wrong beyond the limits, and \<open>Diff_Lcs\<close> that what is kept is a longest common
    subsequence.
  \<^item> \<open>Contain\<close>: \<open>contain.h\<close>, with a \<open>std::unordered_map\<close> as the list of its entries in iteration
    order. The locales \<open>searchable\<close> and \<open>hash_map\<close> are the contract of such containers.
  \<^item> \<open>Hash_List\<close>: \<open>hashlist.h\<close>; iterators are the identities of nodes. The invariant \<open>hl_ok\<close>
    joins list and map; the locale \<open>unique_list\<close> is the contract of a list without
    repetitions. \<open>Hash_List_Iter\<close>: loops over a list, its moves, and what is wrong with its copy.
  \<^item> \<open>Config_Map\<close>: \<open>config.h\<close>. A world has all maps, all entries and the log of deletions; its
    invariant \<open>world_ok\<close> says that an entry is alive while a map refers to it, and that the log
    has the deletions of the dead ones, once each. The locale \<open>config\<close> is \<open>iConfig\<close>.
  \<^item> \<open>Estd_Misc\<close>: \<open>strs.cc\<close>, \<open>range.h\<close>, \<open>algorithm.h\<close>, \<open>cast.h\<close>. \<open>Arrs\<close>: \<open>vecs.h\<close>, \<open>list.h\<close>,
    \<open>array.h\<close>. \<open>Decimal\<close>: \<open>numbers\<close>. \<open>Units\<close>: \<open>units\<close>. \<open>Error_Msg\<close>: \<open>error\<close>. \<open>Flag_Set\<close>: \<open>flag\<close>.
  \<^item> \<open>Step_Systems\<close> has the locales for step relations: \<open>safe_system\<close>, an initial state, steps
    and an invariant they keep, and \<open>simulation\<close>, which adds an abstraction.
  \<^item> \<open>Scope_Guard\<close>: \<open>scope_guard.h\<close>; every function given to a guard is held by one guard or has
    been called once, and what changes when it throws. \<open>Managed_Job\<close>: \<open>managed_job.h\<close> with the
    promises, futures and threads it uses. \<open>Job_Runs\<close>: programs over any number of jobs, in
    which no thread is left running without an owner, and what each operation does in them; and
    the master of a sequence as one of these jobs, with what it finds while the constructor
    still assigns it.
  \<^item> \<open>Job_Sequence\<close>: \<open>sequence.h\<close> as a step relation and the order in which jobs run;
    \<open>Sequence_Spec\<close>: the simulation of an abstract queue with one server, and what \<open>join\<close>
    waits for. \<open>Sequence_Threads\<close>: a sequence that several threads attach jobs to and join; it
    simulates one that has a single owner, except that \<open>join\<close> can miss jobs.
  \<^item> \<open>Async_Client\<close>: \<open>client_async.h\<close>, \<open>iclient.h\<close>, \<open>iclient_async.h\<close>; handlers that retry, and
    promises. \<open>Async_Stream\<close>: \<open>client_async_stream.h\<close> and \<open>wait_for\<close> of \<open>iclient_async.cc\<close>.
    \<open>Client_Calls\<close>: the locale \<open>client_handler\<close>, what the caller of either kind of call relies
    on when it waits, and the promises as a table of values set once.
  \<^item> \<open>Grpc_Interfaces\<close>: \<open>icqueue.h\<close>, the interfaces of \<open>iserver_async.h\<close>, and the classes that
    implement them with gRPC objects; the locale \<open>completion_queue\<close> is what a loop around a
    queue relies on. \<open>Async_Server\<close>: \<open>server_async.h\<close>; every request is answered once and in
    order. \<open>Stream_Server\<close>: \<open>server_async_stream.h\<close>; a stream is written in order and finished
    once; and the part of that which holds with other writers. \<open>Stream_Calls\<close>: any number of such calls on one queue, none of which is used after
    deletion. \<open>Server_Queue\<close>: the locale \<open>server_call\<close> is the contract of \<open>iServerCall\<close>, which both
    kinds of calls provide, and so do two services together, which do not affect each other.
    \<open>Server_Shutdown\<close>: the same for \<open>shutdown\<close>, with the locale \<open>disposable\<close>.
  \<^item> \<open>Unary_Rpc\<close>: a unary call from the client's retries over the server to \<open>wait_for\<close>, and how
    often the server executes it. \<open>Stream_Rpc\<close>: a streaming call from the server's range to the
    client's \<open>wait_for\<close>.

  \<^bold>\<open>Parameters.\<close> Code that is not part of the repository is an argument: the comparator of a
  diff, \<open>trim\<close> and \<open>sprintf\<close> of \<open>cisab\<close>, the logger's \<open>fatal\<close> (an exception, or that it
  returns), \<open>boost::program_options\<close>, what the standard library leaves in moved-from
  functions and containers and behind \<open>remove_if\<close>, and the functions that an application gives
  to jobs, guards, clients and servers; whether the call of its function that the thread of a
  \<open>ManagedJob\<close> is in returns is one too (\<open>ends\<close>). Of gRPC the model has the operations started on it; which
  complete when, with what outcome, is an argument or any choice of a step. Its documented
  behaviour is assumed in three places: an operation completes at most once; in \<open>Stream_Rpc\<close>
  messages arrive in order, followed by the status (\<open>delivers\<close>); and in \<open>Unary_Rpc\<close> an attempt
  fails before or after it has reached the server, or brings its answer (\<open>fate\<close>). The results
  on servers are for the default responder and writer, the classes over gRPC.

  \<^bold>\<open>Bounds and fuel.\<close> The results on \<open>myers_diff\<close> hold up to 16383 elements in total, those on
  the search alone while \<open>2 n + m\<close> and \<open>n + 2 m\<close> are at most 32767; beyond, indices wrap around,
  and \<open>Diff_Properties\<close> shows what the code then does. A batch limit of 1 to 8191 keeps each
  batch within the bound. \<open>run_scall\<close> and \<open>run_master\<close> count steps: the first is shown to need
  one per reply and two more, for the second a sufficient number is shown to exist. \<open>poll_queue\<close>
  counts events, of which there may be any number. No other definition has fuel.

  \<^bold>\<open>Not modelled.\<close> The text of log lines; addresses and memory; signed zeros; what C++ leaves
  undefined when threads access a member without synchronisation (\<open>last_future_\<close> of a
  \<open>Sequence\<close> used by several threads, \<open>master_\<close> while it is constructed: each access is one
  step); tests and build files.
\<close>

end
